(* ===== verification/Blk_Prelude.thy ===== *)
theory Blk_Prelude
  imports Main "HOL-Library.Word"
begin

text \<open>
  Shared vocabulary of the development: the kernel's integer types at their width, error
  codes and the three result shapes of the module's functions, the kernel macros the
  sources use (\<^verbatim>\<open>round_up\<close>, \<^verbatim>\<open>round_down\<close>, little-endian struct images, reference
  counts), the queue interface that several components provide, and the arithmetic and
  list lemmas the component theories rest on.

  Result shapes:
  \<^item> \<open>ret\<close>: an \<^verbatim>\<open>int\<close> that is 0 or a negated errno; \<open>None\<close> is 0, \<open>Some e\<close> is \<^verbatim>\<open>-e\<close>;
  \<^item> \<open>'a result\<close>: a pointer that is valid or \<^verbatim>\<open>ERR_PTR(-e)\<close>; \<open>Inl e\<close> is the error;
  \<^item> \<open>'a outcome\<close>: what a run of C code does; \<open>Fault\<close> is a NULL or out-of-bounds access
    (undefined behaviour), \<open>Ok v\<close> a normal return.
\<close>

unbundle bit_operations_syntax

section \<open>Types, errors and outcomes\<close>

type_synonym u8 = "8 word"
type_synonym u16 = "16 word"
type_synonym u32 = "32 word"
type_synonym u64 = "64 word"
type_synonym sector_t = u64
type_synonym uuid = "128 word"
type_synonym dev_t = nat

datatype errno =
    EPERM | ENOENT | ESRCH | EINTR | EIO | EAGAIN | ENOMEM | EFAULT | EBUSY | ENODEV
  | EINVAL | ENOTTY | ENOSPC | ENODATA | ENOBUFS | EALREADY | ERESTARTSYS | EOTHER nat

type_synonym ret = "errno option"
type_synonym 'a result = "errno + 'a"

datatype 'a outcome = Fault | Ok 'a

fun bind_outcome :: "'a outcome \<Rightarrow> ('a \<Rightarrow> 'b outcome) \<Rightarrow> 'b outcome" where
  "bind_outcome Fault f = Fault"
| "bind_outcome (Ok x) f = f x"

lemma bind_outcome_Ok [simp]: "bind_outcome m Ok = m"
  by (cases m) simp_all

lemma bind_outcome_assoc: "bind_outcome (bind_outcome m f) g = bind_outcome m (\<lambda>x. bind_outcome (f x) g)"
  by (cases m) simp_all

lemma bind_outcome_eq_OkD: "bind_outcome m f = Ok y \<Longrightarrow> \<exists>x. m = Ok x \<and> f x = Ok y"
  by (cases m) simp_all

abbreviation SECTOR_SHIFT :: nat where "SECTOR_SHIFT \<equiv> 9"
abbreviation SECTOR_SIZE :: nat where "SECTOR_SIZE \<equiv> 512"
abbreviation PAGE_SHIFT :: nat where "PAGE_SHIFT \<equiv> 12"
abbreviation PAGE_SIZE :: nat where "PAGE_SIZE \<equiv> 4096"
abbreviation PAGE_SECTORS :: nat where "PAGE_SECTORS \<equiv> 8"

named_theorems geom \<open>arithmetic of sectors, blocks, chunks and pages\<close>

section \<open>Rounding to powers of two\<close>

definition round_down_u64 :: "u64 \<Rightarrow> u64 \<Rightarrow> u64" where
  "round_down_u64 x y = x AND NOT (y - 1)"

definition round_up_u64 :: "u64 \<Rightarrow> u64 \<Rightarrow> u64" where
  "round_up_u64 x y = ((x - 1) OR (y - 1)) + 1"

lemma word_and_not_mask_plus:
  fixes x :: "'a::len word"
  shows "(x AND NOT (mask k)) + take_bit k x = x"
proof -
  have "(x AND NOT (mask k)) AND take_bit k x = 0"
    by (rule bit_eqI) (simp add: bit_simps)
  then have "(x AND NOT (mask k)) + take_bit k x = (x AND NOT (mask k)) OR take_bit k x"
    by (rule disjunctive_add_eq_or)
  also have "\<dots> = x"
    by (rule bit_eqI) (auto simp: bit_simps dest: bit_imp_le_length)
  finally show ?thesis .
qed

lemma unat_take_bit_mod:
  fixes x :: "'a::len word"
  shows "unat (take_bit k x) = unat x mod 2 ^ k"
  by (subst unsigned_take_bit_eq) (rule take_bit_eq_mod)

lemma unat_drop_bit_div [geom]:
  fixes x :: "'a::len word"
  shows "unat (drop_bit k x) = unat x div 2 ^ k"
  by (subst unat_drop_bit_eq) (rule drop_bit_eq_div)

lemma unat_and_not_mask:
  fixes x :: "'a::len word"
  shows "unat (x AND NOT (mask k)) = unat x div 2 ^ k * 2 ^ k"
proof -
  have eq: "x AND NOT (mask k) = x - take_bit k x"
    using word_and_not_mask_plus [of x k] by (metis add_diff_cancel_right')
  have le: "take_bit k x \<le> x"
    by (simp add: word_le_nat_alt unat_take_bit_mod)
  then have "unat (x AND NOT (mask k)) = unat x - unat x mod 2 ^ k"
    by (simp only: eq unat_sub unat_take_bit_mod)
  then show ?thesis by (simp add: minus_mod_eq_div_mult)
qed

lemma pow_minus_1_mask: "(2::'a::len word) ^ k - 1 = mask k"
  by (simp add: mask_eq_decr_exp)

lemma unat_round_down [geom]:
  "unat (round_down_u64 x (2 ^ k)) = unat x div 2 ^ k * 2 ^ k"
  by (simp only: round_down_u64_def pow_minus_1_mask unat_and_not_mask)

lemma or_mask_eq:
  fixes x :: "'a::len word"
  shows "x OR mask k = (x AND NOT (mask k)) + mask k"
proof -
  have "(x AND NOT (mask k)) AND mask k = 0"
    by (rule bit_eqI) (simp add: bit_simps)
  then have "(x AND NOT (mask k)) + mask k = (x AND NOT (mask k)) OR mask k"
    by (rule disjunctive_add_eq_or)
  also have "\<dots> = x OR mask k"
    by (rule bit_eqI) (auto simp: bit_simps)
  finally show ?thesis by simp
qed

lemma round_up_eq: "round_up_u64 x (2 ^ k) = ((x - 1) AND NOT (mask k)) + 2 ^ k"
proof -
  have "round_up_u64 x (2 ^ k) = ((x - 1) AND NOT (mask k)) + (mask k + 1)"
    by (simp only: round_up_u64_def pow_minus_1_mask or_mask_eq add.assoc)
  then show ?thesis by (simp add: mask_eq_decr_exp)
qed

lemma unat_two_power [geom]:
  assumes "k < LENGTH('a)"
  shows "unat ((2::'a::len word) ^ k) = 2 ^ k"
proof -
  have "(2::'a word) ^ k = word_of_nat (2 ^ k)" by simp
  then have "unat ((2::'a word) ^ k) = 2 ^ k mod 2 ^ LENGTH('a)"
    by (simp only: unat_of_nat)
  moreover have "(2::nat) ^ k < 2 ^ LENGTH('a)"
    using assms by (simp add: power_strict_increasing)
  ultimately show ?thesis by simp
qed

lemma unat_round_up:
  assumes "x \<noteq> 0" "k < 64" "(unat x - 1) div 2 ^ k * 2 ^ k + 2 ^ k < 2 ^ 64"
  shows "unat (round_up_u64 x (2 ^ k)) = (unat x - 1) div 2 ^ k * 2 ^ k + 2 ^ k"
proof -
  have p: "unat ((2::u64) ^ k) = 2 ^ k" using assms(2) by (simp add: unat_two_power)
  have m: "unat (x - 1) = unat x - 1" using assms(1) by (rule unat_minus_one)
  have l: "LENGTH(64) = 64" by simp
  have "unat (round_up_u64 x (2 ^ k)) = ((unat x - 1) div 2 ^ k * 2 ^ k + 2 ^ k) mod 2 ^ 64"
    by (simp only: round_up_eq unat_word_ariths p unat_and_not_mask m l)
  with assms(3) show ?thesis by (simp only: mod_less)
qed

lemma round_up_0 [simp]: "round_up_u64 0 y = 0"
  by (simp add: round_up_u64_def)

text \<open>Ceiling division, the number of blocks of size \<open>n\<close> that cover \<open>c\<close>.\<close>

definition ceil_div :: "nat \<Rightarrow> nat \<Rightarrow> nat" where
  "ceil_div c n = (c + n - 1) div n"

lemma ceil_div_pos: "0 < c \<Longrightarrow> 0 < n \<Longrightarrow> ceil_div c n = (c - 1) div n + 1"
  unfolding ceil_div_def
  by (metis Suc_eq_plus1 Suc_pred' add_Suc diff_Suc_1 div_add_self2 not_gr_zero)

lemma ceil_div_0 [simp]: "0 < n \<Longrightarrow> ceil_div 0 n = 0"
  by (simp add: ceil_div_def)

lemma ceil_div_covers:
  assumes "0 < n" shows "c \<le> ceil_div c n * n"
proof (cases "c = 0")
  case False
  have "c - 1 = (c - 1) div n * n + (c - 1) mod n" by simp
  moreover have "(c - 1) mod n < n" using assms by simp
  moreover have "ceil_div c n * n = (c - 1) div n * n + n"
    using False assms by (simp add: ceil_div_pos)
  ultimately show ?thesis using False by linarith
qed simp

lemma div_less_ceil_div:
  assumes "x < c" "0 < n" shows "x div n < ceil_div c n"
proof -
  have "x div n \<le> (c - 1) div n" using assms by (intro div_le_mono) simp
  with assms show ?thesis by (simp add: ceil_div_pos)
qed

lemma unat_round_up_div:
  assumes k: "k < 64" and c: "unat c + 2 ^ k \<le> 2 ^ 64 - 1"
  shows "unat (round_up_u64 c (2 ^ k)) = ceil_div (unat c) (2 ^ k) * 2 ^ k"
proof (cases "c = 0")
  case False
  then have pos: "0 < unat c" by (simp add: unat_gt_0)
  have le: "(unat c - 1) div 2 ^ k * 2 ^ k \<le> unat c - 1" by simp
  then have "(unat c - 1) div 2 ^ k * 2 ^ k + 2 ^ k < 2 ^ 64"
    using c pos by linarith
  from unat_round_up [OF False k this] pos show ?thesis by (simp add: ceil_div_pos)
qed simp

lemma unat_plus_one_less [geom]:
  fixes x y :: "'a::len word"
  assumes "x < y" shows "unat (x + 1) = unat x + 1"
proof -
  have "unat y < 2 ^ LENGTH('a)" by (rule unsigned_less)
  moreover have "unat x < unat y" using assms by (simp add: word_less_nat_alt)
  ultimately have "unat x + 1 < 2 ^ LENGTH('a)" by linarith
  then show ?thesis by (simp add: unat_word_ariths)
qed

section \<open>Little-endian images of integers\<close>

text \<open>A struct copied by \<^verbatim>\<open>memcpy\<close> is the concatenation of its fields' bytes.\<close>

definition le_bytes :: "nat \<Rightarrow> 'a::len word \<Rightarrow> u8 list" where
  "le_bytes n x = map (\<lambda>i. ucast (drop_bit (8 * i) x)) [0..<n]"

fun of_le_bytes :: "u8 list \<Rightarrow> nat" where
  "of_le_bytes [] = 0"
| "of_le_bytes (b # bs) = unat b + 256 * of_le_bytes bs"

lemma length_le_bytes [simp]: "length (le_bytes n x) = n"
  by (simp add: le_bytes_def)

lemma le_bytes_Suc: "le_bytes (Suc n) x = ucast x # le_bytes n (drop_bit 8 x)"
  by (simp add: le_bytes_def upt_rec [of 0] map_Suc_upt [symmetric] del: map_Suc_upt upt_Suc)
     (simp add: comp_def add.commute)

lemma of_le_bytes_le_bytes: "of_le_bytes (le_bytes n x) = unat x mod 256 ^ n"
proof (induction n arbitrary: x)
  case 0
  then show ?case by (simp add: le_bytes_def)
next
  case (Suc n)
  have u: "unat (ucast x :: u8) = unat x mod 256"
    by (simp add: unsigned_ucast_eq take_bit_eq_mod)
  have "of_le_bytes (le_bytes (Suc n) x) = unat x mod 256 + 256 * (unat x div 256 mod 256 ^ n)"
    using Suc.IH [of "drop_bit 8 x"] by (simp add: le_bytes_Suc u unat_drop_bit_div)
  then show ?case by (simp add: mod_mult2_eq)
qed

lemma of_le_bytes_u64: "of_le_bytes (le_bytes 8 (x::u64)) = unat x"
  using unsigned_less [of x, where ?'a = nat] by (simp add: of_le_bytes_le_bytes)

lemma of_le_bytes_u32: "of_le_bytes (le_bytes 4 (x::u32)) = unat x"
  using unsigned_less [of x, where ?'a = nat] by (simp add: of_le_bytes_le_bytes)

section \<open>Reference counts\<close>

text \<open>\<^verbatim>\<open>kref_put\<close> calls the release function when the count drops to zero: the second
  component says whether it does.\<close>

definition kref_get :: "nat \<Rightarrow> nat" where
  "kref_get n = Suc n"

definition kref_put :: "nat \<Rightarrow> nat \<times> bool" where
  "kref_put n = (n - 1, n = 1)"

lemma kref_get_put: "0 < n \<Longrightarrow> kref_put (kref_get n) = (n, False)"
  by (simp add: kref_get_def kref_put_def)

section \<open>The queue interface\<close>

text \<open>
  Several components keep a list under a spin lock, append with \<^verbatim>\<open>list_add_tail\<close> and take
  with \<^verbatim>\<open>list_first_entry_or_null\<close> and \<^verbatim>\<open>list_del\<close>: the event queue, the queue of I/O
  units of a snapshot image, the pool and the queue of log requests, the list of trackers
  waiting for release. The interface is stated once; what a client sees is proved once.
\<close>

locale fifo =
  fixes push :: "'a \<Rightarrow> 's \<Rightarrow> 's"
    and pop :: "'s \<Rightarrow> 'a option \<times> 's"
    and items :: "'s \<Rightarrow> 'a list"
  assumes items_push: "items (push x s) = items s @ [x]"
    and pop_Nil: "items s = [] \<Longrightarrow> pop s = (None, s)"
    and pop_Cons: "items s = x # xs \<Longrightarrow> \<exists>s'. pop s = (Some x, s') \<and> items s' = xs"
begin

fun push_all :: "'a list \<Rightarrow> 's \<Rightarrow> 's" where
  "push_all [] s = s"
| "push_all (x # xs) s = push_all xs (push x s)"

fun pop_n :: "nat \<Rightarrow> 's \<Rightarrow> 'a list \<times> 's" where
  "pop_n 0 s = ([], s)"
| "pop_n (Suc n) s =
     (case pop s of
        (None, s') \<Rightarrow> ([], s')
      | (Some x, s') \<Rightarrow> (case pop_n n s' of (xs, s'') \<Rightarrow> (x # xs, s'')))"

lemma items_push_all: "items (push_all xs s) = items s @ xs"
  by (induction xs arbitrary: s) (simp_all add: items_push)

lemma pop_n_items:
  "n \<le> length (items s) \<Longrightarrow>
     fst (pop_n n s) = take n (items s) \<and> items (snd (pop_n n s)) = drop n (items s)"
proof (induction n arbitrary: s)
  case (Suc n)
  then obtain x xs where i: "items s = x # xs" by (cases "items s") auto
  with pop_Cons obtain s' where s': "pop s = (Some x, s')" "items s' = xs" by blast
  with Suc i show ?case by (auto split: prod.split) (metis fst_conv snd_conv)+
qed simp

lemma fifo_order:
  assumes "items s = []"
  shows "fst (pop_n (length xs) (push_all xs s)) = xs"
  using pop_n_items [of "length xs" "push_all xs s"] assms by (simp add: items_push_all)

lemma pop_None_iff: "fst (pop s) = None \<longleftrightarrow> items s = []"
  using pop_Nil pop_Cons by (cases "items s") (fastforce dest: pop_Cons)+

end

section \<open>List lemmas\<close>

lemma all_set_updateI:
  "\<forall>x\<in>set xs. P x \<Longrightarrow> P y \<Longrightarrow> \<forall>x\<in>set (xs[i := y]). P x"
  using set_update_subset_insert by fastforce

lemma find_Some_mem: "find P xs = Some x \<Longrightarrow> x \<in> set xs \<and> P x"
  by (induction xs) (auto split: if_splits)

definition pairwise_disjoint :: "('a \<Rightarrow> 'b set) \<Rightarrow> 'a list \<Rightarrow> bool" where
  "pairwise_disjoint f xs \<longleftrightarrow> (\<forall>i<length xs. \<forall>j<i. f (xs ! i) \<inter> f (xs ! j) = {})"

lemma pairwise_disjoint_Nil [simp]: "pairwise_disjoint f []"
  by (simp add: pairwise_disjoint_def)

lemma pairwise_disjoint_Cons:
  "pairwise_disjoint f (x # xs) \<longleftrightarrow> (\<forall>y\<in>set xs. f x \<inter> f y = {}) \<and> pairwise_disjoint f xs"
proof
  assume *: "pairwise_disjoint f (x # xs)"
  have "f x \<inter> f (xs ! i) = {}" if "i < length xs" for i
    using *[unfolded pairwise_disjoint_def, rule_format, of "Suc i" 0] that by auto
  moreover have "f (xs ! i) \<inter> f (xs ! j) = {}" if "i < length xs" "j < i" for i j
    using *[unfolded pairwise_disjoint_def, rule_format, of "Suc i" "Suc j"] that by simp
  ultimately show "(\<forall>y\<in>set xs. f x \<inter> f y = {}) \<and> pairwise_disjoint f xs"
    unfolding pairwise_disjoint_def by (metis in_set_conv_nth)
next
  assume *: "(\<forall>y\<in>set xs. f x \<inter> f y = {}) \<and> pairwise_disjoint f xs"
  show "pairwise_disjoint f (x # xs)"
    unfolding pairwise_disjoint_def
  proof (intro allI impI)
    fix i j assume ij: "i < length (x # xs)" "j < i"
    then obtain i' where i': "i = Suc i'" "i' < length xs" by (cases i) auto
    show "f ((x # xs) ! i) \<inter> f ((x # xs) ! j) = {}"
    proof (cases j)
      case 0
      then show ?thesis using * i' nth_mem [OF i'(2)] by (auto simp: i')
    next
      case (Suc j')
      then show ?thesis using * i' ij by (simp add: pairwise_disjoint_def)
    qed
  qed
qed

end
