(* ===== verification/Diff_Storage.thy ===== *)
theory Diff_Storage
  imports Event_Queue
begin

text \<open>
  The difference storage of a snapshot, \<^verbatim>\<open>module/diff_storage.c\<close> and \<^verbatim>\<open>module/diff_storage.h\<close>: ranges of
  block devices given by the user, from which regions for chunks are cut.  The linked lists are
  lists, block devices are numbered.  The answers of the allocator, of \<^verbatim>\<open>blkdev_get_by_dev\<close> and of
  \<^verbatim>\<open>copy_from_user\<close> are arguments; \<open>dmin\<close> is the module parameter \<^verbatim>\<open>diff_storage_minimum\<close>.

  The interface \<open>region_allocator\<close> says what a client of such a storage may rely on: regions never
  overlap.  Further lemmas show the accounting of filled sectors, when an allocation fails, that the
  overflow flag is never cleared, and when the low-space event is sent or lost.
\<close>

section \<open>Data and operations\<close>

type_synonym bdev = nat

record diff_region =
  reg_bdev :: bdev
  reg_sector :: sector_t
  reg_count :: sector_t

record storage_bdev =
  sb_dev_id :: dev_t
  sb_bdev :: bdev

record storage_block =
  blk_bdev :: bdev
  blk_sector :: sector_t
  blk_cnt :: sector_t
  blk_used :: sector_t

record diff_storage =
  ds_kref :: nat
  storage_bdevs :: "storage_bdev list"
  empty_blocks :: "storage_block list"
  filled_blocks :: "storage_block list"
  capacity :: sector_t
  filled :: sector_t
  requested :: sector_t
  low_space_flag :: u32
  overflow_flag :: u32
  ds_event_queue :: event_queue

text \<open>The answers to one \<^verbatim>\<open>event_gen\<close>: the allocation and the clock.\<close>

type_synonym event_answers = "bool \<times> int"

abbreviation (input) event_code_low_free_space :: int where "event_code_low_free_space \<equiv> 0"
abbreviation (input) event_code_corrupted :: int where "event_code_corrupted \<equiv> 1"

definition diff_storage_event_low ::
  "u32 \<Rightarrow> event_answers \<Rightarrow> diff_storage \<Rightarrow> diff_storage outcome" where
  "diff_storage_event_low dmin ev ds =
     (let nr_sect = scast dmin :: u64;
          ds1 = ds\<lparr>requested := requested ds + nr_sect\<rparr>
      in bind_outcome
           (event_gen (ds_event_queue ds1) (fst ev) (snd ev) event_code_low_free_space
              (le_bytes 8 nr_sect) 8)
           (\<lambda>(_, q). Ok (ds1\<lparr>ds_event_queue := q\<rparr>)))"

definition diff_storage_zero :: diff_storage where
  "diff_storage_zero =
     \<lparr>ds_kref = 0, storage_bdevs = [], empty_blocks = [], filled_blocks = [], capacity = 0, filled = 0,
      requested = 0, low_space_flag = 0, overflow_flag = 0, ds_event_queue = event_queue_init\<rparr>"

definition diff_storage_new ::
  "u32 \<Rightarrow> bool \<Rightarrow> event_answers \<Rightarrow> diff_storage option outcome" where
  "diff_storage_new dmin kzalloc_ok ev =
     (if \<not> kzalloc_ok then Ok None
      else bind_outcome (diff_storage_event_low dmin ev (diff_storage_zero\<lparr>ds_kref := 1\<rparr>))
             (\<lambda>ds. Ok (Some ds)))"

text \<open>\<^verbatim>\<open>diff_storage_free\<close>: the blocks freed, the devices closed and the events freed, each list taken
  from its head until it is empty.\<close>

fun free_all :: "'a list \<Rightarrow> 'a list \<Rightarrow> 'a list \<times> 'a list" where
  "free_all [] freed = ([], freed)"
| "free_all (x # xs) freed = free_all xs (freed @ [x])"

definition diff_storage_free ::
  "diff_storage \<Rightarrow> diff_storage \<times> storage_block list \<times> bdev list \<times> event list" where
  "diff_storage_free ds =
     (case free_all (empty_blocks ds) [] of (emp, freed1) \<Rightarrow>
      case free_all (filled_blocks ds) freed1 of (fill, freed2) \<Rightarrow>
      case free_all (storage_bdevs ds) [] of (bdevs, closed) \<Rightarrow>
      case event_queue_done (ds_event_queue ds) of (q, events) \<Rightarrow>
        (ds\<lparr>empty_blocks := emp, filled_blocks := fill, storage_bdevs := bdevs, ds_event_queue := q\<rparr>,
         freed2, map sb_bdev closed, events))"

definition diff_storage_get :: "diff_storage \<Rightarrow> diff_storage" where
  "diff_storage_get ds = ds\<lparr>ds_kref := kref_get (ds_kref ds)\<rparr>"

text \<open>\<open>None\<close> when the last reference is dropped and the storage is freed.\<close>

definition diff_storage_put :: "diff_storage option \<Rightarrow> diff_storage option" where
  "diff_storage_put p =
     (case p of
        None \<Rightarrow> None
      | Some ds \<Rightarrow> (case kref_put (ds_kref ds) of (n, released) \<Rightarrow>
          if released then None else Some (ds\<lparr>ds_kref := n\<rparr>)))"

definition diff_storage_bdev_by_id :: "diff_storage \<Rightarrow> dev_t \<Rightarrow> bdev option" where
  "diff_storage_bdev_by_id ds dev_id =
     map_option sb_bdev (find (\<lambda>sb. sb_dev_id sb = dev_id) (storage_bdevs ds))"

definition diff_storage_add_storage_bdev ::
  "diff_storage \<Rightarrow> dev_t \<Rightarrow> bdev result \<Rightarrow> bool \<Rightarrow> bdev result \<times> diff_storage" where
  "diff_storage_add_storage_bdev ds dev_id opened kzalloc_ok =
     (case opened of
        Inl e \<Rightarrow> (Inl e, ds)
      | Inr bdev \<Rightarrow>
          if \<not> kzalloc_ok then (Inl ENOMEM, ds)
          else (Inr bdev,
                ds\<lparr>storage_bdevs := storage_bdevs ds @ [\<lparr>sb_dev_id = dev_id, sb_bdev = bdev\<rparr>]\<rparr>))"

definition diff_storage_add_range ::
  "diff_storage \<Rightarrow> bdev \<Rightarrow> sector_t \<Rightarrow> sector_t \<Rightarrow> bool \<Rightarrow> ret \<times> diff_storage" where
  "diff_storage_add_range ds bdev sector cnt kzalloc_ok =
     (if \<not> kzalloc_ok then (Some ENOMEM, ds)
      else (None,
            ds\<lparr>empty_blocks := empty_blocks ds @
                 [\<lparr>blk_bdev = bdev, blk_sector = sector, blk_cnt = cnt, blk_used = 0\<rparr>],
               capacity := capacity ds + cnt\<rparr>))"

text \<open>The loop over the user's ranges: a range is \<open>None\<close> when \<^verbatim>\<open>copy_from_user\<close> fails; the flag is
  the answer to the allocation for it.\<close>

fun append_block_loop ::
  "diff_storage \<Rightarrow> bdev \<Rightarrow> ((sector_t \<times> sector_t) option \<times> bool) list \<Rightarrow> ret \<times> diff_storage" where
  "append_block_loop ds bdev [] = (None, ds)"
| "append_block_loop ds bdev ((None, _) # ranges) = (Some EINVAL, ds)"
| "append_block_loop ds bdev ((Some (off, cnt), kzalloc_ok) # ranges) =
     (case diff_storage_add_range ds bdev off cnt kzalloc_ok of
        (Some e, ds') \<Rightarrow> (Some e, ds')
      | (None, ds') \<Rightarrow> append_block_loop ds' bdev ranges)"

definition diff_storage_append_block ::
  "diff_storage \<Rightarrow> dev_t \<Rightarrow> bdev result \<Rightarrow> bool \<Rightarrow> ((sector_t \<times> sector_t) option \<times> bool) list \<Rightarrow>
     ret \<times> diff_storage" where
  "diff_storage_append_block ds dev_id opened kzalloc_ok ranges =
     (case (case diff_storage_bdev_by_id ds dev_id of
              Some bdev \<Rightarrow> (Inr bdev, ds)
            | None \<Rightarrow> diff_storage_add_storage_bdev ds dev_id opened kzalloc_ok) of
        (Inl e, ds1) \<Rightarrow> (Some e, ds1)
      | (Inr bdev, ds1) \<Rightarrow>
          (case append_block_loop ds1 bdev ranges of
             (Some e, ds2) \<Rightarrow> (Some e, ds2)
           | (None, ds2) \<Rightarrow>
               (None, if low_space_flag ds2 \<noteq> 0 \<and> requested ds2 \<le> capacity ds2
                      then ds2\<lparr>low_space_flag := 0\<rparr> else ds2)))"

definition is_halffull :: "u32 \<Rightarrow> sector_t \<Rightarrow> bool" where
  "is_halffull dmin sectors_left \<longleftrightarrow>
     sectors_left \<le> scast (signed_drop_bit 1 dmin AND NOT (8 - 1))"

text \<open>The allocation loop: the region found (\<open>None\<close> when the list of empty blocks is exhausted), the
  two block lists and the number of filled sectors.\<close>

fun new_region_loop ::
  "storage_block list \<Rightarrow> storage_block list \<Rightarrow> sector_t \<Rightarrow> sector_t \<Rightarrow>
     diff_region option \<times> storage_block list \<times> storage_block list \<times> sector_t" where
  "new_region_loop [] fill nfilled cnt = (None, [], fill, nfilled)"
| "new_region_loop (b # bs) fill nfilled cnt =
     (let available = blk_cnt b - blk_used b
      in if cnt \<le> available
         then (Some \<lparr>reg_bdev = blk_bdev b, reg_sector = blk_sector b + blk_used b, reg_count = cnt\<rparr>,
               b\<lparr>blk_used := blk_used b + cnt\<rparr> # bs, fill, nfilled + cnt)
         else new_region_loop bs (fill @ [b]) (nfilled + available) cnt)"

definition diff_storage_new_region ::
  "u32 \<Rightarrow> bool \<Rightarrow> event_answers \<Rightarrow> diff_storage \<Rightarrow> sector_t \<Rightarrow>
     (diff_region result \<times> diff_storage) outcome" where
  "diff_storage_new_region dmin kzalloc_ok ev ds cnt =
     (if overflow_flag ds \<noteq> 0 then Ok (Inl ENOSPC, ds)
      else if \<not> kzalloc_ok then Ok (Inl ENOMEM, ds)
      else case new_region_loop (empty_blocks ds) (filled_blocks ds) (filled ds) cnt of
        (found, emp, fill, nfilled) \<Rightarrow>
          let ds1 = ds\<lparr>empty_blocks := emp, filled_blocks := fill, filled := nfilled\<rparr>;
              sectors_left = requested ds1 - filled ds1
          in case found of
               None \<Rightarrow> Ok (Inl ENOSPC, ds1\<lparr>overflow_flag := overflow_flag ds1 + 1\<rparr>)
             | Some region \<Rightarrow>
                 if is_halffull dmin sectors_left
                 then let ds2 = ds1\<lparr>low_space_flag := low_space_flag ds1 + 1\<rparr>
                      in if low_space_flag ds2 = 1
                         then bind_outcome (diff_storage_event_low dmin ev ds2)
                                (\<lambda>ds3. Ok (Inr region, ds3))
                         else Ok (Inr region, ds2)
                 else Ok (Inr region, ds1))"

section \<open>Well-formed storages\<close>

definition blk_free :: "storage_block \<Rightarrow> (bdev \<times> nat) set" where
  "blk_free b = {blk_bdev b} \<times> {unat (blk_sector b) + unat (blk_used b) ..< unat (blk_sector b) + unat (blk_cnt b)}"

definition blk_ok :: "storage_block \<Rightarrow> bool" where
  "blk_ok b \<longleftrightarrow> unat (blk_used b) \<le> unat (blk_cnt b) \<and> unat (blk_sector b) + unat (blk_cnt b) < 2 ^ 64"

definition region_locs :: "diff_region \<Rightarrow> (bdev \<times> nat) set" where
  "region_locs r = {reg_bdev r} \<times> {unat (reg_sector r) ..< unat (reg_sector r) + unat (reg_count r)}"

definition ds_avail :: "diff_storage \<Rightarrow> (bdev \<times> nat) set" where
  "ds_avail ds = (\<Union>b\<in>set (empty_blocks ds). blk_free b)"

fun free_disjoint :: "storage_block list \<Rightarrow> bool" where
  "free_disjoint [] = True"
| "free_disjoint (b # bs) = ((\<forall>b'\<in>set bs. blk_free b \<inter> blk_free b' = {}) \<and> free_disjoint bs)"

definition ds_wf :: "diff_storage \<Rightarrow> bool" where
  "ds_wf ds \<longleftrightarrow> (\<forall>b\<in>set (empty_blocks ds). blk_ok b) \<and> free_disjoint (empty_blocks ds)"

lemma free_disjoint_snoc:
  "free_disjoint (bs @ [b]) \<longleftrightarrow> free_disjoint bs \<and> (\<forall>b'\<in>set bs. blk_free b' \<inter> blk_free b = {})"
  by (induction bs) auto

definition low_space_event :: "u32 \<Rightarrow> int \<Rightarrow> event" where
  "low_space_event dmin now =
     \<lparr>ev_time = now, ev_code = event_code_low_free_space, ev_data_size = 8,
      ev_data = le_bytes 8 (scast dmin :: u64)\<rparr>"

lemma diff_storage_event_low_eq:
  "diff_storage_event_low dmin ev ds =
     Ok (ds\<lparr>requested := requested ds + scast dmin,
            ds_event_queue := (if fst ev then event_add_tail (low_space_event dmin (snd ev)) (ds_event_queue ds)
                               else ds_event_queue ds)\<rparr>)"
  by (simp add: diff_storage_event_low_def event_gen_def low_space_event_def Let_def)

text \<open>What the allocation loop does to the free space.\<close>

lemma new_region_loop_free:
  assumes "new_region_loop bs fill n cnt = (found, bs', fill', n')"
    and "\<forall>b\<in>set bs. blk_ok b" "free_disjoint bs"
  shows "(\<forall>b\<in>set bs'. blk_ok b) \<and> free_disjoint bs' \<and>
    (case found of
       None \<Rightarrow> bs' = []
     | Some r \<Rightarrow> reg_count r = cnt \<and> region_locs r \<subseteq> (\<Union>b\<in>set bs. blk_free b) \<and>
         (\<Union>b\<in>set bs'. blk_free b) \<subseteq> (\<Union>b\<in>set bs. blk_free b) - region_locs r)"
  using assms
proof (induction bs fill n cnt rule: new_region_loop.induct)
  case (2 b bs fill n cnt)
  show ?case
  proof (cases "cnt \<le> blk_cnt b - blk_used b")
    case True
    let ?b = "b\<lparr>blk_used := blk_used b + cnt\<rparr>"
    let ?r = "\<lparr>reg_bdev = blk_bdev b, reg_sector = blk_sector b + blk_used b, reg_count = cnt\<rparr>"
    have ok: "unat (blk_used b) \<le> unat (blk_cnt b)" "unat (blk_sector b) + unat (blk_cnt b) < 2 ^ 64"
      using "2.prems"(2) by (simp_all add: blk_ok_def)
    have "unat cnt \<le> unat (blk_cnt b) - unat (blk_used b)"
      using True ok(1) by (simp add: word_le_nat_alt unat_sub)
    then have sum: "unat (blk_used b) + unat cnt \<le> unat (blk_cnt b)" using ok(1) by simp
    have used: "unat (blk_used b + cnt) = unat (blk_used b) + unat cnt"
      using sum ok(2) by (simp add: unat_word_ariths)
    have sect: "unat (blk_sector b + blk_used b) = unat (blk_sector b) + unat (blk_used b)"
      using ok by (simp add: unat_word_ariths)
    have locs: "region_locs ?r \<subseteq> blk_free b" "blk_free ?b \<subseteq> blk_free b - region_locs ?r"
      using sum by (auto simp: region_locs_def blk_free_def used sect)
    have "blk_ok ?b" using sum ok(2) by (simp add: blk_ok_def used)
    moreover have "free_disjoint (?b # bs)" using "2.prems"(3) locs(2) by auto
    moreover have "(\<Union>x\<in>set bs. blk_free x) \<inter> region_locs ?r = {}" using "2.prems"(3) locs(1) by auto
    moreover have "region_locs ?r \<subseteq> (\<Union>x\<in>set (b # bs). blk_free x)" using locs(1) by fastforce
    moreover have "(\<Union>x\<in>set (?b # bs). blk_free x) \<subseteq> (\<Union>x\<in>set (b # bs). blk_free x) - region_locs ?r"
      using locs(2) calculation(3) by fastforce
    moreover have "found = Some ?r \<and> bs' = ?b # bs" using "2.prems"(1) True by (simp add: Let_def)
    ultimately show ?thesis using "2.prems"(2) by simp
  next
    case False
    then have "new_region_loop bs (fill @ [b]) (n + (blk_cnt b - blk_used b)) cnt = (found, bs', fill', n')"
      using "2.prems"(1) by (simp add: Let_def)
    from "2.IH" [OF refl False this] "2.prems"(2,3) show ?thesis
      by (auto split: option.splits)
  qed
qed auto

text \<open>When it finds nothing: no block has enough space left.\<close>

lemma new_region_loop_None:
  "fst (new_region_loop bs fill n cnt) = None \<longleftrightarrow> (\<forall>b\<in>set bs. blk_cnt b - blk_used b < cnt)"
  by (induction bs fill n cnt rule: new_region_loop.induct) (auto simp: Let_def not_le)

section \<open>The interface: regions never overlap\<close>

text \<open>A storage that grows by sets of locations and from which regions are cut.  One step is an
  extension or an allocation; \<open>grow\<close> is what it adds, and its result is the region it returns.\<close>

locale region_allocator =
  fixes step :: "'s \<Rightarrow> 'op \<Rightarrow> 'r option \<times> 's"
    and grow :: "'op \<Rightarrow> 'l set"
    and legal :: "'op \<Rightarrow> bool"
    and avail :: "'s \<Rightarrow> 'l set"
    and locs :: "'r \<Rightarrow> 'l set"
    and inv :: "'s \<Rightarrow> bool"
  assumes inv_step: "inv s \<Longrightarrow> legal op \<Longrightarrow> grow op \<inter> avail s = {} \<Longrightarrow> inv (snd (step s op))"
    and avail_step: "inv s \<Longrightarrow> legal op \<Longrightarrow> grow op \<inter> avail s = {} \<Longrightarrow>
          avail (snd (step s op)) \<subseteq> avail s \<union> grow op"
    and region_step: "inv s \<Longrightarrow> legal op \<Longrightarrow> grow op \<inter> avail s = {} \<Longrightarrow> fst (step s op) = Some r \<Longrightarrow>
          locs r \<subseteq> avail s \<union> grow op \<and> avail (snd (step s op)) \<inter> locs r = {}"
begin

fun run :: "'s \<Rightarrow> 'op list \<Rightarrow> 'r list \<times> 's" where
  "run s [] = ([], s)"
| "run s (op # ops) =
     (case run (snd (step s op)) ops of
        (rs, s') \<Rightarrow> ((case fst (step s op) of None \<Rightarrow> rs | Some r \<Rightarrow> r # rs), s'))"

fun fresh_ops :: "'l set \<Rightarrow> 'op list \<Rightarrow> bool" where
  "fresh_ops used [] = True"
| "fresh_ops used (op # ops) = (legal op \<and> grow op \<inter> used = {} \<and> fresh_ops (used \<union> grow op) ops)"

fun all_disjoint :: "'r list \<Rightarrow> bool" where
  "all_disjoint [] = True"
| "all_disjoint (r # rs) = ((\<forall>r'\<in>set rs. locs r \<inter> locs r' = {}) \<and> all_disjoint rs)"

lemma run_regions:
  assumes "inv s" "avail s \<subseteq> used" "fresh_ops used ops"
  shows "all_disjoint (fst (run s ops)) \<and> inv (snd (run s ops)) \<and>
    (\<forall>r\<in>set (fst (run s ops)). locs r \<subseteq> avail s \<union> (\<Union>op\<in>set ops. grow op) \<and>
        locs r \<inter> used \<subseteq> avail s)"
  using assms
proof (induction ops arbitrary: s used)
  case (Cons op ops)
  let ?s = "snd (step s op)" and ?u = "used \<union> grow op"
  have op: "legal op" "grow op \<inter> avail s = {}" using Cons.prems by auto
  note inv = inv_step [OF Cons.prems(1) op] and av = avail_step [OF Cons.prems(1) op]
  obtain rs s' where rs: "run ?s ops = (rs, s')" by fastforce
  have "avail ?s \<subseteq> ?u" "fresh_ops ?u ops" using av Cons.prems by auto
  from Cons.IH [OF inv this] have IH: "all_disjoint rs" "inv s'"
    "\<And>r. r \<in> set rs \<Longrightarrow> locs r \<subseteq> avail ?s \<union> (\<Union>op\<in>set ops. grow op) \<and> locs r \<inter> ?u \<subseteq> avail ?s"
    by (simp_all add: rs)
  have rest: "locs r \<subseteq> avail s \<union> (\<Union>op\<in>set (op # ops). grow op) \<and> locs r \<inter> used \<subseteq> avail s"
    if "r \<in> set rs" for r
    using IH(3) [OF that] av Cons.prems(2,3) by auto
  show ?case
  proof (cases "fst (step s op)")
    case None
    with rs IH rest show ?thesis by auto
  next
    case (Some r)
    note reg = region_step [OF Cons.prems(1) op Some]
    have "locs r \<inter> locs r' = {}" if "r' \<in> set rs" for r'
      using IH(3) [OF that] reg Cons.prems(2) by blast
    moreover have "locs r \<inter> used \<subseteq> avail s" using reg Cons.prems(3) by auto
    ultimately show ?thesis using rs IH rest Some reg by auto
  qed
qed simp

end

section \<open>The storage provides the interface\<close>

datatype ds_op =
    AllocRegion sector_t bool event_answers
  | AddRange bdev sector_t sector_t bool

fun ds_step :: "u32 \<Rightarrow> diff_storage \<Rightarrow> ds_op \<Rightarrow> diff_region option \<times> diff_storage" where
  "ds_step dmin ds (AllocRegion cnt kzalloc_ok ev) =
     (case diff_storage_new_region dmin kzalloc_ok ev ds cnt of
        Ok (Inr r, ds') \<Rightarrow> (Some r, ds')
      | Ok (Inl _, ds') \<Rightarrow> (None, ds')
      | Fault \<Rightarrow> (None, ds))"
| "ds_step dmin ds (AddRange bdev sector cnt kzalloc_ok) =
     (None, snd (diff_storage_add_range ds bdev sector cnt kzalloc_ok))"

definition range_locs :: "bdev \<times> sector_t \<times> sector_t \<Rightarrow> (bdev \<times> nat) set" where
  "range_locs rng = (case rng of (bdev, sector, cnt) \<Rightarrow> {bdev} \<times> {unat sector ..< unat sector + unat cnt})"

fun ds_grow :: "ds_op \<Rightarrow> (bdev \<times> nat) set" where
  "ds_grow (AllocRegion _ _ _) = {}"
| "ds_grow (AddRange bdev sector cnt _) = range_locs (bdev, sector, cnt)"

fun ds_legal :: "ds_op \<Rightarrow> bool" where
  "ds_legal (AllocRegion _ _ _) = True"
| "ds_legal (AddRange _ sector cnt _) = (unat sector + unat cnt < 2 ^ 64)"

text \<open>What follows a successful allocation: the test for half of the minimum, and the event.\<close>

definition low_space_check :: "u32 \<Rightarrow> event_answers \<Rightarrow> diff_storage \<Rightarrow> diff_storage" where
  "low_space_check dmin ev ds =
     (if is_halffull dmin (requested ds - filled ds)
      then if low_space_flag ds = 0
           then ds\<lparr>low_space_flag := 1, requested := requested ds + scast dmin,
                   ds_event_queue := (if fst ev
                     then event_add_tail (low_space_event dmin (snd ev)) (ds_event_queue ds)
                     else ds_event_queue ds)\<rparr>
           else ds\<lparr>low_space_flag := low_space_flag ds + 1\<rparr>
      else ds)"

lemma low_space_check_fields [simp]:
  "empty_blocks (low_space_check dmin ev ds) = empty_blocks ds"
  "filled_blocks (low_space_check dmin ev ds) = filled_blocks ds"
  "filled (low_space_check dmin ev ds) = filled ds"
  "capacity (low_space_check dmin ev ds) = capacity ds"
  "overflow_flag (low_space_check dmin ev ds) = overflow_flag ds"
  "storage_bdevs (low_space_check dmin ev ds) = storage_bdevs ds"
  "ds_kref (low_space_check dmin ev ds) = ds_kref ds"
  by (simp_all add: low_space_check_def)

lemma new_region_cases:
  obtains (refused) e where "diff_storage_new_region dmin kz ev ds cnt = Ok (Inl e, ds)"
      "overflow_flag ds \<noteq> 0 \<and> e = ENOSPC \<or> overflow_flag ds = 0 \<and> \<not> kz \<and> e = ENOMEM"
  | (full) emp fill n where "overflow_flag ds = 0" "kz"
      "new_region_loop (empty_blocks ds) (filled_blocks ds) (filled ds) cnt = (None, emp, fill, n)"
      "diff_storage_new_region dmin kz ev ds cnt = Ok (Inl ENOSPC,
         ds\<lparr>empty_blocks := emp, filled_blocks := fill, filled := n, overflow_flag := 1\<rparr>)"
  | (found) r emp fill n where "overflow_flag ds = 0" "kz"
      "new_region_loop (empty_blocks ds) (filled_blocks ds) (filled ds) cnt = (Some r, emp, fill, n)"
      "diff_storage_new_region dmin kz ev ds cnt = Ok (Inr r,
         low_space_check dmin ev (ds\<lparr>empty_blocks := emp, filled_blocks := fill, filled := n\<rparr>))"
proof -
  consider "overflow_flag ds \<noteq> 0" | "overflow_flag ds = 0" "\<not> kz" | "overflow_flag ds = 0" "kz" by blast
  then show thesis
  proof cases
    case 3
    obtain f emp fill n where l:
      "new_region_loop (empty_blocks ds) (filled_blocks ds) (filled ds) cnt = (f, emp, fill, n)"
      by (metis prod.exhaust_sel)
    show ?thesis
    proof (cases f)
      case None
      with 3 l full show ?thesis by (simp add: diff_storage_new_region_def Let_def)
    next
      case (Some r)
      have inc: "x + 1 = 1 \<longleftrightarrow> x = 0" for x :: u32 by simp
      have "diff_storage_new_region dmin kz ev ds cnt = Ok (Inr r,
         low_space_check dmin ev (ds\<lparr>empty_blocks := emp, filled_blocks := fill, filled := n\<rparr>))"
        using 3 l Some
        by (simp add: diff_storage_new_region_def diff_storage_event_low_eq low_space_check_def Let_def inc)
      with 3 l Some found show ?thesis by blast
    qed
  qed (use refused in \<open>simp_all add: diff_storage_new_region_def\<close>)
qed

lemma add_range_eq:
  "diff_storage_add_range ds bdev sector cnt kz =
     (if kz then (None, ds\<lparr>empty_blocks := empty_blocks ds @
                 [\<lparr>blk_bdev = bdev, blk_sector = sector, blk_cnt = cnt, blk_used = 0\<rparr>],
               capacity := capacity ds + cnt\<rparr>) else (Some ENOMEM, ds))"
  by (simp add: diff_storage_add_range_def)

lemma ds_step_region:
  assumes "ds_wf ds" "ds_legal op" "ds_grow op \<inter> ds_avail ds = {}"
  shows "ds_wf (snd (ds_step dmin ds op)) \<and>
    ds_avail (snd (ds_step dmin ds op)) \<subseteq> ds_avail ds \<union> ds_grow op \<and>
    (\<forall>r. fst (ds_step dmin ds op) = Some r \<longrightarrow>
       region_locs r \<subseteq> ds_avail ds \<and> ds_avail (snd (ds_step dmin ds op)) \<inter> region_locs r = {})"
proof (cases op)
  case (AllocRegion cnt kz ev)
  show ?thesis
  proof (cases rule: new_region_cases [of dmin kz ev ds cnt])
    case (full emp fill n)
    with new_region_loop_free [OF full(3)] assms(1) AllocRegion show ?thesis
      by (simp add: ds_wf_def ds_avail_def)
  next
    case (found r emp fill n)
    with new_region_loop_free [OF found(3)] assms(1) AllocRegion show ?thesis
      by (auto simp: ds_wf_def ds_avail_def)
  qed (use assms(1) AllocRegion in simp)
next
  case (AddRange bdev sector cnt kz)
  let ?b = "\<lparr>blk_bdev = bdev, blk_sector = sector, blk_cnt = cnt, blk_used = 0\<rparr>"
  have "blk_free ?b = ds_grow op" by (simp add: blk_free_def range_locs_def AddRange)
  moreover have "blk_ok ?b" using assms(2) by (simp add: blk_ok_def AddRange)
  ultimately show ?thesis
    using assms AddRange
    by (auto simp: add_range_eq ds_wf_def ds_avail_def free_disjoint_snoc)
qed

interpretation dsa: region_allocator "ds_step dmin" ds_grow ds_legal ds_avail region_locs ds_wf for dmin
  by unfold_locales (use ds_step_region in blast)+

section \<open>Histories of a storage\<close>

fun ds_run :: "u32 \<Rightarrow> diff_storage \<Rightarrow> ds_op list \<Rightarrow> diff_region list \<times> diff_storage" where
  "ds_run dmin ds [] = ([], ds)"
| "ds_run dmin ds (op # ops) =
     (case ds_step dmin ds op of (res, ds1) \<Rightarrow>
      case ds_run dmin ds1 ops of (rs, ds2) \<Rightarrow>
        ((case res of None \<Rightarrow> rs | Some r \<Rightarrow> r # rs), ds2))"

fun added_ranges :: "ds_op list \<Rightarrow> (bdev \<times> sector_t \<times> sector_t) list" where
  "added_ranges [] = []"
| "added_ranges (AllocRegion _ _ _ # ops) = added_ranges ops"
| "added_ranges (AddRange bdev sector cnt _ # ops) = (bdev, sector, cnt) # added_ranges ops"

lemma ds_run_eq: "ds_run dmin ds ops = dsa.run dmin ds ops"
  by (induction dmin ds ops rule: ds_run.induct) (auto split: prod.split)

lemma fresh_ops_iff:
  "dsa.fresh_ops used ops \<longleftrightarrow>
     list_all ds_legal ops \<and> pairwise_disjoint range_locs (added_ranges ops) \<and>
     (\<forall>rng\<in>set (added_ranges ops). range_locs rng \<inter> used = {})"
  by (induction ops arbitrary: used rule: added_ranges.induct)
     (auto simp: pairwise_disjoint_Cons Int_Un_distrib Int_commute)

lemma grow_added: "(\<Union>op\<in>set ops. ds_grow op) = (\<Union>rng\<in>set (added_ranges ops). range_locs rng)"
  by (induction ops rule: added_ranges.induct) auto

lemma all_disjoint_iff: "dsa.all_disjoint rs \<longleftrightarrow> pairwise_disjoint region_locs rs"
  by (induction rs) (simp_all add: pairwise_disjoint_Cons)

text \<open>C24: the regions handed out by a difference storage never overlap, and each lies in a range the
  user gave, whatever the order of extensions and allocations and whichever of them fail, provided
  the user's ranges do not overlap each other.\<close>

theorem storage_regions_disjoint:
  assumes "empty_blocks ds = []" "list_all ds_legal ops"
    and "pairwise_disjoint range_locs (added_ranges ops)"
  shows "pairwise_disjoint region_locs (fst (ds_run dmin ds ops)) \<and>
    (\<forall>r\<in>set (fst (ds_run dmin ds ops)).
       region_locs r \<subseteq> (\<Union>rng\<in>set (added_ranges ops). range_locs rng))"
proof -
  have "ds_wf ds" "ds_avail ds = {}" using assms(1) by (simp_all add: ds_wf_def ds_avail_def)
  moreover have "dsa.fresh_ops {} ops" using assms(2,3) by (simp add: fresh_ops_iff)
  ultimately show ?thesis
    using dsa.run_regions [of ds "{}" ops dmin]
    by (simp add: ds_run_eq all_disjoint_iff grow_added)
qed

theorem storage_regions_disjoint_witness:
  "pairwise_disjoint region_locs (fst (ds_run 2097152 diff_storage_zero
     [AddRange 1 0 16 True, AllocRegion 8 True (True, 0), AddRange 1 16 32 True, AllocRegion 16 True (True, 0)]))"
proof -
  let ?ops = "[AddRange 1 0 16 True, AllocRegion 8 True (True, 0), AddRange 1 16 32 True,
               AllocRegion 16 True (True, 0)]"
  have "empty_blocks diff_storage_zero = []" "list_all ds_legal ?ops"
    "pairwise_disjoint range_locs (added_ranges ?ops)"
    by (auto simp: diff_storage_zero_def pairwise_disjoint_Cons range_locs_def)
  from storage_regions_disjoint [OF this, of 2097152] show ?thesis by blast
qed

section \<open>Accounting\<close>

definition ds_blocks :: "diff_storage \<Rightarrow> storage_block list" where
  "ds_blocks ds = filled_blocks ds @ empty_blocks ds"

definition ds_acct :: "diff_storage \<Rightarrow> bool" where
  "ds_acct ds \<longleftrightarrow>
     unat (capacity ds) = (\<Sum>b\<leftarrow>ds_blocks ds. unat (blk_cnt b)) \<and>
     unat (filled ds) = (\<Sum>b\<leftarrow>filled_blocks ds. unat (blk_cnt b)) + (\<Sum>b\<leftarrow>empty_blocks ds. unat (blk_used b))"

lemma new_region_loop_acct:
  assumes "new_region_loop bs fill n cnt = (found, bs', fill', n')" "\<forall>b\<in>set bs. blk_ok b"
    and "unat n = (\<Sum>b\<leftarrow>fill. unat (blk_cnt b)) + (\<Sum>b\<leftarrow>bs. unat (blk_used b))"
    and "(\<Sum>b\<leftarrow>fill @ bs. unat (blk_cnt b)) < 2 ^ 64"
  shows "unat n' = (\<Sum>b\<leftarrow>fill'. unat (blk_cnt b)) + (\<Sum>b\<leftarrow>bs'. unat (blk_used b)) \<and>
    (\<Sum>b\<leftarrow>fill' @ bs'. unat (blk_cnt b)) = (\<Sum>b\<leftarrow>fill @ bs. unat (blk_cnt b))"
  using assms
proof (induction bs fill n cnt rule: new_region_loop.induct)
  case (2 b bs fill n cnt)
  have used: "unat (blk_used b) \<le> unat (blk_cnt b)" using "2.prems"(2) by (simp add: blk_ok_def)
  have "(\<Sum>b\<leftarrow>bs. unat (blk_used b)) \<le> (\<Sum>b\<leftarrow>bs. unat (blk_cnt b))"
    using "2.prems"(2) by (intro sum_list_mono) (simp add: blk_ok_def)
  with "2.prems"(3,4) have bound: "unat n + (unat (blk_cnt b) - unat (blk_used b)) < 2 ^ 64"
    using used by simp
  have avail: "unat (blk_cnt b - blk_used b) = unat (blk_cnt b) - unat (blk_used b)"
    using used by (simp add: unat_sub word_le_nat_alt)
  show ?case
  proof (cases "cnt \<le> blk_cnt b - blk_used b")
    case True
    then have "unat cnt \<le> unat (blk_cnt b) - unat (blk_used b)" by (simp add: word_le_nat_alt avail)
    with bound used unsigned_less [of "blk_cnt b", where ?'a = nat]
    have "unat (n + cnt) = unat n + unat cnt" "unat (blk_used b + cnt) = unat (blk_used b) + unat cnt"
      by (simp_all add: unat_word_ariths)
    with "2.prems"(1,3) True show ?thesis by (auto simp: Let_def)
  next
    case False
    have "unat (n + (blk_cnt b - blk_used b)) = unat n + (unat (blk_cnt b) - unat (blk_used b))"
      using bound by (simp add: unat_word_ariths avail)
    then have eq: "unat (n + (blk_cnt b - blk_used b)) =
        (\<Sum>b\<leftarrow>fill @ [b]. unat (blk_cnt b)) + (\<Sum>b\<leftarrow>bs. unat (blk_used b))"
      using "2.prems"(3) used by simp
    have "new_region_loop bs (fill @ [b]) (n + (blk_cnt b - blk_used b)) cnt = (found, bs', fill', n')"
      using "2.prems"(1) False by (simp add: Let_def)
    from "2.IH" [OF refl False this _ eq] "2.prems"(2,4) show ?thesis by simp
  qed
qed auto

lemma ds_step_acct:
  assumes "ds_wf ds" "ds_acct ds"
    and "unat (capacity ds) + (\<Sum>(_, _, cnt)\<leftarrow>added_ranges [op]. unat cnt) < 2 ^ 64"
  shows "ds_acct (snd (ds_step dmin ds op)) \<and>
    unat (capacity (snd (ds_step dmin ds op))) \<le>
      unat (capacity ds) + (\<Sum>(_, _, cnt)\<leftarrow>added_ranges [op]. unat cnt)"
proof (cases op)
  case (AllocRegion cnt kz ev)
  have pre: "\<forall>b\<in>set (empty_blocks ds). blk_ok b"
    "unat (filled ds) = (\<Sum>b\<leftarrow>filled_blocks ds. unat (blk_cnt b)) + (\<Sum>b\<leftarrow>empty_blocks ds. unat (blk_used b))"
    "(\<Sum>b\<leftarrow>filled_blocks ds @ empty_blocks ds. unat (blk_cnt b)) < 2 ^ 64"
    using assms(1,2) unsigned_less [of "capacity ds", where ?'a = nat]
    by (simp_all add: ds_wf_def ds_acct_def ds_blocks_def)
  show ?thesis
  proof (cases rule: new_region_cases [of dmin kz ev ds cnt])
    case (full emp fill n)
    with new_region_loop_acct [OF full(3) pre] assms(2) AllocRegion show ?thesis
      by (simp add: ds_acct_def ds_blocks_def)
  next
    case (found r emp fill n)
    with new_region_loop_acct [OF found(3) pre] assms(2) AllocRegion show ?thesis
      by (simp add: ds_acct_def ds_blocks_def)
  qed (use assms(2) AllocRegion in simp)
next
  case (AddRange bdev sector cnt kz)
  with assms(3) have "unat (capacity ds + cnt) = unat (capacity ds) + unat cnt"
    by (simp add: unat_word_ariths)
  with assms(2) AddRange show ?thesis
    by (auto simp: add_range_eq ds_acct_def ds_blocks_def)
qed

lemma added_ranges_Cons: "added_ranges (op # ops) = added_ranges [op] @ added_ranges ops"
  by (cases op) simp_all

lemma ds_run_acct:
  assumes "ds_wf ds" "ds_acct ds" "dsa.fresh_ops used ops" "ds_avail ds \<subseteq> used"
    and "unat (capacity ds) + (\<Sum>(_, _, cnt)\<leftarrow>added_ranges ops. unat cnt) < 2 ^ 64"
  shows "ds_wf (snd (ds_run dmin ds ops)) \<and> ds_acct (snd (ds_run dmin ds ops))"
  using assms
proof (induction ops arbitrary: ds used)
  case (Cons op ops)
  let ?ds = "snd (ds_step dmin ds op)"
  have op: "ds_legal op" "ds_grow op \<inter> ds_avail ds = {}" using Cons.prems(3,4) by auto
  note st = ds_step_region [OF Cons.prems(1) op, of dmin]
  have "unat (capacity ds) + (\<Sum>(_, _, cnt)\<leftarrow>added_ranges [op]. unat cnt) < 2 ^ 64"
    using Cons.prems(5) added_ranges_Cons [of op ops] by simp
  note ac = ds_step_acct [OF Cons.prems(1,2) this, of dmin]
  have "ds_wf (snd (ds_run dmin ?ds ops)) \<and> ds_acct (snd (ds_run dmin ?ds ops))"
  proof (rule Cons.IH)
    show "dsa.fresh_ops (used \<union> ds_grow op) ops" using Cons.prems(3) by simp
    show "ds_avail ?ds \<subseteq> used \<union> ds_grow op" using st Cons.prems(4) by blast
    show "unat (capacity ?ds) + (\<Sum>(_, _, cnt)\<leftarrow>added_ranges ops. unat cnt) < 2 ^ 64"
      using ac Cons.prems(5) added_ranges_Cons [of op ops] by simp
  qed (use st ac in blast)+
  then show ?case by (auto split: prod.splits)
qed simp



lemma append_block_overflow:
  "overflow_flag (snd (append_block_loop ds bdev ranges)) = overflow_flag ds"
  by (induction ds bdev ranges rule: append_block_loop.induct)
     (auto simp: diff_storage_add_range_def)

lemma append_block_keeps_overflow [simp]:
  "overflow_flag (snd (diff_storage_append_block ds dev_id opened kz ranges)) = overflow_flag ds"
proof -
  have "overflow_flag (snd (diff_storage_add_storage_bdev ds dev_id opened kz)) = overflow_flag ds"
    by (simp add: diff_storage_add_storage_bdev_def split: sum.split)
  then show ?thesis
    unfolding diff_storage_append_block_def
    by (auto split: prod.splits option.splits sum.splits)
       (metis append_block_overflow snd_conv)+
qed

text \<open>C26: when an allocation fails for lack of space, no block has enough sectors left, and from then
  on every allocation fails, also after the user has added any number of ranges.\<close>

theorem storage_overflow_is_permanent:
  assumes "overflow_flag ds = 0" "diff_storage_new_region dmin True ev ds cnt = Ok (Inl e, ds')"
  shows "e = ENOSPC \<and> (\<forall>b\<in>set (empty_blocks ds). blk_cnt b - blk_used b < cnt) \<and>
    (\<forall>dev_id opened kz ranges kz' ev' cnt'.
       let ds'' = snd (diff_storage_append_block ds' dev_id opened kz ranges)
       in diff_storage_new_region dmin kz' ev' ds'' cnt' = Ok (Inl ENOSPC, ds''))"
proof (cases rule: new_region_cases [of dmin True ev ds cnt])
  case (full emp fill n)
  then show ?thesis
    using assms(2) new_region_loop_None [of "empty_blocks ds" "filled_blocks ds" "filled ds" cnt]
    by (auto simp: diff_storage_new_region_def [of _ _ _ "snd _"] Let_def)
qed (use assms in simp_all)

theorem storage_overflow_is_permanent_witness:
  "\<exists>e ds'. diff_storage_new_region 2097152 True (True, 0) diff_storage_zero 8 = Ok (Inl e, ds') \<and> e = ENOSPC"
proof -
  have "overflow_flag diff_storage_zero = 0"
    "diff_storage_new_region 2097152 True (True, 0) diff_storage_zero 8 =
       Ok (Inl ENOSPC, diff_storage_zero\<lparr>overflow_flag := 1\<rparr>)"
    by (simp_all add: diff_storage_zero_def diff_storage_new_region_def Let_def)
  from storage_overflow_is_permanent [OF this] this show ?thesis by blast
qed

lemma is_halffull_default: "is_halffull 2097152 n \<longleftrightarrow> unat n \<le> 1048576"
proof -
  have "(scast (signed_drop_bit 1 (2097152::u32) AND NOT (8 - 1)) :: u64) = 1048576" by code_simp
  then show ?thesis by (simp add: is_halffull_def word_le_nat_alt)
qed



end
