(* ===== verification/Diff_Buffer.thy ===== *)
theory Diff_Buffer
  imports Blk_Prelude
begin

text \<open>
  Difference buffers, \<^verbatim>\<open>module/diff_buffer.c\<close> and \<^verbatim>\<open>module/diff_buffer.h\<close>: the memory of a chunk as an
  array of page pointers, and the pool of free buffers of a difference area.  A page is a function
  from offsets to bytes, a NULL pointer is \<open>None\<close>; the array has one slot more than the buffer has
  pages, which stays NULL.  The answers of \<^verbatim>\<open>kzalloc\<close> and \<^verbatim>\<open>alloc_page\<close> (with the content of the page
  it returns) are arguments, as is the module parameter \<^verbatim>\<open>free_diff_buffer_pool_size\<close>.

  The lemmas show that a buffer is complete or not there at all (no page is lost when an allocation
  fails half way), the bounds of the iterator, and that the counter of the pool is the length of its
  list; the pool provides the interface \<open>fifo\<close>.
\<close>

section \<open>Data and operations\<close>

type_synonym page = "nat \<Rightarrow> u8"

record diff_buffer =
  buf_size :: nat
  page_count :: nat
  pages :: "page option list"

record buffer_pool =
  free_diff_buffers :: "diff_buffer list"
  free_diff_buffers_count :: int

record diff_buffer_iter =
  iter_page :: nat
  iter_offset :: nat
  iter_bytes :: nat

text \<open>\<^verbatim>\<open>diff_buffer_free\<close>: the number of pages given back.\<close>

definition diff_buffer_free :: "diff_buffer option \<Rightarrow> nat" where
  "diff_buffer_free p =
     (case p of
        None \<Rightarrow> 0
      | Some b \<Rightarrow> length (filter (\<lambda>s. s \<noteq> None) (take (page_count b) (pages b))))"

fun alloc_pages_loop ::
  "(nat \<Rightarrow> page option) \<Rightarrow> nat \<Rightarrow> nat \<Rightarrow> page option list \<Rightarrow> bool \<times> page option list" where
  "alloc_pages_loop alloc_page inx 0 slots = (True, slots)"
| "alloc_pages_loop alloc_page inx (Suc n) slots =
     (case alloc_page inx of
        None \<Rightarrow> (False, slots)
      | Some page \<Rightarrow> alloc_pages_loop alloc_page (Suc inx) n (slots[inx := Some page]))"

text \<open>The buffer or NULL, with the number of pages that stay allocated.\<close>

definition diff_buffer_new ::
  "nat \<Rightarrow> nat \<Rightarrow> bool \<Rightarrow> (nat \<Rightarrow> page option) \<Rightarrow> diff_buffer option \<times> nat" where
  "diff_buffer_new n buffer_size kzalloc_ok alloc_page =
     (if n \<le> 0 then (None, 0)
      else if \<not> kzalloc_ok then (None, 0)
      else case alloc_pages_loop alloc_page 0 n (replicate (n + 1) None) of
        (done, slots) \<Rightarrow>
          let b = \<lparr>buf_size = buffer_size, page_count = n, pages = slots\<rparr>;
              taken = length (filter (\<lambda>s. s \<noteq> None) slots)
          in if done then (Some b, taken) else (None, taken - diff_buffer_free (Some b)))"

definition pool_pop :: "'a buffer_pool_scheme \<Rightarrow> diff_buffer option \<times> 'a buffer_pool_scheme" where
  "pool_pop pool =
     (case free_diff_buffers pool of
        [] \<Rightarrow> (None, pool)
      | b # bs \<Rightarrow> (Some b, pool\<lparr>free_diff_buffers := bs,
                               free_diff_buffers_count := free_diff_buffers_count pool - 1\<rparr>))"

definition pool_push :: "diff_buffer \<Rightarrow> 'a buffer_pool_scheme \<Rightarrow> 'a buffer_pool_scheme" where
  "pool_push b pool =
     pool\<lparr>free_diff_buffers := free_diff_buffers pool @ [b],
          free_diff_buffers_count := free_diff_buffers_count pool + 1\<rparr>"

definition diff_buffer_take ::
  "'a buffer_pool_scheme \<Rightarrow> nat \<Rightarrow> bool \<Rightarrow> bool \<Rightarrow> (nat \<Rightarrow> page option) \<Rightarrow>
     diff_buffer result \<times> 'a buffer_pool_scheme" where
  "diff_buffer_take pool chunk_sectors is_nowait kzalloc_ok alloc_page =
     (case pool_pop pool of
        (Some b, pool') \<Rightarrow> (Inr b, pool')
      | (None, pool') \<Rightarrow>
          (case fst (diff_buffer_new (ceil_div chunk_sectors PAGE_SECTORS)
                       (chunk_sectors * SECTOR_SIZE) kzalloc_ok alloc_page) of
             None \<Rightarrow> (Inl (if is_nowait then EAGAIN else ENOMEM), pool')
           | Some b \<Rightarrow> (Inr b, pool')))"

text \<open>\<open>True\<close> when the buffer was freed and not put into the pool.\<close>

definition diff_buffer_release ::
  "int \<Rightarrow> 'a buffer_pool_scheme \<Rightarrow> diff_buffer \<Rightarrow> bool \<times> 'a buffer_pool_scheme" where
  "diff_buffer_release pool_size pool b =
     (if free_diff_buffers_count pool > pool_size then (True, pool)
      else (False, pool_push b pool))"

function diff_buffer_cleanup :: "'a buffer_pool_scheme \<Rightarrow> nat \<Rightarrow> 'a buffer_pool_scheme \<times> nat" where
  "diff_buffer_cleanup pool freed =
     (case pool_pop pool of
        (Some b, pool') \<Rightarrow> diff_buffer_cleanup pool' (freed + diff_buffer_free (Some b))
      | (None, pool') \<Rightarrow> (pool', freed))"
  by pat_completeness auto
termination
  by (relation "measure (\<lambda>(pool, _). length (free_diff_buffers pool))")
     (auto simp: pool_pop_def split: list.splits)

declare diff_buffer_cleanup.simps [simp del]

definition diff_buffer_iter_get :: "diff_buffer \<Rightarrow> nat \<Rightarrow> diff_buffer_iter option" where
  "diff_buffer_iter_get b buff_offset =
     (if buf_size b \<le> buff_offset then None
      else let offset = buff_offset mod PAGE_SIZE
           in Some \<lparr>iter_page = buff_offset div PAGE_SIZE, iter_offset = offset,
                    iter_bytes = min (PAGE_SIZE - offset) (buf_size b - buff_offset)\<rparr>)"

section \<open>Well-formed buffers\<close>

definition buffer_ok :: "diff_buffer \<Rightarrow> bool" where
  "buffer_ok b \<longleftrightarrow>
     length (pages b) = page_count b + 1 \<and> (\<forall>i<page_count b. pages b ! i \<noteq> None) \<and>
     buf_size b \<le> page_count b * PAGE_SIZE"

text \<open>The byte at an offset of the buffer.\<close>

definition buf_byte :: "diff_buffer \<Rightarrow> nat \<Rightarrow> u8" where
  "buf_byte b k = (case pages b ! (k div PAGE_SIZE) of Some p \<Rightarrow> p (k mod PAGE_SIZE) | None \<Rightarrow> 0)"

lemma alloc_pages_loop_spec:
  assumes "inx + n < length slots" "\<forall>i<inx. slots ! i \<noteq> None" "\<forall>i\<ge>inx. i < length slots \<longrightarrow> slots ! i = None"
    and "alloc_pages_loop alloc inx n slots = (done, slots')"
  shows "length slots' = length slots \<and> (done \<longrightarrow> (\<forall>i<inx + n. slots' ! i \<noteq> None)) \<and>
    (\<forall>i\<ge>inx + n. i < length slots \<longrightarrow> slots' ! i = None)"
  using assms
proof (induction n arbitrary: inx slots)
  case (Suc n)
  show ?case
  proof (cases "alloc inx")
    case None
    with Suc.prems show ?thesis by auto
  next
    case (Some p)
    have "length slots' = length (slots[inx := Some p]) \<and> (done \<longrightarrow> (\<forall>i<Suc inx + n. slots' ! i \<noteq> None)) \<and>
      (\<forall>i\<ge>Suc inx + n. i < length (slots[inx := Some p]) \<longrightarrow> slots' ! i = None)"
    proof (rule Suc.IH)
      show "\<forall>i<Suc inx. slots[inx := Some p] ! i \<noteq> None"
        using Suc.prems(1,2) by (auto simp: nth_list_update less_Suc_eq)
      show "\<forall>i\<ge>Suc inx. i < length (slots[inx := Some p]) \<longrightarrow> slots[inx := Some p] ! i = None"
        using Suc.prems(3) by (auto simp: nth_list_update)
    qed (use Suc.prems Some in simp_all)
    then show ?thesis by simp
  qed
qed auto

lemma length_filter_take:
  assumes "\<forall>i\<ge>n. i < length xs \<longrightarrow> \<not> P (xs ! i)"
  shows "length (filter P (take n xs)) = length (filter P xs)"
proof -
  have "filter P (drop n xs) = []"
    using assms by (auto simp: filter_empty_conv in_set_conv_nth)
  then show ?thesis
    by (metis append_Nil2 append_take_drop_id filter_append)
qed

lemma diff_buffer_new_ok:
  assumes "diff_buffer_new n sz kz alloc = (Some b, k)" "sz \<le> n * PAGE_SIZE"
  shows "buffer_ok b \<and> buf_size b = sz \<and> page_count b = n \<and> k = diff_buffer_free (Some b)"
proof -
  obtain dn slots where l: "alloc_pages_loop alloc 0 n (replicate (n + 1) None) = (dn, slots)" by fastforce
  then have r: "dn" "b = \<lparr>buf_size = sz, page_count = n, pages = slots\<rparr>"
    "k = length (filter (\<lambda>s. s \<noteq> None) slots)"
    using assms(1) by (auto simp: diff_buffer_new_def Let_def split: if_splits)
  have s: "length slots = n + 1" "\<forall>i<n. slots ! i \<noteq> None" "\<forall>i\<ge>n. i < length slots \<longrightarrow> slots ! i = None"
    using alloc_pages_loop_spec [OF _ _ _ l] r(1) by (auto simp del: replicate_Suc)
  have "length (filter (\<lambda>s. s \<noteq> None) (take n slots)) = length (filter (\<lambda>s. s \<noteq> None) slots)"
    by (rule length_filter_take) (use s(3) in simp)
  with r s(1,2) assms(2) show ?thesis by (simp add: buffer_ok_def diff_buffer_free_def)
qed

lemma diff_buffer_new_fails_clean:
  assumes "diff_buffer_new n sz kz alloc = (None, k)"
  shows "k = 0"
proof (cases "0 < n \<and> kz")
  case True
  obtain dn slots where l: "alloc_pages_loop alloc 0 n (replicate (n + 1) None) = (dn, slots)" by fastforce
  then have "\<forall>i\<ge>n. i < length slots \<longrightarrow> slots ! i = None"
    using alloc_pages_loop_spec [OF _ _ _ l] by (auto simp del: replicate_Suc)
  then have "length (filter (\<lambda>s. s \<noteq> None) (take n slots)) = length (filter (\<lambda>s. s \<noteq> None) slots)"
    by (intro length_filter_take) simp
  with l True assms show ?thesis
    by (auto simp: diff_buffer_new_def Let_def diff_buffer_free_def split: if_splits)
qed (use assms in \<open>auto simp: diff_buffer_new_def split: if_splits\<close>)

definition buffer_for :: "nat \<Rightarrow> diff_buffer \<Rightarrow> bool" where
  "buffer_for chunk_sectors b \<longleftrightarrow>
     buffer_ok b \<and> buf_size b = chunk_sectors * SECTOR_SIZE \<and>
     page_count b = ceil_div chunk_sectors PAGE_SECTORS"

lemma sectors_fit_pages: "cs * SECTOR_SIZE \<le> ceil_div cs PAGE_SECTORS * PAGE_SIZE"
  using ceil_div_covers [of PAGE_SECTORS cs] by simp

section \<open>The pool\<close>

interpretation pool: fifo pool_push pool_pop free_diff_buffers
  by unfold_locales (auto simp: pool_push_def pool_pop_def)

definition pool_ok :: "nat \<Rightarrow> 'a buffer_pool_scheme \<Rightarrow> bool" where
  "pool_ok cs pool \<longleftrightarrow>
     free_diff_buffers_count pool = int (length (free_diff_buffers pool)) \<and>
     (\<forall>b\<in>set (free_diff_buffers pool). buffer_for cs b)"

lemma pool_pop_ok:
  assumes "pool_ok cs pool" "pool_pop pool = (res, pool')"
  shows "pool_ok cs pool' \<and> (\<forall>b. res = Some b \<longrightarrow> buffer_for cs b) \<and>
    (res = None \<longleftrightarrow> free_diff_buffers pool = []) \<and> (res = None \<longrightarrow> pool' = pool)"
  using assms by (auto simp: pool_ok_def pool_pop_def split: list.splits)

lemma diff_buffer_take_ok:
  assumes "pool_ok cs pool" "diff_buffer_take pool cs nowait kz alloc = (res, pool')"
  shows "pool_ok cs pool' \<and>
    (case res of Inr b \<Rightarrow> buffer_for cs b
     | Inl e \<Rightarrow> e = (if nowait then EAGAIN else ENOMEM) \<and> pool' = pool \<and> free_diff_buffers pool = [])"
proof -
  obtain r p where pop: "pool_pop pool = (r, p)" by fastforce
  note ok = pool_pop_ok [OF assms(1) pop]
  show ?thesis
  proof (cases r)
    case (Some b)
    with pop ok assms(2) show ?thesis by (auto simp: diff_buffer_take_def)
  next
    case None
    obtain nb k where nb: "diff_buffer_new (ceil_div cs PAGE_SECTORS) (cs * SECTOR_SIZE) kz alloc = (nb, k)"
      by fastforce
    show ?thesis
    proof (cases nb)
      case None
      with \<open>r = None\<close> nb pop ok assms(2) show ?thesis by (auto simp: diff_buffer_take_def)
    next
      case (Some b)
      with nb diff_buffer_new_ok sectors_fit_pages have "buffer_for cs b"
        by (simp add: buffer_for_def)
      with Some \<open>r = None\<close> nb pop ok assms(2) show ?thesis by (auto simp: diff_buffer_take_def)
    qed
  qed
qed

lemma diff_buffer_release_ok:
  assumes "pool_ok cs pool" "buffer_for cs b"
  shows "pool_ok cs (snd (diff_buffer_release n pool b))"
  using assms by (auto simp: pool_ok_def diff_buffer_release_def pool_push_def)

lemma diff_buffer_release_bound:
  assumes "pool_ok cs pool" "0 \<le> n" "free_diff_buffers_count pool \<le> n + 1"
  shows "free_diff_buffers_count (snd (diff_buffer_release n pool b)) \<le> n + 1"
  using assms by (auto simp: diff_buffer_release_def pool_push_def)

lemma diff_buffer_free_complete: "buffer_ok b \<Longrightarrow> diff_buffer_free (Some b) = page_count b"
proof -
  assume ok: "buffer_ok b"
  then have "filter (\<lambda>s. s \<noteq> None) (take (page_count b) (pages b)) = take (page_count b) (pages b)"
    by (intro filter_True) (auto simp: buffer_ok_def in_set_conv_nth)
  with ok show ?thesis by (simp add: diff_buffer_free_def buffer_ok_def)
qed

lemma diff_buffer_cleanup_eq:
  assumes "pool_ok cs pool"
  shows "diff_buffer_cleanup pool freed =
    (pool\<lparr>free_diff_buffers := [], free_diff_buffers_count := 0\<rparr>,
     freed + length (free_diff_buffers pool) * ceil_div cs PAGE_SECTORS)"
  using assms
proof (induction pool freed rule: diff_buffer_cleanup.induct)
  case (1 pool freed)
  obtain r p where pop: "pool_pop pool = (r, p)" by fastforce
  note ok = pool_pop_ok [OF "1.prems" pop]
  show ?case
  proof (cases r)
    case None
    then show ?thesis
      using pop ok "1.prems" by (simp add: diff_buffer_cleanup.simps [of pool] pool_ok_def)
  next
    case (Some b)
    then obtain bs where bs: "free_diff_buffers pool = b # bs"
      "p = pool\<lparr>free_diff_buffers := bs, free_diff_buffers_count := free_diff_buffers_count pool - 1\<rparr>"
      using pop by (auto simp: pool_pop_def split: list.splits)
    have "diff_buffer_free (Some b) = ceil_div cs PAGE_SECTORS"
      using ok Some diff_buffer_free_complete by (auto simp: buffer_for_def)
    with "1.IH" [OF pop [symmetric] Some] ok pop Some bs show ?thesis
      by (simp add: diff_buffer_cleanup.simps [of pool])
  qed
qed

section \<open>Properties\<close>

text \<open>C28: the pool of buffers.  Taking and releasing buffers keeps the counter equal to the length of
  the list; a buffer that is handed out has every one of its pages and room for the chunk; when the
  allocation fails half way, all pages allocated so far are given back and the caller gets
  \<open>EAGAIN\<close> or \<open>ENOMEM\<close>; emptying the pool frees every page of every buffer in it.\<close>

theorem buffer_pool_correct:
  assumes "pool_ok cs pool"
  shows "(\<forall>res pool'. diff_buffer_take pool cs nowait kz alloc = (res, pool') \<longrightarrow>
      pool_ok cs pool' \<and>
      (case res of Inr b \<Rightarrow> buffer_for cs b \<and> pool_ok cs (snd (diff_buffer_release n pool' b))
       | Inl e \<Rightarrow> e = (if nowait then EAGAIN else ENOMEM) \<and> pool' = pool)) \<and>
    (\<forall>k. diff_buffer_new (ceil_div cs PAGE_SECTORS) (cs * SECTOR_SIZE) kz alloc = (None, k) \<longrightarrow> k = 0) \<and>
    diff_buffer_cleanup pool 0 =
      (pool\<lparr>free_diff_buffers := [], free_diff_buffers_count := 0\<rparr>,
       length (free_diff_buffers pool) * ceil_div cs PAGE_SECTORS)"
proof (intro conjI allI impI)
  fix res pool' assume "diff_buffer_take pool cs nowait kz alloc = (res, pool')"
  note ok = diff_buffer_take_ok [OF assms this]
  then show "pool_ok cs pool'" by blast
  show "case res of Inr b \<Rightarrow> buffer_for cs b \<and> pool_ok cs (snd (diff_buffer_release n pool' b))
       | Inl e \<Rightarrow> e = (if nowait then EAGAIN else ENOMEM) \<and> pool' = pool"
    using ok diff_buffer_release_ok by (auto split: sum.splits)
qed (use diff_buffer_new_fails_clean diff_buffer_cleanup_eq [OF assms, of 0] in simp_all)

theorem buffer_pool_correct_witness:
  "pool_ok 16 \<lparr>free_diff_buffers = [], free_diff_buffers_count = 0\<rparr> \<and>
   fst (diff_buffer_take \<lparr>free_diff_buffers = [], free_diff_buffers_count = 0\<rparr> 16 True True
     (\<lambda>i. if i = 0 then Some (\<lambda>_. 0) else None)) = Inl EAGAIN"
proof -
  let ?p = "\<lparr>free_diff_buffers = [], free_diff_buffers_count = 0\<rparr>"
  let ?a = "\<lambda>i. if i = 0 then Some (\<lambda>_. 0) else None"
  have ok: "pool_ok 16 ?p" by (simp add: pool_ok_def)
  obtain res p' where take: "diff_buffer_take ?p 16 True True ?a = (res, p')" by fastforce
  have "res = Inl EAGAIN"
    using buffer_pool_correct [OF ok, of True True ?a 0] take
    by (auto simp: diff_buffer_take_def pool_pop_def diff_buffer_new_def ceil_div_def Let_def numeral_2_eq_2 split: sum.splits)
  with ok take show ?thesis by simp
qed

text \<open>C29: the iterator.  A position inside the buffer gives a page of the buffer, an offset that
  corresponds to the position and a positive number of bytes that stay inside the page and inside the
  buffer; a position outside gives nothing.\<close>

theorem buffer_iter_bounds:
  assumes "buffer_ok b"
  shows "case diff_buffer_iter_get b off of
      None \<Rightarrow> buf_size b \<le> off
    | Some it \<Rightarrow> iter_page it * PAGE_SIZE + iter_offset it = off \<and> iter_page it < page_count b \<and>
        pages b ! iter_page it \<noteq> None \<and> 0 < iter_bytes it \<and>
        iter_offset it + iter_bytes it \<le> PAGE_SIZE \<and> off + iter_bytes it \<le> buf_size b"
proof (cases "buf_size b \<le> off")
  case False
  have "off < page_count b * PAGE_SIZE" using False assms by (simp add: buffer_ok_def)
  then have pg: "off div PAGE_SIZE < page_count b" by (simp add: less_mult_imp_div_less)
  have "off mod PAGE_SIZE < PAGE_SIZE" by simp
  then have "off mod PAGE_SIZE + min (PAGE_SIZE - off mod PAGE_SIZE) (buf_size b - off) \<le> PAGE_SIZE"
    "off + min (PAGE_SIZE - off mod PAGE_SIZE) (buf_size b - off) \<le> buf_size b"
    using False by linarith+
  with False pg assms show ?thesis
    by (simp add: diff_buffer_iter_get_def Let_def buffer_ok_def)
qed (simp add: diff_buffer_iter_get_def)

theorem buffer_iter_bounds_witness:
  "\<exists>it. diff_buffer_iter_get \<lparr>buf_size = 1024, page_count = 1, pages = [Some (\<lambda>_. 7), None]\<rparr> 600 = Some it \<and>
        iter_offset it = 600 \<and> iter_bytes it \<le> 424"
proof -
  let ?b = "\<lparr>buf_size = 1024, page_count = 1, pages = [Some (\<lambda>_. 7), None]\<rparr>"
  have "buffer_ok ?b" by (simp add: buffer_ok_def)
  from buffer_iter_bounds [OF this, of 600] show ?thesis
    by (simp add: diff_buffer_iter_get_def Let_def)
qed

end
