(* ===== verification/Diff_Io.thy ===== *)
theory Diff_Io
  imports Diff_Storage Diff_Buffer "HOL-Library.Multiset"
begin

text \<open>
  I/O of chunk data, \<^verbatim>\<open>module/diff_io.c\<close> and \<^verbatim>\<open>module/diff_io.h\<close>: a request for a region of sectors is
  split into bios of at most \<^verbatim>\<open>BIO_MAX_VECS\<close> pages, and its completion is counted.  A bio carries its
  segments as page indices of the buffer with their lengths.  Disks are functions from byte positions
  to bytes.  \<open>bio_exec\<close> is what a block device does with a bio: it transfers the segments in order, all
  of them when it succeeds, some of them when it fails.

  The lemmas show that the bios of a request together transfer exactly the region, each byte once and
  to its place, in whatever order they complete, that the completion is signalled by the last bio
  only, and what the 16-bit page count does to requests of \<open>2^16\<close> pages and more.
\<close>

section \<open>Data and operations\<close>

type_synonym disk = "bdev \<Rightarrow> nat \<Rightarrow> u8"

record bio =
  bio_bdev :: bdev
  bio_sector :: nat
  bio_write :: bool
  bio_vecs :: "(nat \<times> nat) list"

record diff_io =
  io_error :: ret
  io_bio_count :: int
  io_is_write :: bool
  io_is_sync :: bool

abbreviation BIO_MAX_VECS :: nat where "BIO_MAX_VECS \<equiv> 256"

definition diff_io_new :: "bool \<Rightarrow> bool \<Rightarrow> diff_io option" where
  "diff_io_new is_write kzalloc_ok =
     (if \<not> kzalloc_ok then None
      else Some \<lparr>io_error = None, io_bio_count = 0, io_is_write = is_write, io_is_sync = False\<rparr>)"

definition diff_io_new_sync :: "bool \<Rightarrow> bool \<Rightarrow> diff_io option" where
  "diff_io_new_sync is_write kzalloc_ok =
     (case diff_io_new is_write kzalloc_ok of
        None \<Rightarrow> None
      | Some io \<Rightarrow> Some (io\<lparr>io_is_sync := True\<rparr>))"

definition diff_io_new_async :: "bool \<Rightarrow> bool \<Rightarrow> diff_io option" where
  "diff_io_new_async is_write kzalloc_ok =
     (case diff_io_new is_write kzalloc_ok of
        None \<Rightarrow> None
      | Some io \<Rightarrow> Some (io\<lparr>io_is_sync := False\<rparr>))"

text \<open>\<^verbatim>\<open>diff_io_endio\<close>: \<open>True\<close> when it signals the completion (or queues the notification).\<close>

definition diff_io_endio :: "bool \<Rightarrow> diff_io \<Rightarrow> diff_io \<times> bool" where
  "diff_io_endio status_ok io =
     (let io1 = (if \<not> status_ok then io\<lparr>io_error := Some EIO\<rparr> else io);
          io2 = io1\<lparr>io_bio_count := io_bio_count io1 - 1\<rparr>
      in (io2, io_bio_count io2 = 0))"

definition check_page_aligned :: "sector_t \<Rightarrow> bool" where
  "check_page_aligned sector \<longleftrightarrow> sector AND (push_bit (PAGE_SHIFT - SECTOR_SHIFT) 1 - 1) = 0"

text \<open>The result type is \<^verbatim>\<open>unsigned short\<close>.\<close>

definition calc_page_count :: "nat \<Rightarrow> nat" where
  "calc_page_count sectors = ceil_div sectors PAGE_SECTORS mod 2 ^ 16"

definition bio_max_segs :: "nat \<Rightarrow> nat" where
  "bio_max_segs nr_segs = min nr_segs BIO_MAX_VECS"

text \<open>The inner loop of \<^verbatim>\<open>diff_io_do\<close>: pages for the sectors that are left of the portion.\<close>

function diff_io_fill :: "nat \<Rightarrow> nat \<Rightarrow> (nat \<times> nat) list" where
  "diff_io_fill left page =
     (if left = 0 then []
      else let bvec_len_sect = min PAGE_SECTORS left
           in (page, bvec_len_sect * SECTOR_SIZE) # diff_io_fill (left - bvec_len_sect) (Suc page))"
  by pat_completeness auto
termination
  by (relation "measure fst") (auto simp: min_def)

declare diff_io_fill.simps [simp del]

text \<open>The outer loop.  \<open>alloc\<close> answers the allocation of each bio.  Putting more pages into a bio than
  it was allocated for, or reading beyond the page array, is a fault.  \<open>Inl n\<close>: an allocation failed
  after \<open>n\<close> bios.\<close>

function diff_io_build ::
  "diff_region \<Rightarrow> bool \<Rightarrow> nat \<Rightarrow> (nat \<Rightarrow> bool) \<Rightarrow> nat \<Rightarrow> nat \<Rightarrow> nat \<Rightarrow> (nat + bio list) outcome" where
  "diff_io_build region is_write npages alloc inx processed page =
     (if processed < unat (reg_count region) then
        (let rest = unat (reg_count region) - processed;
             wanted = calc_page_count rest;
             too_many = bio_max_segs wanted < wanted;
             nr_iovecs = (if too_many then bio_max_segs wanted else wanted);
             portion = (if too_many then nr_iovecs * PAGE_SECTORS else rest)
         in if \<not> alloc inx then Ok (Inl inx)
            else let vecs = diff_io_fill portion page
                 in if nr_iovecs < length vecs \<or> npages < page + length vecs then Fault
                    else bind_outcome
                      (diff_io_build region is_write npages alloc (Suc inx) (processed + portion)
                         (page + length vecs))
                      (\<lambda>res. Ok (case res of
                         Inl n \<Rightarrow> Inl n
                       | Inr bios \<Rightarrow>
                           Inr (\<lparr>bio_bdev = reg_bdev region,
                                 bio_sector = unat (reg_sector region) + processed,
                                 bio_write = is_write, bio_vecs = vecs\<rparr> # bios))))
      else Ok (Inr []))"
  by pat_completeness auto
termination
  by (relation "measure (\<lambda>(region, _, _, _, _, processed, _). unat (reg_count region) - processed)")
     (auto simp: bio_max_segs_def min_def split: if_splits)

declare diff_io_build.simps [simp del]

text \<open>The whole request: the return value, the request with its bio count, and the bios submitted.
  Waiting for a synchronous request is \<open>diff_io_wait\<close> below.\<close>

definition diff_io_do ::
  "diff_io \<Rightarrow> diff_region \<Rightarrow> diff_buffer \<Rightarrow> (nat \<Rightarrow> bool) \<Rightarrow> (ret \<times> diff_io \<times> bio list) outcome" where
  "diff_io_do io region b alloc =
     (if \<not> check_page_aligned (reg_sector region) then Ok (Some EINVAL, io, [])
      else if page_count b < calc_page_count (unat (reg_count region)) then Ok (Some EINVAL, io, [])
      else bind_outcome (diff_io_build region (io_is_write io) (page_count b) alloc 0 0 0)
             (\<lambda>res. Ok (case res of
                Inl n \<Rightarrow> (Some EAGAIN, io\<lparr>io_bio_count := io_bio_count io + int n\<rparr>, [])
              | Inr bios \<Rightarrow> (None, io\<lparr>io_bio_count := io_bio_count io + int (length bios)\<rparr>, bios))))"

section \<open>What the block devices do\<close>

fun vecs_read :: "(nat \<Rightarrow> u8) \<Rightarrow> nat \<Rightarrow> (nat \<times> nat) list \<Rightarrow> page option list \<Rightarrow> page option list outcome" where
  "vecs_read dev pos [] slots = Ok slots"
| "vecs_read dev pos ((pg, len) # vecs) slots =
     (if length slots \<le> pg then Fault
      else case slots ! pg of
        None \<Rightarrow> Fault
      | Some p \<Rightarrow>
          vecs_read dev (pos + len) vecs
            (slots[pg := Some (\<lambda>o'. if o' < len then dev (pos + o') else p o')]))"

fun vecs_write :: "(nat \<Rightarrow> u8) \<Rightarrow> nat \<Rightarrow> (nat \<times> nat) list \<Rightarrow> page option list \<Rightarrow> (nat \<Rightarrow> u8) outcome" where
  "vecs_write dev pos [] slots = Ok dev"
| "vecs_write dev pos ((pg, len) # vecs) slots =
     (if length slots \<le> pg then Fault
      else case slots ! pg of
        None \<Rightarrow> Fault
      | Some p \<Rightarrow>
          vecs_write (\<lambda>x. if pos \<le> x \<and> x < pos + len then p (x - pos) else dev x) (pos + len) vecs slots)"

text \<open>\<open>None\<close>: the bio succeeds; \<open>Some n\<close>: it fails after \<open>n\<close> segments.\<close>

type_synonym bio_status = "nat option"

definition bio_exec :: "bio \<Rightarrow> bio_status \<Rightarrow> disk \<Rightarrow> diff_buffer \<Rightarrow> (disk \<times> diff_buffer) outcome" where
  "bio_exec bio st disk b =
     (let vecs = (case st of None \<Rightarrow> bio_vecs bio | Some n \<Rightarrow> take n (bio_vecs bio));
          pos = bio_sector bio * SECTOR_SIZE;
          dev = disk (bio_bdev bio)
      in if bio_write bio
         then bind_outcome (vecs_write dev pos vecs (pages b)) (\<lambda>dev'. Ok (disk(bio_bdev bio := dev'), b))
         else bind_outcome (vecs_read dev pos vecs (pages b)) (\<lambda>slots. Ok (disk, b\<lparr>pages := slots\<rparr>)))"

text \<open>Waiting for a synchronous request: its bios end one after the other, and the wait is over when
  one of them signals the completion.  The Boolean says whether that happened.\<close>

fun diff_io_wait ::
  "(nat \<Rightarrow> bio_status) \<Rightarrow> nat \<Rightarrow> bio list \<Rightarrow> diff_io \<Rightarrow> disk \<Rightarrow> diff_buffer \<Rightarrow>
     (bool \<times> diff_io \<times> disk \<times> diff_buffer) outcome" where
  "diff_io_wait st inx [] io disk b = Ok (False, io, disk, b)"
| "diff_io_wait st inx (bio # bios) io disk b =
     bind_outcome (bio_exec bio (st inx) disk b) (\<lambda>(disk1, b1).
       case diff_io_endio (st inx = None) io of
         (io1, done) \<Rightarrow>
           if done then Ok (True, io1, disk1, b1)
           else diff_io_wait st (Suc inx) bios io1 disk1 b1)"

section \<open>Segments\<close>

lemma ceil_div_8_step: "0 < n \<Longrightarrow> ceil_div n PAGE_SECTORS = Suc (ceil_div (n - min PAGE_SECTORS n) PAGE_SECTORS)"
  by (auto simp: ceil_div_def min_def)

lemma fill_0 [simp]: "diff_io_fill 0 page = []"
  by (simp add: diff_io_fill.simps)

lemma length_fill: "length (diff_io_fill n page) = ceil_div n PAGE_SECTORS"
proof (induction n page rule: diff_io_fill.induct)
  case (1 n page)
  show ?case
  proof (cases "n = 0")
    case False
    with 1 [OF False refl] ceil_div_8_step [of n] show ?thesis
      by (simp add: diff_io_fill.simps [of n] Let_def)
  qed simp
qed

lemma take_fill: "take k (diff_io_fill n page) = diff_io_fill (min n (PAGE_SECTORS * k)) page"
proof (induction n page arbitrary: k rule: diff_io_fill.induct)
  case (1 n page)
  show ?case
  proof (cases "n = 0 \<or> k = 0")
    case True
    then show ?thesis by auto
  next
    case False
    then obtain k' where k: "k = Suc k'" by (cases k) auto
    have "min PAGE_SECTORS (min n (PAGE_SECTORS * k)) = min PAGE_SECTORS n"
      "min n (PAGE_SECTORS * k) - min PAGE_SECTORS n = min (n - min PAGE_SECTORS n) (PAGE_SECTORS * k')"
      using False by (auto simp: k min_def)
    moreover have "min n (PAGE_SECTORS * k) \<noteq> 0" using False by simp
    ultimately show ?thesis
      using False 1 [of "min PAGE_SECTORS n" k'] k
      by (simp add: diff_io_fill.simps [of n] diff_io_fill.simps [of "min n _"] Let_def)
  qed
qed

definition slot_byte :: "page option list \<Rightarrow> nat \<Rightarrow> u8" where
  "slot_byte slots k = (case slots ! (k div PAGE_SIZE) of Some p \<Rightarrow> p (k mod PAGE_SIZE) | None \<Rightarrow> 0)"

lemma buf_byte_slot: "buf_byte b k = slot_byte (pages b) k"
  by (simp add: buf_byte_def slot_byte_def)

definition slots_from :: "nat \<Rightarrow> nat \<Rightarrow> page option list \<Rightarrow> bool" where
  "slots_from page n slots \<longleftrightarrow>
     (\<forall>i. page \<le> i \<longrightarrow> i < page + ceil_div n PAGE_SECTORS \<longrightarrow> i < length slots \<and> slots ! i \<noteq> None)"

lemma slots_from_step:
  assumes "slots_from page n slots" "0 < n"
  shows "page < length slots \<and> slots ! page \<noteq> None \<and>
    slots_from (Suc page) (n - min PAGE_SECTORS n) (slots[page := Some q])"
proof -
  note c = ceil_div_8_step [OF assms(2)]
  have "page < length slots \<and> slots ! page \<noteq> None"
    using assms(1) c by (simp add: slots_from_def)
  moreover have "slots_from (Suc page) (n - min PAGE_SECTORS n) (slots[page := Some q])"
    using assms(1) c by (auto simp: slots_from_def nth_list_update)
  ultimately show ?thesis by blast
qed

lemma slot_byte_update:
  assumes "page < length slots" "slots ! page = Some p"
  shows "slot_byte (slots[page := Some (\<lambda>o'. if o' < len then f o' else p o')]) k =
    (if k div PAGE_SIZE = page \<and> k mod PAGE_SIZE < len then f (k mod PAGE_SIZE) else slot_byte slots k)"
  using assms by (auto simp: slot_byte_def nth_list_update)

lemma vecs_read_fill:
  assumes "slots_from page n slots"
  shows "\<exists>slots'. vecs_read dev pos (diff_io_fill n page) slots = Ok slots' \<and>
    length slots' = length slots \<and> (\<forall>i<length slots. slots' ! i = None \<longleftrightarrow> slots ! i = None) \<and>
    (\<forall>k. slot_byte slots' k =
       (if PAGE_SIZE * page \<le> k \<and> k < PAGE_SIZE * page + SECTOR_SIZE * n
        then dev (pos + (k - PAGE_SIZE * page)) else slot_byte slots k))"
  using assms
proof (induction n page arbitrary: pos slots rule: diff_io_fill.induct)
  case (1 n page)
  show ?case
  proof (cases "n = 0")
    case False
    let ?l = "min PAGE_SECTORS n"
    note st = slots_from_step [OF "1.prems"]
    obtain p where p: "page < length slots" "slots ! page = Some p" using st False by blast
    let ?s = "slots[page := Some (\<lambda>o'. if o' < ?l * SECTOR_SIZE then dev (pos + o') else p o')]"
    have "slots_from (Suc page) (n - ?l) ?s" using st False by blast
    from "1.IH" [OF False refl this, of "pos + ?l * SECTOR_SIZE"] obtain slots' where
      IH: "vecs_read dev (pos + ?l * SECTOR_SIZE) (diff_io_fill (n - ?l) (Suc page)) ?s = Ok slots'"
        "length slots' = length ?s" "\<forall>i<length ?s. slots' ! i = None \<longleftrightarrow> ?s ! i = None"
        "\<And>k. slot_byte slots' k =
          (if PAGE_SIZE * Suc page \<le> k \<and> k < PAGE_SIZE * Suc page + SECTOR_SIZE * (n - ?l)
           then dev (pos + ?l * SECTOR_SIZE + (k - PAGE_SIZE * Suc page)) else slot_byte ?s k)"
      by blast
    have "slot_byte slots' k =
       (if PAGE_SIZE * page \<le> k \<and> k < PAGE_SIZE * page + SECTOR_SIZE * n
        then dev (pos + (k - PAGE_SIZE * page)) else slot_byte slots k)" for k
    proof -
      define q m where qm: "q = k div PAGE_SIZE" "m = k mod PAGE_SIZE"
      then have k: "k = PAGE_SIZE * q + m" "m < PAGE_SIZE" by simp_all
      note upd = slot_byte_update [OF p, of "?l * SECTOR_SIZE" "\<lambda>o'. dev (pos + o')" k, folded qm]
      consider "q < page" | "q = page" | "page < q" by linarith
      then show ?thesis
      proof cases
        case 1
        then have "k < PAGE_SIZE * page" using k by linarith
        then show ?thesis using IH(4) [of k] 1 upd by simp
      next
        case 2
        have "\<not> (PAGE_SIZE * Suc page \<le> k \<and> k < PAGE_SIZE * Suc page + SECTOR_SIZE * (n - ?l))"
          using k 2 by simp
        with IH(4) [of k] have "slot_byte slots' k = slot_byte ?s k" by (simp only: if_False)
        also have "\<dots> = (if m < ?l * SECTOR_SIZE then dev (pos + m) else slot_byte slots k)"
          using upd 2 by (simp only: simp_thms)
        also have "m < ?l * SECTOR_SIZE \<longleftrightarrow> PAGE_SIZE * page \<le> k \<and> k < PAGE_SIZE * page + SECTOR_SIZE * n"
          using k 2 by linarith
        also have "m = k - PAGE_SIZE * page" using k 2 by linarith
        finally show ?thesis .
      next
        case 3
        then have "PAGE_SIZE * Suc page \<le> PAGE_SIZE * q" by (intro mult_le_mono2) simp
        then have "PAGE_SIZE * Suc page \<le> k" using k by linarith
        moreover have "k < PAGE_SIZE * Suc page + SECTOR_SIZE * (n - ?l) \<longleftrightarrow>
            k < PAGE_SIZE * page + SECTOR_SIZE * n"
          using calculation by (auto simp: min_def)
        moreover have "pos + ?l * SECTOR_SIZE + (k - PAGE_SIZE * Suc page) = pos + (k - PAGE_SIZE * page)"
          if "k < PAGE_SIZE * page + SECTOR_SIZE * n"
          using that calculation(1) by (auto simp: min_def)
        ultimately show ?thesis using IH(4) [of k] 3 upd by simp
      qed
    qed
    moreover have "\<forall>i<length slots. slots' ! i = None \<longleftrightarrow> slots ! i = None"
      using IH(3) p by (auto simp: nth_list_update split: if_splits)
    moreover have "vecs_read dev pos (diff_io_fill n page) slots = Ok slots'"
      using IH(1) p False by (simp add: diff_io_fill.simps [of n] Let_def)
    ultimately show ?thesis using IH(2) by auto
  qed auto
qed

lemma write_combine:
  assumes "l = min PAGE_SECTORS n" "\<And>j. j < PAGE_SIZE \<Longrightarrow> sb (PAGE_SIZE * page + j) = p j"
  shows "(if pos + l * SECTOR_SIZE \<le> x \<and> x < pos + l * SECTOR_SIZE + SECTOR_SIZE * (n - l)
      then sb (PAGE_SIZE * Suc page + (x - (pos + l * SECTOR_SIZE)))
      else if pos \<le> x \<and> x < pos + l * SECTOR_SIZE then p (x - pos) else dev x) =
    (if pos \<le> x \<and> x < pos + SECTOR_SIZE * n then sb (PAGE_SIZE * page + (x - pos)) else dev x)"
proof (cases "n \<le> PAGE_SECTORS")
  case True
  then have l: "l = n" using assms(1) by simp
  show ?thesis
  proof (cases "pos \<le> x \<and> x < pos + n * SECTOR_SIZE")
    case T: True
    then have "x - pos < PAGE_SIZE" using True by linarith
    with T assms(2) [OF this] show ?thesis by (simp add: l)
  qed (auto simp: l mult.commute)
next
  case False
  then have l: "l = PAGE_SECTORS" using assms(1) by simp
  consider "x < pos" | "pos \<le> x" "x < pos + PAGE_SIZE" | "pos + PAGE_SIZE \<le> x" by linarith
  then show ?thesis
  proof cases
    case 2
    then have "x - pos < PAGE_SIZE" by linarith
    from assms(2) [OF this] 2 False show ?thesis by (simp add: l)
  next
    case 3
    then obtain d where d: "x = pos + PAGE_SIZE + d" using le_Suc_ex by blast
    have "d < SECTOR_SIZE * (n - PAGE_SECTORS) \<longleftrightarrow> PAGE_SIZE + d < SECTOR_SIZE * n"
      using False by linarith
    then show ?thesis by (simp add: l d ac_simps)
  qed (simp add: l)
qed

lemma vecs_write_fill:
  assumes "slots_from page n slots"
  shows "\<exists>dev'. vecs_write dev pos (diff_io_fill n page) slots = Ok dev' \<and>
    (\<forall>x. dev' x = (if pos \<le> x \<and> x < pos + SECTOR_SIZE * n
       then slot_byte slots (PAGE_SIZE * page + (x - pos)) else dev x))"
  using assms
proof (induction n page arbitrary: dev pos rule: diff_io_fill.induct)
  case (1 n page)
  show ?case
  proof (cases "n = 0")
    case False
    define l where "l = min PAGE_SECTORS n"
    have "0 < n" using False by simp
    note st = slots_from_step [OF "1.prems" this, folded l_def]
    obtain p where p: "page < length slots" "slots ! page = Some p" using st by blast
    have sf: "slots_from (Suc page) (n - l) slots"
      using st [of p] list_update_id [of slots page] p(2) by simp
    define dev1 where "dev1 = (\<lambda>x. if pos \<le> x \<and> x < pos + l * SECTOR_SIZE then p (x - pos) else dev x)"
    from "1.IH" [OF False refl sf [unfolded l_def], folded l_def, of dev1 "pos + l * SECTOR_SIZE"]
    obtain dev' where IH:
      "vecs_write dev1 (pos + l * SECTOR_SIZE) (diff_io_fill (n - l) (Suc page)) slots = Ok dev'"
      "\<And>x. dev' x = (if pos + l * SECTOR_SIZE \<le> x \<and> x < pos + l * SECTOR_SIZE + SECTOR_SIZE * (n - l)
         then slot_byte slots (PAGE_SIZE * Suc page + (x - (pos + l * SECTOR_SIZE))) else dev1 x)"
      by blast
    have "slot_byte slots (PAGE_SIZE * page + j) = p j" if "j < PAGE_SIZE" for j
      using that by (simp add: slot_byte_def p)
    from write_combine [of l n "slot_byte slots" page p pos _ dev, OF l_def this] IH(2)
    have "dev' x = (if pos \<le> x \<and> x < pos + SECTOR_SIZE * n
       then slot_byte slots (PAGE_SIZE * page + (x - pos)) else dev x)" for x
      by (simp only: dev1_def)
    moreover have "vecs_write dev pos (diff_io_fill n page) slots = Ok dev'"
      using IH(1) p False by (simp add: diff_io_fill.simps [of n] Let_def l_def dev1_def)
    ultimately show ?thesis by blast
  next
    case True
    then show ?thesis by (intro exI [of _ dev]) auto
  qed
qed

section \<open>The bios of a request\<close>

text \<open>The bio for \<open>n\<close> sectors of a region from the \<open>s\<close>-th on, and the offsets of the buffer it
  transfers.\<close>

definition region_bio :: "diff_region \<Rightarrow> bool \<Rightarrow> nat \<Rightarrow> nat \<Rightarrow> bio" where
  "region_bio r w s n =
     \<lparr>bio_bdev = reg_bdev r, bio_sector = unat (reg_sector r) + s, bio_write = w,
      bio_vecs = diff_io_fill n (s div PAGE_SECTORS)\<rparr>"

definition bio_span :: "bio \<Rightarrow> nat set" where
  "bio_span bio =
     {PAGE_SIZE * fst (hd (bio_vecs bio)) ..<
      PAGE_SIZE * fst (hd (bio_vecs bio)) + sum_list (map snd (bio_vecs bio))}"

definition io_bio :: "diff_region \<Rightarrow> bool \<Rightarrow> bio \<Rightarrow> bool" where
  "io_bio r w bio \<longleftrightarrow>
     (\<exists>s n. 0 < n \<and> PAGE_SECTORS dvd s \<and> s + n \<le> unat (reg_count r) \<and> bio = region_bio r w s n)"

abbreviation reg_base :: "diff_region \<Rightarrow> nat" where
  "reg_base r \<equiv> unat (reg_sector r) * SECTOR_SIZE"

lemma sum_fill: "sum_list (map snd (diff_io_fill n page)) = SECTOR_SIZE * n"
proof (induction n page rule: diff_io_fill.induct)
  case (1 n page)
  show ?case
  proof (cases "n = 0")
    case False
    have "SECTOR_SIZE * min PAGE_SECTORS n + SECTOR_SIZE * (n - min PAGE_SECTORS n) = SECTOR_SIZE * n"
      by (simp flip: add_mult_distrib2)
    then show ?thesis
      using 1 [OF False refl] False by (simp add: diff_io_fill.simps [of n] Let_def mult.commute)
  qed simp
qed

lemma hd_fill: "0 < n \<Longrightarrow> fst (hd (diff_io_fill n page)) = page"
  by (simp add: diff_io_fill.simps [of n] Let_def)

lemma bio_span_region:
  assumes "0 < n" "PAGE_SECTORS dvd s"
  shows "bio_span (region_bio r w s n) = {SECTOR_SIZE * s ..< SECTOR_SIZE * (s + n)}"
proof -
  obtain q where "s = PAGE_SECTORS * q" using assms(2) by (elim dvdE)
  with assms(1) show ?thesis
    by (simp add: bio_span_def region_bio_def hd_fill sum_fill)
qed

lemma ceil_div_mono: "a \<le> b \<Longrightarrow> ceil_div a n \<le> ceil_div b n"
  by (simp add: ceil_div_def div_le_mono)

lemma ceil_div_add: "PAGE_SECTORS dvd s \<Longrightarrow> ceil_div (s + n) PAGE_SECTORS = s div PAGE_SECTORS + ceil_div n PAGE_SECTORS"
  by (auto simp: ceil_div_def elim!: dvdE)

lemma slots_from_region:
  assumes "buffer_ok b" "ceil_div cnt PAGE_SECTORS \<le> page_count b" "PAGE_SECTORS dvd s" "s + n \<le> cnt"
  shows "slots_from (s div PAGE_SECTORS) n (pages b)"
  using ceil_div_mono [OF assms(4), of PAGE_SECTORS] ceil_div_add [OF assms(3), of n] assms(1,2)
  by (auto simp: slots_from_def buffer_ok_def)

lemma slots_from_less: "slots_from page n slots \<Longrightarrow> n' \<le> n \<Longrightarrow> slots_from page n' slots"
  using ceil_div_mono [of n' n PAGE_SECTORS] by (auto simp: slots_from_def)

text \<open>A failing bio transfers the segments of a shorter one.\<close>

definition done_sectors :: "bio_status \<Rightarrow> nat \<Rightarrow> nat" where
  "done_sectors st n = (case st of None \<Rightarrow> n | Some k \<Rightarrow> min n (PAGE_SECTORS * k))"

lemma done_sectors_le: "done_sectors st n \<le> n"
  by (simp add: done_sectors_def split: option.split)

lemma bio_exec_region:
  "bio_exec (region_bio r w s n) st disk b =
     (let vecs = diff_io_fill (done_sectors st n) (s div PAGE_SECTORS);
          pos = (unat (reg_sector r) + s) * SECTOR_SIZE;
          dev = disk (reg_bdev r)
      in if w
         then bind_outcome (vecs_write dev pos vecs (pages b)) (\<lambda>dev'. Ok (disk(reg_bdev r := dev'), b))
         else bind_outcome (vecs_read dev pos vecs (pages b)) (\<lambda>slots. Ok (disk, b\<lparr>pages := slots\<rparr>)))"
  by (cases st) (simp_all add: bio_exec_def region_bio_def done_sectors_def take_fill Let_def)

lemma bio_exec_read:
  assumes ok: "buffer_ok b" "ceil_div (unat (reg_count r)) PAGE_SECTORS \<le> page_count b"
    and bio: "io_bio r False bio"
  shows "\<exists>b'. bio_exec bio st disk b = Ok (disk, b') \<and> buffer_ok b' \<and>
    buf_size b' = buf_size b \<and> page_count b' = page_count b \<and>
    (\<forall>k. k \<notin> bio_span bio \<longrightarrow> buf_byte b' k = buf_byte b k) \<and>
    (st = None \<longrightarrow> (\<forall>k\<in>bio_span bio. buf_byte b' k = disk (reg_bdev r) (reg_base r + k)))"
proof -
  obtain s n where sn: "0 < n" "PAGE_SECTORS dvd s" "s + n \<le> unat (reg_count r)" "bio = region_bio r False s n"
    using bio by (auto simp: io_bio_def)
  let ?n = "done_sectors st n" and ?p = "s div PAGE_SECTORS" and ?dev = "disk (reg_bdev r)"
  let ?pos = "(unat (reg_sector r) + s) * SECTOR_SIZE"
  have pg: "PAGE_SIZE * ?p = SECTOR_SIZE * s" using sn(2) by auto
  have span: "bio_span bio = {SECTOR_SIZE * s ..< SECTOR_SIZE * (s + n)}"
    using bio_span_region sn by simp
  have "slots_from ?p ?n (pages b)"
    using slots_from_region [OF ok sn(2,3)] slots_from_less done_sectors_le by blast
  from vecs_read_fill [OF this, of ?dev ?pos] obtain slots where
    rd: "vecs_read ?dev ?pos (diff_io_fill ?n ?p) (pages b) = Ok slots" "length slots = length (pages b)"
      "\<forall>i<length (pages b). slots ! i = None \<longleftrightarrow> pages b ! i = None"
      "\<And>k. slot_byte slots k = (if PAGE_SIZE * ?p \<le> k \<and> k < PAGE_SIZE * ?p + SECTOR_SIZE * ?n
         then ?dev (?pos + (k - PAGE_SIZE * ?p)) else slot_byte (pages b) k)"
    by blast
  let ?b = "b\<lparr>pages := slots\<rparr>"
  have "bio_exec bio st disk b = Ok (disk, ?b)"
    using rd(1) by (simp add: sn(4) bio_exec_region Let_def)
  moreover have "buffer_ok ?b" using ok(1) rd(2,3) by (auto simp: buffer_ok_def)
  moreover have "buf_byte ?b k = buf_byte b k" if "k \<notin> bio_span bio" for k
  proof -
    have "SECTOR_SIZE * ?n \<le> SECTOR_SIZE * n" using done_sectors_le by simp
    then have "\<not> (PAGE_SIZE * ?p \<le> k \<and> k < PAGE_SIZE * ?p + SECTOR_SIZE * ?n)"
      using that unfolding span pg by auto
    then have "slot_byte slots k = slot_byte (pages b) k" by (simp only: rd(4) if_False)
    then show ?thesis by (simp add: buf_byte_slot)
  qed
  moreover have "buf_byte ?b k = ?dev (reg_base r + k)" if "k \<in> bio_span bio" "st = None" for k
  proof -
    have "?n = n" using that(2) by (simp add: done_sectors_def)
    then have c: "PAGE_SIZE * ?p \<le> k \<and> k < PAGE_SIZE * ?p + SECTOR_SIZE * ?n"
      using that(1) unfolding span pg by auto
    have "?pos + (k - PAGE_SIZE * ?p) = reg_base r + k" using c unfolding pg by (simp add: add_mult_distrib)
    with c show ?thesis by (simp add: buf_byte_slot rd(4))
  qed
  ultimately show ?thesis by (intro exI [of _ ?b]) auto
qed

lemma bio_exec_write:
  assumes ok: "buffer_ok b" "ceil_div (unat (reg_count r)) PAGE_SECTORS \<le> page_count b"
    and bio: "io_bio r True bio"
  shows "\<exists>disk'. bio_exec bio st disk b = Ok (disk', b) \<and>
    (\<forall>d x. d \<noteq> reg_bdev r \<or> x < reg_base r \<or> x - reg_base r \<notin> bio_span bio \<longrightarrow> disk' d x = disk d x) \<and>
    (st = None \<longrightarrow> (\<forall>k\<in>bio_span bio. disk' (reg_bdev r) (reg_base r + k) = buf_byte b k))"
proof -
  obtain s n where sn: "0 < n" "PAGE_SECTORS dvd s" "s + n \<le> unat (reg_count r)" "bio = region_bio r True s n"
    using bio by (auto simp: io_bio_def)
  let ?n = "done_sectors st n" and ?p = "s div PAGE_SECTORS" and ?dev = "disk (reg_bdev r)"
  let ?pos = "(unat (reg_sector r) + s) * SECTOR_SIZE"
  have pg: "PAGE_SIZE * ?p = SECTOR_SIZE * s" using sn(2) by auto
  have pos: "?pos = reg_base r + SECTOR_SIZE * s" by (simp add: add_mult_distrib)
  have span: "bio_span bio = {SECTOR_SIZE * s ..< SECTOR_SIZE * (s + n)}"
    using bio_span_region sn by simp
  have le: "SECTOR_SIZE * ?n \<le> SECTOR_SIZE * n" using done_sectors_le by simp
  have "slots_from ?p ?n (pages b)"
    using slots_from_region [OF ok sn(2,3)] slots_from_less done_sectors_le by blast
  from vecs_write_fill [OF this, of ?dev ?pos] obtain dev' where
    wr: "vecs_write ?dev ?pos (diff_io_fill ?n ?p) (pages b) = Ok dev'"
      "\<And>x. dev' x = (if ?pos \<le> x \<and> x < ?pos + SECTOR_SIZE * ?n
         then slot_byte (pages b) (PAGE_SIZE * ?p + (x - ?pos)) else ?dev x)"
    by blast
  let ?disk = "disk(reg_bdev r := dev')"
  have "bio_exec bio st disk b = Ok (?disk, b)"
    using wr(1) by (simp add: sn(4) bio_exec_region Let_def)
  moreover have "?disk d x = disk d x"
    if "d \<noteq> reg_bdev r \<or> x < reg_base r \<or> x - reg_base r \<notin> bio_span bio" for d x
  proof (cases "d = reg_bdev r")
    case True
    then have "\<not> (?pos \<le> x \<and> x < ?pos + SECTOR_SIZE * ?n)"
      using that le unfolding span pos by auto
    then have "dev' x = ?dev x" by (simp only: wr(2) if_False)
    with True show ?thesis by simp
  qed simp
  moreover have "?disk (reg_bdev r) (reg_base r + k) = buf_byte b k" if "k \<in> bio_span bio" "st = None" for k
  proof -
    have "?n = n" using that(2) by (simp add: done_sectors_def)
    then have c: "?pos \<le> reg_base r + k \<and> reg_base r + k < ?pos + SECTOR_SIZE * ?n"
      using that(1) unfolding span pos by auto
    have "PAGE_SIZE * ?p + (reg_base r + k - ?pos) = k" using c unfolding pg pos by auto
    with c show ?thesis by (simp add: buf_byte_slot wr(2))
  qed
  ultimately show ?thesis by (intro exI [of _ ?disk]) auto
qed

section \<open>What a request submits\<close>

text \<open>A request that fits the buffer and the 16-bit page count never faults; its bios together cover
  every offset of the region.\<close>

lemma diff_io_build_spec:
  assumes "ceil_div (unat (reg_count r)) PAGE_SECTORS < 2 ^ 16"
    and "ceil_div (unat (reg_count r)) PAGE_SECTORS \<le> npages"
    and "processed < unat (reg_count r) \<longrightarrow> PAGE_SECTORS dvd processed \<and> page = processed div PAGE_SECTORS"
  shows "\<exists>res. diff_io_build r w npages alloc inx processed page = Ok res \<and>
    (case res of
       Inl k \<Rightarrow> \<not> alloc k
     | Inr bios \<Rightarrow> (\<forall>bio\<in>set bios. io_bio r w bio) \<and> (processed < unat (reg_count r) \<longrightarrow> bios \<noteq> []) \<and>
         (\<forall>k. SECTOR_SIZE * processed \<le> k \<and> k < SECTOR_SIZE * unat (reg_count r) \<longrightarrow>
            (\<exists>bio\<in>set bios. k \<in> bio_span bio)))"
  using assms(3)
proof (induction "unat (reg_count r) - processed" arbitrary: inx processed page rule: less_induct)
  case (less processed inx page)
  let ?cnt = "unat (reg_count r)"
  define rest where "rest = ?cnt - processed"
  define portion where "portion = (if BIO_MAX_VECS < ceil_div rest PAGE_SECTORS then BIO_MAX_VECS * PAGE_SECTORS else rest)"
  show ?case
  proof (cases "processed < ?cnt")
    case False
    then show ?thesis by (simp add: diff_io_build.simps [of r])
  next
    case True
    have al: "PAGE_SECTORS dvd processed" "page = processed div PAGE_SECTORS" using less.prems True by auto
    have rest_cnt: "processed + rest = ?cnt" "0 < rest" using True by (simp_all add: rest_def)
    have cdiv: "ceil_div ?cnt PAGE_SECTORS = page + ceil_div rest PAGE_SECTORS"
      using ceil_div_add [OF al(1), of rest] rest_cnt(1) al(2) by simp
    have wanted: "calc_page_count rest = ceil_div rest PAGE_SECTORS"
      using assms(1) cdiv by (simp add: calc_page_count_def)
    have cover: "rest \<le> ceil_div rest PAGE_SECTORS * PAGE_SECTORS" by (rule ceil_div_covers) simp
    have portion: "0 < portion" "portion \<le> rest"
      using rest_cnt(2) by (auto simp: portion_def ceil_div_def)
    have cp: "ceil_div portion PAGE_SECTORS = min (ceil_div rest PAGE_SECTORS) BIO_MAX_VECS"
      by (simp add: portion_def ceil_div_def)
    have next_page: "page + ceil_div portion PAGE_SECTORS = (processed + portion) div PAGE_SECTORS \<and>
        PAGE_SECTORS dvd processed + portion" if "processed + portion < ?cnt"
    proof -
      have "portion = BIO_MAX_VECS * PAGE_SECTORS" using that rest_cnt(1) by (auto simp: portion_def split: if_splits)
      with cp al show ?thesis by (auto simp: ceil_div_def elim!: dvdE)
    qed
    have npages: "page + ceil_div portion PAGE_SECTORS \<le> npages" using cp cdiv assms(2) by simp
    let ?bio = "region_bio r w processed portion"
    have bio: "io_bio r w ?bio" 
      unfolding io_bio_def using portion rest_cnt(1) al(1)
      by (intro exI [of _ processed] exI [of _ portion]) auto
    show ?thesis
    proof (cases "alloc inx")
      case False
      with True show ?thesis by (simp add: diff_io_build.simps [of r] Let_def)
    next
      case A: True
      define f where "f = (\<lambda>res. Ok (case res of Inl (n::nat) \<Rightarrow> Inl n | Inr bios \<Rightarrow>
          Inr (\<lparr>bio_bdev = reg_bdev r, bio_sector = unat (reg_sector r) + processed, bio_write = w,
                bio_vecs = diff_io_fill portion page\<rparr> # bios)))"
      have rb: "\<lparr>bio_bdev = reg_bdev r, bio_sector = unat (reg_sector r) + processed, bio_write = w,
                bio_vecs = diff_io_fill portion page\<rparr> = ?bio" by (simp add: region_bio_def al(2))
      have step: "diff_io_build r w npages alloc inx processed page =
          bind_outcome (diff_io_build r w npages alloc (Suc inx) (processed + portion)
              (page + ceil_div portion PAGE_SECTORS)) f"
      proof -
        have nr: "(if bio_max_segs (calc_page_count rest) < calc_page_count rest
            then bio_max_segs (calc_page_count rest) else calc_page_count rest) = ceil_div portion PAGE_SECTORS"
          by (simp add: cp wanted bio_max_segs_def)
        have po: "(if bio_max_segs (calc_page_count rest) < calc_page_count rest
            then ceil_div portion PAGE_SECTORS * PAGE_SECTORS else rest) = portion"
          using cp by (simp add: wanted bio_max_segs_def portion_def min_def split: if_splits)
        show ?thesis
          using npages
          by (subst diff_io_build.simps,
              simp only: True A Let_def rest_def [symmetric] nr po length_fill if_True simp_thms)
             (simp add: not_less f_def)
      qed
      have "\<exists>res. diff_io_build r w npages alloc (Suc inx) (processed + portion)
              (page + ceil_div portion PAGE_SECTORS) = Ok res \<and>
        (case res of
           Inl k \<Rightarrow> \<not> alloc k
         | Inr bios \<Rightarrow> (\<forall>bio\<in>set bios. io_bio r w bio) \<and> (processed + portion < ?cnt \<longrightarrow> bios \<noteq> []) \<and>
             (\<forall>k. SECTOR_SIZE * (processed + portion) \<le> k \<and> k < SECTOR_SIZE * ?cnt \<longrightarrow> (\<exists>bio\<in>set bios. k \<in> bio_span bio)))"
      proof (rule less.hyps)
        show "?cnt - (processed + portion) < ?cnt - processed" using True portion(1) by simp
      qed (use next_page in simp)
      then obtain res where res: "diff_io_build r w npages alloc (Suc inx) (processed + portion)
              (page + ceil_div portion PAGE_SECTORS) = Ok res"
        "case res of
           Inl k \<Rightarrow> \<not> alloc k
         | Inr bios \<Rightarrow> (\<forall>bio\<in>set bios. io_bio r w bio) \<and> (processed + portion < ?cnt \<longrightarrow> bios \<noteq> []) \<and>
             (\<forall>k. SECTOR_SIZE * (processed + portion) \<le> k \<and> k < SECTOR_SIZE * ?cnt \<longrightarrow> (\<exists>bio\<in>set bios. k \<in> bio_span bio))"
        by blast
      have span: "bio_span ?bio = {SECTOR_SIZE * processed ..< SECTOR_SIZE * (processed + portion)}"
        by (rule bio_span_region [OF portion(1) al(1)])
      show ?thesis
      proof (cases res)
        case (Inl k)
        with step res show ?thesis by (simp add: f_def)
      next
        case (Inr bios)
        have "\<exists>bio\<in>set (?bio # bios). k \<in> bio_span bio"
          if "SECTOR_SIZE * processed \<le> k" "k < SECTOR_SIZE * ?cnt" for k
          using that res(2) Inr span by (cases "k < SECTOR_SIZE * (processed + portion)") auto
        with step res Inr bio show ?thesis by (simp add: f_def rb)
      qed
    qed
  qed
qed

definition io_fits :: "diff_region \<Rightarrow> diff_buffer \<Rightarrow> bool" where
  "io_fits r b \<longleftrightarrow>
     check_page_aligned (reg_sector r) \<and> 0 < unat (reg_count r) \<and>
     ceil_div (unat (reg_count r)) PAGE_SECTORS < 2 ^ 16 \<and>
     ceil_div (unat (reg_count r)) PAGE_SECTORS \<le> page_count b"

definition io_covers :: "diff_region \<Rightarrow> bool \<Rightarrow> bio list \<Rightarrow> bool" where
  "io_covers r w bios \<longleftrightarrow>
     bios \<noteq> [] \<and> (\<forall>bio\<in>set bios. io_bio r w bio) \<and>
     (\<forall>k < SECTOR_SIZE * unat (reg_count r). \<exists>bio\<in>set bios. k \<in> bio_span bio)"

lemma diff_io_do_fits:
  assumes "io_fits r b"
  obtains (again) k io' where "diff_io_do io r b alloc = Ok (Some EAGAIN, io', [])" "\<not> alloc k"
  | (submitted) bios where "io_covers r (io_is_write io) bios"
      "diff_io_do io r b alloc = Ok (None, io\<lparr>io_bio_count := io_bio_count io + int (length bios)\<rparr>, bios)"
proof -
  have fit: "ceil_div (unat (reg_count r)) PAGE_SECTORS < 2 ^ 16"
    "ceil_div (unat (reg_count r)) PAGE_SECTORS \<le> page_count b" "check_page_aligned (reg_sector r)"
    "0 < unat (reg_count r)" using assms by (simp_all add: io_fits_def)
  have "calc_page_count (unat (reg_count r)) \<le> page_count b" using fit(1,2) by (simp add: calc_page_count_def)
  moreover obtain res where res: "diff_io_build r (io_is_write io) (page_count b) alloc 0 0 0 = Ok res"
    "case res of
       Inl k \<Rightarrow> \<not> alloc k
     | Inr bios \<Rightarrow> (\<forall>bio\<in>set bios. io_bio r (io_is_write io) bio) \<and> (0 < unat (reg_count r) \<longrightarrow> bios \<noteq> []) \<and>
         (\<forall>k. SECTOR_SIZE * 0 \<le> k \<and> k < SECTOR_SIZE * unat (reg_count r) \<longrightarrow> (\<exists>bio\<in>set bios. k \<in> bio_span bio))"
    using diff_io_build_spec [OF fit(1,2), of 0 0 "io_is_write io" alloc 0] by auto
  ultimately show thesis
  proof (cases res)
    case (Inl k)
    with res fit(3) \<open>calc_page_count _ \<le> _\<close> again [of _ k] show ?thesis by (simp add: diff_io_do_def)
  next
    case (Inr bios)
    with res fit have "io_covers r (io_is_write io) bios" by (simp add: io_covers_def)
    with Inr res fit(3) \<open>calc_page_count _ \<le> _\<close> submitted show ?thesis by (simp add: diff_io_do_def)
  qed
qed

lemma diff_io_endio_eq:
  "diff_io_endio ok io =
     (io\<lparr>io_error := (if ok then io_error io else Some EIO), io_bio_count := io_bio_count io - 1\<rparr>,
      io_bio_count io = 1)"
  by (simp add: diff_io_endio_def Let_def)

text \<open>The transfer of a list of bios of the request, whatever their order: the wait ends with the last
  one, without error exactly when all succeeded.\<close>

lemma diff_io_wait_read:
  assumes "buffer_ok b" "ceil_div (unat (reg_count r)) PAGE_SECTORS \<le> page_count b"
    and "\<forall>bio\<in>set bios. io_bio r False bio" "bios \<noteq> []" "io_bio_count io = int (length bios)"
  shows "\<exists>io' b'. diff_io_wait st inx bios io disk b = Ok (True, io', disk, b') \<and> io_bio_count io' = 0 \<and>
    (io_error io' = None \<longleftrightarrow> io_error io = None \<and> (\<forall>i<length bios. st (inx + i) = None)) \<and>
    buffer_ok b' \<and> buf_size b' = buf_size b \<and> page_count b' = page_count b \<and>
    (\<forall>k. (\<forall>bio\<in>set bios. k \<notin> bio_span bio) \<longrightarrow> buf_byte b' k = buf_byte b k) \<and>
    (io_error io' = None \<longrightarrow> (\<forall>k. (\<exists>bio\<in>set bios. k \<in> bio_span bio) \<longrightarrow>
       buf_byte b' k = disk (reg_bdev r) (reg_base r + k)))"
  using assms
proof (induction bios arbitrary: inx io b)
  case (Cons bio bios)
  from bio_exec_read [OF Cons.prems(1,2), of bio "st inx" disk] Cons.prems(3)
  obtain b1 where b1: "bio_exec bio (st inx) disk b = Ok (disk, b1)" "buffer_ok b1" "buf_size b1 = buf_size b"
    "page_count b1 = page_count b" "\<forall>k. k \<notin> bio_span bio \<longrightarrow> buf_byte b1 k = buf_byte b k"
    "st inx = None \<longrightarrow> (\<forall>k\<in>bio_span bio. buf_byte b1 k = disk (reg_bdev r) (reg_base r + k))"
    by auto
  let ?io = "io\<lparr>io_error := (if st inx = None then io_error io else Some EIO), io_bio_count := io_bio_count io - 1\<rparr>"
  show ?case
  proof (cases "bios = []")
    case True
    with b1 Cons.prems(5) show ?thesis by (auto simp: diff_io_endio_eq)
  next
    case False
    have "io_bio_count ?io = int (length bios)" using Cons.prems(5) by simp
    moreover have "\<forall>bio\<in>set bios. io_bio r False bio"
      "ceil_div (unat (reg_count r)) PAGE_SECTORS \<le> page_count b1" using Cons.prems(2,3) b1(4) by simp_all
    ultimately obtain io' b' where IH: "diff_io_wait st (Suc inx) bios ?io disk b1 = Ok (True, io', disk, b')" "io_bio_count io' = 0"
      "io_error io' = None \<longleftrightarrow> io_error ?io = None \<and> (\<forall>i<length bios. st (Suc inx + i) = None)"
      "buffer_ok b'" "buf_size b' = buf_size b1" "page_count b' = page_count b1"
      "\<forall>k. (\<forall>bio\<in>set bios. k \<notin> bio_span bio) \<longrightarrow> buf_byte b' k = buf_byte b1 k"
      "io_error io' = None \<longrightarrow> (\<forall>k. (\<exists>bio\<in>set bios. k \<in> bio_span bio) \<longrightarrow>
         buf_byte b' k = disk (reg_bdev r) (reg_base r + k))"
      using Cons.IH [OF b1(2) _ _ False, of ?io "Suc inx"]
      by - (drule meta_mp, assumption, drule meta_mp, assumption, drule meta_mp, assumption, elim exE conjE, rule that)
    have "io_bio_count io \<noteq> 1" using Cons.prems(5) False by simp
    then have run: "diff_io_wait st inx (bio # bios) io disk b = Ok (True, io', disk, b')"
      using b1(1) IH(1) by (simp add: diff_io_endio_eq)
    have err: "io_error io' = None \<longleftrightarrow> io_error io = None \<and> (\<forall>i<length (bio # bios). st (inx + i) = None)"
      using IH(3) by (auto simp: less_Suc_eq_0_disj)
    have "buf_byte b' k = disk (reg_bdev r) (reg_base r + k)"
      if "io_error io' = None" "\<exists>bio\<in>set (bio # bios). k \<in> bio_span bio" for k
    proof (cases "\<exists>bio\<in>set bios. k \<in> bio_span bio")
      case False
      moreover have "st inx = None" using err that(1) by force
      ultimately show ?thesis using IH(7) b1(6) that(2) by auto
    qed (use IH(8) that in blast)
    moreover have "buf_byte b' k = buf_byte b k" if "\<forall>bio\<in>set (bio # bios). k \<notin> bio_span bio" for k
      using that IH(7) b1(5) by simp
    ultimately show ?thesis using run err IH b1 by (intro exI [of _ io'] exI [of _ b']) auto
  qed
qed simp

lemma diff_io_wait_write:
  assumes "buffer_ok b" "ceil_div (unat (reg_count r)) PAGE_SECTORS \<le> page_count b"
    and "\<forall>bio\<in>set bios. io_bio r True bio" "bios \<noteq> []" "io_bio_count io = int (length bios)"
  shows "\<exists>io' disk'. diff_io_wait st inx bios io disk b = Ok (True, io', disk', b) \<and> io_bio_count io' = 0 \<and>
    (io_error io' = None \<longleftrightarrow> io_error io = None \<and> (\<forall>i<length bios. st (inx + i) = None)) \<and>
    (\<forall>d x. d \<noteq> reg_bdev r \<or> x < reg_base r \<or> (\<forall>bio\<in>set bios. x - reg_base r \<notin> bio_span bio) \<longrightarrow>
       disk' d x = disk d x) \<and>
    (io_error io' = None \<longrightarrow> (\<forall>k. (\<exists>bio\<in>set bios. k \<in> bio_span bio) \<longrightarrow>
       disk' (reg_bdev r) (reg_base r + k) = buf_byte b k))"
  using assms(3-)
proof (induction bios arbitrary: inx io disk)
  case (Cons bio bios)
  from bio_exec_write [OF assms(1,2), of bio "st inx" disk] Cons.prems(1)
  obtain d1 where d1: "bio_exec bio (st inx) disk b = Ok (d1, b)"
    "\<forall>d x. d \<noteq> reg_bdev r \<or> x < reg_base r \<or> x - reg_base r \<notin> bio_span bio \<longrightarrow> d1 d x = disk d x"
    "st inx = None \<longrightarrow> (\<forall>k\<in>bio_span bio. d1 (reg_bdev r) (reg_base r + k) = buf_byte b k)"
    by auto
  let ?io = "io\<lparr>io_error := (if st inx = None then io_error io else Some EIO), io_bio_count := io_bio_count io - 1\<rparr>"
  show ?case
  proof (cases "bios = []")
    case True
    with d1 Cons.prems(3) show ?thesis by (auto simp: diff_io_endio_eq)
  next
    case False
    have "io_bio_count ?io = int (length bios)" using Cons.prems(3) by simp
    moreover have "\<forall>bio\<in>set bios. io_bio r True bio" using Cons.prems(1) by simp
    ultimately obtain io' disk' where IH: "diff_io_wait st (Suc inx) bios ?io d1 b = Ok (True, io', disk', b)" "io_bio_count io' = 0"
      "io_error io' = None \<longleftrightarrow> io_error ?io = None \<and> (\<forall>i<length bios. st (Suc inx + i) = None)"
      "\<forall>d x. d \<noteq> reg_bdev r \<or> x < reg_base r \<or> (\<forall>bio\<in>set bios. x - reg_base r \<notin> bio_span bio) \<longrightarrow>
         disk' d x = d1 d x"
      "io_error io' = None \<longrightarrow> (\<forall>k. (\<exists>bio\<in>set bios. k \<in> bio_span bio) \<longrightarrow>
         disk' (reg_bdev r) (reg_base r + k) = buf_byte b k)"
      using Cons.IH [OF _ False, of ?io "Suc inx" d1] by - (drule meta_mp, assumption, drule meta_mp, assumption, elim exE conjE, rule that)
    have "io_bio_count io \<noteq> 1" using Cons.prems(3) False by simp
    then have run: "diff_io_wait st inx (bio # bios) io disk b = Ok (True, io', disk', b)"
      using d1(1) IH(1) by (simp add: diff_io_endio_eq)
    have err: "io_error io' = None \<longleftrightarrow> io_error io = None \<and> (\<forall>i<length (bio # bios). st (inx + i) = None)"
      using IH(3) by (auto simp: less_Suc_eq_0_disj)
    have "disk' (reg_bdev r) (reg_base r + k) = buf_byte b k"
      if "io_error io' = None" "\<exists>bio\<in>set (bio # bios). k \<in> bio_span bio" for k
    proof (cases "\<exists>bio\<in>set bios. k \<in> bio_span bio")
      case False
      moreover have "st inx = None" using err that(1) by force
      ultimately show ?thesis using IH(4) d1(3) that(2) by auto
    qed (use IH(5) that in blast)
    moreover have "disk' d x = disk d x"
      if "d \<noteq> reg_bdev r \<or> x < reg_base r \<or> (\<forall>bio\<in>set (bio # bios). x - reg_base r \<notin> bio_span bio)" for d x
      using that IH(4) d1(2) by auto
    ultimately show ?thesis using run err IH by (intro exI [of _ io'] exI [of _ disk']) auto
  qed
qed simp

section \<open>Properties\<close>

lemma io_covers_perm: "io_covers r w bios \<Longrightarrow> mset bios' = mset bios \<Longrightarrow> io_covers r w bios'"
  by (metis io_covers_def mset_zero_iff set_mset_mset)

text \<open>C30: a request that fits its buffer either fails to allocate a bio and submits nothing, or submits
  bios whose execution, in any order, is one flat copy of the region: after a successful read the
  bytes of the buffer are the bytes of the region, after a successful write the bytes of the region
  are those of the buffer, and nothing else on any disk changes.  The wait ends in every case, and
  reports an error exactly when one of the bios failed.\<close>

theorem diff_io_is_flat_copy:
  assumes "buffer_ok b" "io_fits r b" "io_error io = None" "io_bio_count io = 0"
    and "diff_io_do io r b alloc = Ok (ret, io1, bios)"
  shows "ret = Some EAGAIN \<and> bios = [] \<and> (\<exists>k. \<not> alloc k) \<or>
    ret = None \<and>
    (\<forall>st bios'. mset bios' = mset bios \<longrightarrow>
      (\<exists>io2 disk' b'. diff_io_wait st 0 bios' io1 disk b = Ok (True, io2, disk', b') \<and>
        (io_error io2 = None \<longleftrightarrow> (\<forall>i<length bios'. st i = None)) \<and>
        (if io_is_write io
         then b' = b \<and>
           (\<forall>d x. d \<noteq> reg_bdev r \<or> x < reg_base r \<or> reg_base r + SECTOR_SIZE * unat (reg_count r) \<le> x \<longrightarrow>
              disk' d x = disk d x) \<and>
           (io_error io2 = None \<longrightarrow> (\<forall>k < SECTOR_SIZE * unat (reg_count r).
              disk' (reg_bdev r) (reg_base r + k) = buf_byte b k))
         else disk' = disk \<and>
           (io_error io2 = None \<longrightarrow> (\<forall>k < SECTOR_SIZE * unat (reg_count r).
              buf_byte b' k = disk (reg_bdev r) (reg_base r + k))))))"
proof (rule diff_io_do_fits [OF assms(2), of io alloc], goal_cases)
  case again: (1 k io')
  with assms(5) show ?thesis by auto
next
  case submitted: (2 bs)
  have io1: "ret = None" "bios = bs" "io_error io1 = None" "io_bio_count io1 = int (length bs)"
    using submitted(2) assms(3-5) by auto
  have pages: "ceil_div (unat (reg_count r)) PAGE_SECTORS \<le> page_count b" using assms(2) by (simp add: io_fits_def)
  have span_le: "k < SECTOR_SIZE * unat (reg_count r)" if io: "io_bio r w bio" and k: "k \<in> bio_span bio" for w bio k
  proof -
    obtain s n where "0 < n" "PAGE_SECTORS dvd s" "s + n \<le> unat (reg_count r)" "bio = region_bio r w s n"
      using io by (auto simp: io_bio_def)
    moreover from this have "SECTOR_SIZE * (s + n) \<le> SECTOR_SIZE * unat (reg_count r)" by (intro mult_le_mono2)
    ultimately show ?thesis using k by (simp add: bio_span_region)
  qed
  have "\<exists>io2 disk' b'. diff_io_wait st 0 bios' io1 disk b = Ok (True, io2, disk', b') \<and>
        (io_error io2 = None \<longleftrightarrow> (\<forall>i<length bios'. st i = None)) \<and>
        (if io_is_write io
         then b' = b \<and>
           (\<forall>d x. d \<noteq> reg_bdev r \<or> x < reg_base r \<or> reg_base r + SECTOR_SIZE * unat (reg_count r) \<le> x \<longrightarrow>
              disk' d x = disk d x) \<and>
           (io_error io2 = None \<longrightarrow> (\<forall>k < SECTOR_SIZE * unat (reg_count r).
              disk' (reg_bdev r) (reg_base r + k) = buf_byte b k))
         else disk' = disk \<and>
           (io_error io2 = None \<longrightarrow> (\<forall>k < SECTOR_SIZE * unat (reg_count r).
              buf_byte b' k = disk (reg_bdev r) (reg_base r + k))))" if "mset bios' = mset bios" for st bios'
  proof -
    have "mset bios' = mset bs" using that io1(2) by simp
    from io_covers_perm [OF submitted(1) this] mset_eq_length [OF this]
    have cov: "\<forall>bio\<in>set bios'. io_bio r (io_is_write io) bio" "bios' \<noteq> []"
      "\<And>k. k < SECTOR_SIZE * unat (reg_count r) \<Longrightarrow> \<exists>bio\<in>set bios'. k \<in> bio_span bio"
      and len: "io_bio_count io1 = int (length bios')"
      using io1(4) by (auto simp: io_covers_def)
    show ?thesis
    proof (cases "io_is_write io")
      case True
      with cov(1) have "\<forall>bio\<in>set bios'. io_bio r True bio" by simp
      from diff_io_wait_write [OF assms(1) pages this cov(2) len, of st 0 disk] obtain io2 disk' where
        w: "diff_io_wait st 0 bios' io1 disk b = Ok (True, io2, disk', b)"
          "io_error io2 = None \<longleftrightarrow> io_error io1 = None \<and> (\<forall>i<length bios'. st (0 + i) = None)"
          "\<forall>d x. d \<noteq> reg_bdev r \<or> x < reg_base r \<or> (\<forall>bio\<in>set bios'. x - reg_base r \<notin> bio_span bio) \<longrightarrow>
             disk' d x = disk d x"
          "io_error io2 = None \<longrightarrow> (\<forall>k. (\<exists>bio\<in>set bios'. k \<in> bio_span bio) \<longrightarrow>
             disk' (reg_bdev r) (reg_base r + k) = buf_byte b k)"
        by (elim exE conjE) (rule that)
      have "disk' d x = disk d x"
        if "d \<noteq> reg_bdev r \<or> x < reg_base r \<or> reg_base r + SECTOR_SIZE * unat (reg_count r) \<le> x" for d x
      proof -
        have "\<forall>bio\<in>set bios'. x - reg_base r \<notin> bio_span bio"
          if far: "reg_base r + SECTOR_SIZE * unat (reg_count r) \<le> x"
        proof (intro ballI notI)
          fix bio assume "bio \<in> set bios'" "x - reg_base r \<in> bio_span bio"
          then have "x - reg_base r < SECTOR_SIZE * unat (reg_count r)" using span_le cov(1) by blast
          with far show False by linarith
        qed
        then show ?thesis using w(3) that by blast
      qed
      then show ?thesis using w(1,2,4) cov(3) True io1(3) by (intro exI [of _ io2] exI [of _ disk'] exI [of _ b]) simp
    next
      case False
      with cov(1) have "\<forall>bio\<in>set bios'. io_bio r False bio" by simp
      from diff_io_wait_read [OF assms(1) pages this cov(2) len, of st 0 disk] obtain io2 b' where
        "diff_io_wait st 0 bios' io1 disk b = Ok (True, io2, disk, b')"
          "io_error io2 = None \<longleftrightarrow> io_error io1 = None \<and> (\<forall>i<length bios'. st (0 + i) = None)"
          "io_error io2 = None \<longrightarrow> (\<forall>k. (\<exists>bio\<in>set bios'. k \<in> bio_span bio) \<longrightarrow>
             buf_byte b' k = disk (reg_bdev r) (reg_base r + k))"
        by (elim exE conjE) (rule that)
      then show ?thesis using cov(3) False io1(3) by (intro exI [of _ io2] exI [of _ disk] exI [of _ b']) simp
    qed
  qed
  then show ?thesis using io1(1) by blast
qed

definition sample_buffer :: diff_buffer where
  "sample_buffer = \<lparr>buf_size = 1024, page_count = 1, pages = [Some (\<lambda>_. 7), None]\<rparr>"

theorem diff_io_is_flat_copy_witness:
  "\<exists>io1 bios io2 b'.
     diff_io_do \<lparr>io_error = None, io_bio_count = 0, io_is_write = False, io_is_sync = True\<rparr>
       \<lparr>reg_bdev = 1, reg_sector = 8, reg_count = 2\<rparr> sample_buffer (\<lambda>_. True) = Ok (None, io1, bios) \<and>
     diff_io_wait (\<lambda>_. None) 0 bios io1 (\<lambda>_ x. of_nat x) sample_buffer = Ok (True, io2, \<lambda>_ x. of_nat x, b') \<and>
     buf_byte b' 3 = of_nat 4099"
proof -
  let ?io = "\<lparr>io_error = None, io_bio_count = 0, io_is_write = False, io_is_sync = True\<rparr>"
  let ?r = "\<lparr>reg_bdev = 1, reg_sector = 8, reg_count = 2\<rparr>"
  let ?disk = "\<lambda>_ x. of_nat x" and ?st = "\<lambda>_. None"
  have ok: "buffer_ok sample_buffer" "io_fits ?r sample_buffer" "io_error ?io = None" "io_bio_count ?io = 0"
    by (simp_all add: buffer_ok_def sample_buffer_def io_fits_def check_page_aligned_def ceil_div_def)
  obtain ret io1 bios where run: "diff_io_do ?io ?r sample_buffer (\<lambda>_. True) = Ok (ret, io1, bios)"
    by (rule diff_io_do_fits [OF ok(2), of ?io "\<lambda>_. True"]) auto
  have all: "ret = None \<and> (\<forall>st bios'. mset bios' = mset bios \<longrightarrow>
    (\<exists>io2 disk' b'. diff_io_wait st 0 bios' io1 ?disk sample_buffer = Ok (True, io2, disk', b') \<and>
      (io_error io2 = None \<longleftrightarrow> (\<forall>i<length bios'. st i = None)) \<and> disk' = ?disk \<and>
      (io_error io2 = None \<longrightarrow> (\<forall>k<1024. buf_byte b' k = of_nat (4096 + k)))))"
    using diff_io_is_flat_copy [OF ok run, of ?disk] by simp
  then obtain io2 disk' b' where
    "diff_io_wait ?st 0 bios io1 ?disk sample_buffer = Ok (True, io2, disk', b')" "disk' = ?disk"
    "io_error io2 = None" "\<forall>k<1024. buf_byte b' k = of_nat (4096 + k)"
    by (metis (no_types, lifting))
  with run all show ?thesis by (intro exI [of _ io1] exI [of _ bios] exI [of _ io2] exI [of _ b']) simp
qed



text \<open>C39: the page count of a request is 16 bits wide.  A request of \<open>2^16\<close> pages counts as none: it
  passes the size check for any buffer and then puts pages into a bio that was allocated for
  none.\<close>

theorem diff_io_page_count_truncated:
  "reg_count r = 524288 \<Longrightarrow> check_page_aligned (reg_sector r) \<Longrightarrow> alloc 0 \<Longrightarrow>
     calc_page_count (unat (reg_count r)) = 0 \<and> diff_io_do io r b alloc = Fault"
proof -
  assume a: "reg_count r = 524288" "check_page_aligned (reg_sector r)" "alloc 0"
  have c: "calc_page_count 524288 = 0" by (simp add: calc_page_count_def ceil_div_def)
  have "length (diff_io_fill 524288 0) = 65536" by (simp add: length_fill ceil_div_def)
  then have "diff_io_build r (io_is_write io) (page_count b) alloc 0 0 0 = Fault"
    by (subst diff_io_build.simps) (simp add: a c bio_max_segs_def Let_def)
  then show ?thesis by (simp add: a c diff_io_do_def)
qed

theorem diff_io_page_count_truncated_witness:
  "diff_io_do \<lparr>io_error = None, io_bio_count = 0, io_is_write = False, io_is_sync = True\<rparr>
     \<lparr>reg_bdev = 1, reg_sector = 0, reg_count = 524288\<rparr> sample_buffer (\<lambda>_. True) = Fault"
  by (rule conjunct2, rule diff_io_page_count_truncated) (simp_all add: check_page_aligned_def)

end
