(* ===== verification/Chunk.thy ===== *)
theory Chunk
  imports Diff_Io
begin

text \<open>
  Chunks, \<^verbatim>\<open>module/chunk.c\<close> and \<^verbatim>\<open>module/chunk.h\<close>, with \<^verbatim>\<open>struct diff_area\<close> of \<^verbatim>\<open>module/diff_area.h\<close>, to
  which every chunk points, and the functions of \<^verbatim>\<open>module/diff_area.c\<close> that the chunk code calls.

  A \<open>cow\<close> state is a difference area with its storage, the disks, the bios in flight (each with the
  number of the chunk whose request it belongs to) and the queued notifications.  A chunk is named by
  its number, its semaphore is a Boolean, and its state word keeps the bits of \<^verbatim>\<open>enum chunk_st\<close>.  An
  operation takes the module parameters and a record of the answers the kernel gives during it.
  Waiting forever for a request without bios counts as a fault.
\<close>

section \<open>Data\<close>

record chunk =
  ck_number :: nat
  ck_sector_count :: nat
  ck_locked :: bool
  ck_state :: u32
  ck_buffer :: "diff_buffer option"
  ck_region :: "diff_region option"
  ck_io :: "diff_io option"

record diff_area = buffer_pool +
  da_kref :: nat
  orig_bdev :: bdev
  orig_dev_id :: dev_t
  chunk_shift :: nat
  chunk_count :: nat
  chunk_map :: "chunk list"
  read_cache_queue :: "nat list"
  read_cache_count :: int
  write_cache_queue :: "nat list"
  write_cache_count :: int
  cache_release_queued :: bool
  corrupt_flag :: bool
  pending_io_count :: int

datatype notify_cb = NotifyLoad | NotifyStore

record cow =
  area :: diff_area
  storage :: diff_storage
  disks :: disk
  inflight :: "(nat \<times> bio) list"
  notify :: "(nat \<times> notify_cb) list"

record cow_params =
  chunk_maximum_in_cache :: int
  free_diff_buffer_pool_size :: int
  diff_storage_minimum :: u32

record answers =
  ans_io :: bool
  ans_bio :: "nat \<Rightarrow> bool"
  ans_buffer :: bool
  ans_page :: "nat \<Rightarrow> page option"
  ans_region :: bool
  ans_low_event :: event_answers
  ans_bad_event :: event_answers
  ans_status :: "nat \<Rightarrow> bio_status"

definition st_bit :: "nat \<Rightarrow> u32" where
  "st_bit k = push_bit k 1"

abbreviation CHUNK_ST_FAILED :: u32 where "CHUNK_ST_FAILED \<equiv> st_bit 0"
abbreviation CHUNK_ST_DIRTY :: u32 where "CHUNK_ST_DIRTY \<equiv> st_bit 1"
abbreviation CHUNK_ST_BUFFER_READY :: u32 where "CHUNK_ST_BUFFER_READY \<equiv> st_bit 2"
abbreviation CHUNK_ST_STORE_READY :: u32 where "CHUNK_ST_STORE_READY \<equiv> st_bit 3"
abbreviation CHUNK_ST_LOADING :: u32 where "CHUNK_ST_LOADING \<equiv> st_bit 4"
abbreviation CHUNK_ST_STORING :: u32 where "CHUNK_ST_STORING \<equiv> st_bit 5"

definition chunk_state_set :: "u32 \<Rightarrow> chunk \<Rightarrow> chunk" where
  "chunk_state_set st c = c\<lparr>ck_state := ck_state c OR st\<rparr>"

definition chunk_state_unset :: "u32 \<Rightarrow> chunk \<Rightarrow> chunk" where
  "chunk_state_unset st c = c\<lparr>ck_state := ck_state c AND NOT st\<rparr>"

definition chunk_state_check :: "u32 \<Rightarrow> chunk \<Rightarrow> bool" where
  "chunk_state_check st c \<longleftrightarrow> ck_state c AND st \<noteq> 0"

abbreviation chunk_of :: "cow \<Rightarrow> nat \<Rightarrow> chunk" where
  "chunk_of s n \<equiv> chunk_map (area s) ! n"

definition upd_area :: "(diff_area \<Rightarrow> diff_area) \<Rightarrow> cow \<Rightarrow> cow" where
  "upd_area f s = s\<lparr>area := f (area s)\<rparr>"

definition upd_chunk :: "nat \<Rightarrow> (chunk \<Rightarrow> chunk) \<Rightarrow> cow \<Rightarrow> cow" where
  "upd_chunk n f s =
     s\<lparr>area := (area s)\<lparr>chunk_map := (chunk_map (area s))[n := f (chunk_of s n)]\<rparr>\<rparr>"

definition diff_area_chunk_sectors :: "diff_area \<Rightarrow> nat" where
  "diff_area_chunk_sectors a = 2 ^ (chunk_shift a - SECTOR_SHIFT)"

definition diff_area_is_corrupted :: "diff_area \<Rightarrow> bool" where
  "diff_area_is_corrupted a = corrupt_flag a"

text \<open>\<^verbatim>\<open>!list_is_first(&chunk->cache_link, &chunk->cache_link)\<close>: the link is in a list.\<close>

definition chunk_in_cache :: "cow \<Rightarrow> nat \<Rightarrow> bool" where
  "chunk_in_cache s n \<longleftrightarrow> n \<in> set (read_cache_queue (area s)) \<or> n \<in> set (write_cache_queue (area s))"

definition up :: "nat \<Rightarrow> cow \<Rightarrow> cow" where
  "up n = upd_chunk n (\<lambda>c. c\<lparr>ck_locked := False\<rparr>)"

definition down :: "nat \<Rightarrow> cow \<Rightarrow> cow" where
  "down n = upd_chunk n (\<lambda>c. c\<lparr>ck_locked := True\<rparr>)"

section \<open>Corruption\<close>

fun errno_nr :: "errno \<Rightarrow> nat" where
  "errno_nr EPERM = 1" | "errno_nr ENOENT = 2" | "errno_nr ESRCH = 3" | "errno_nr EINTR = 4"
| "errno_nr EIO = 5" | "errno_nr EAGAIN = 11" | "errno_nr ENOMEM = 12" | "errno_nr EFAULT = 14"
| "errno_nr EBUSY = 16" | "errno_nr ENODEV = 19" | "errno_nr EINVAL = 22" | "errno_nr ENOTTY = 25"
| "errno_nr ENOSPC = 28" | "errno_nr ENODATA = 61" | "errno_nr ENOBUFS = 105"
| "errno_nr EALREADY = 114" | "errno_nr ERESTARTSYS = 512" | "errno_nr (EOTHER n) = n"

abbreviation MAJOR :: "dev_t \<Rightarrow> nat" where "MAJOR dev \<equiv> dev div 2 ^ 20"
abbreviation MINOR :: "dev_t \<Rightarrow> nat" where "MINOR dev \<equiv> dev mod 2 ^ 20"

definition corrupted_event_data :: "dev_t \<Rightarrow> errno \<Rightarrow> u8 list" where
  "corrupted_event_data dev err =
     le_bytes 4 (of_nat (MAJOR dev) :: u32) @ le_bytes 4 (of_nat (MINOR dev) :: u32) @
     le_bytes 4 (of_nat (errno_nr err) :: u32)"

definition diff_area_event_corrupted :: "answers \<Rightarrow> errno \<Rightarrow> cow \<Rightarrow> cow outcome" where
  "diff_area_event_corrupted ans err s =
     bind_outcome
       (event_gen (ds_event_queue (storage s)) (fst (ans_bad_event ans)) (snd (ans_bad_event ans))
          event_code_corrupted (corrupted_event_data (orig_dev_id (area s)) err) 12)
       (\<lambda>(_, q). Ok (s\<lparr>storage := (storage s)\<lparr>ds_event_queue := q\<rparr>\<rparr>))"

definition diff_area_set_corrupted :: "answers \<Rightarrow> errno \<Rightarrow> cow \<Rightarrow> cow outcome" where
  "diff_area_set_corrupted ans err s =
     (if corrupt_flag (area s) then Ok s
      else diff_area_event_corrupted ans err (upd_area (\<lambda>a. a\<lparr>corrupt_flag := True\<rparr>) s))"

section \<open>Operations\<close>

definition chunk_diff_buffer_release :: "cow_params \<Rightarrow> nat \<Rightarrow> cow \<Rightarrow> cow" where
  "chunk_diff_buffer_release P n s =
     (case ck_buffer (chunk_of s n) of
        None \<Rightarrow> s
      | Some b \<Rightarrow>
          upd_chunk n (\<lambda>c. c\<lparr>ck_buffer := None\<rparr>)
            (upd_area (\<lambda>a. snd (diff_buffer_release (free_diff_buffer_pool_size P) a b))
               (upd_chunk n (chunk_state_unset CHUNK_ST_BUFFER_READY) s)))"

definition chunk_store_failed :: "cow_params \<Rightarrow> answers \<Rightarrow> nat \<Rightarrow> ret \<Rightarrow> cow \<Rightarrow> cow outcome" where
  "chunk_store_failed P ans n error s =
     (let s1 = upd_chunk n (chunk_state_set CHUNK_ST_FAILED) s;
          s2 = chunk_diff_buffer_release P n s1;
          s3 = upd_chunk n (\<lambda>c. c\<lparr>ck_region := None\<rparr>) s2;
          s4 = up n s3
      in case error of None \<Rightarrow> Ok s4 | Some e \<Rightarrow> diff_area_set_corrupted ans e s4)"

text \<open>Starting a request for a chunk: the diff_io is linked to the chunk, the state bit is set, the
  request is counted as pending, and it is taken back when no bio could be submitted.\<close>

definition chunk_start_io ::
  "answers \<Rightarrow> nat \<Rightarrow> bool \<Rightarrow> u32 \<Rightarrow> diff_region option \<Rightarrow> bool \<Rightarrow> cow \<Rightarrow> (ret \<times> cow) outcome" where
  "chunk_start_io ans n is_write st region is_nowait s =
     (case diff_io_new_async is_write (ans_io ans) of
        None \<Rightarrow> Ok (Some (if is_nowait then EAGAIN else ENOMEM), s)
      | Some io \<Rightarrow>
          let s1 = upd_area (\<lambda>a. a\<lparr>pending_io_count := pending_io_count a + 1\<rparr>)
                     (upd_chunk n (\<lambda>c. chunk_state_set st (c\<lparr>ck_io := Some io\<rparr>)) s)
          in case (region, ck_buffer (chunk_of s1 n)) of
               (Some r, Some b) \<Rightarrow>
                 bind_outcome (diff_io_do io r b (ans_bio ans)) (\<lambda>(ret, io', bios).
                   if ret \<noteq> None
                   then Ok (ret, upd_chunk n (\<lambda>c. c\<lparr>ck_io := None\<rparr>)
                                   (upd_area (\<lambda>a. a\<lparr>pending_io_count := pending_io_count a - 1\<rparr>) s1))
                   else Ok (None, (upd_chunk n (\<lambda>c. c\<lparr>ck_io := Some io'\<rparr>) s1)
                                    \<lparr>inflight := inflight s1 @ map (Pair n) bios\<rparr>))
             | _ \<Rightarrow> Fault)"

definition chunk_async_store_diff :: "answers \<Rightarrow> nat \<Rightarrow> bool \<Rightarrow> cow \<Rightarrow> (ret \<times> cow) outcome" where
  "chunk_async_store_diff ans n is_nowait s =
     (if chunk_in_cache s n then Ok (Some EINVAL, s)
      else chunk_start_io ans n True CHUNK_ST_STORING (ck_region (chunk_of s n)) is_nowait s)"

definition chunk_orig_region :: "diff_area \<Rightarrow> chunk \<Rightarrow> diff_region" where
  "chunk_orig_region a c =
     \<lparr>reg_bdev = orig_bdev a,
      reg_sector = of_nat (ck_number c) * of_nat (diff_area_chunk_sectors a),
      reg_count = of_nat (ck_sector_count c)\<rparr>"

definition chunk_async_load_orig :: "answers \<Rightarrow> nat \<Rightarrow> bool \<Rightarrow> cow \<Rightarrow> (ret \<times> cow) outcome" where
  "chunk_async_load_orig ans n is_nowait s =
     chunk_start_io ans n False CHUNK_ST_LOADING (Some (chunk_orig_region (area s) (chunk_of s n)))
       is_nowait s"

definition chunk_schedule_storing ::
  "cow_params \<Rightarrow> answers \<Rightarrow> nat \<Rightarrow> bool \<Rightarrow> cow \<Rightarrow> (ret \<times> cow) outcome" where
  "chunk_schedule_storing P ans n is_nowait s =
     (if chunk_in_cache s n then Ok (Some EINVAL, s)
      else case ck_region (chunk_of s n) of
        Some _ \<Rightarrow> chunk_async_store_diff ans n is_nowait s
      | None \<Rightarrow>
          bind_outcome
            (diff_storage_new_region (diff_storage_minimum P) (ans_region ans) (ans_low_event ans)
               (storage s) (of_nat (diff_area_chunk_sectors (area s))))
            (\<lambda>(res, ds).
               let s1 = s\<lparr>storage := ds\<rparr>
               in case res of
                    Inl e \<Rightarrow> Ok (Some e, s1)
                  | Inr region \<Rightarrow>
                      chunk_async_store_diff ans n is_nowait
                        (upd_chunk n (\<lambda>c. c\<lparr>ck_region := Some region\<rparr>) s1)))"

definition chunk_schedule_caching :: "cow_params \<Rightarrow> answers \<Rightarrow> nat \<Rightarrow> cow \<Rightarrow> cow outcome" where
  "chunk_schedule_caching P ans n s =
     (if chunk_in_cache s n then chunk_store_failed P ans n None s
      else let dirty = chunk_state_check CHUNK_ST_DIRTY (chunk_of s n);
               s1 = upd_area (\<lambda>a. if dirty
                      then a\<lparr>write_cache_queue := write_cache_queue a @ [n],
                             write_cache_count := write_cache_count a + 1\<rparr>
                      else a\<lparr>read_cache_queue := read_cache_queue a @ [n],
                             read_cache_count := read_cache_count a + 1\<rparr>) s;
               in_cache_count = (if dirty then write_cache_count (area s1) else read_cache_count (area s1));
               s2 = up n s1
           in Ok (if in_cache_count > chunk_maximum_in_cache P
                  then upd_area (\<lambda>a. a\<lparr>cache_release_queued := True\<rparr>) s2 else s2))"

definition pending_dec :: "cow \<Rightarrow> cow" where
  "pending_dec = upd_area (\<lambda>a. a\<lparr>pending_io_count := pending_io_count a - 1\<rparr>)"

definition chunk_notify_load :: "cow_params \<Rightarrow> answers \<Rightarrow> nat \<Rightarrow> cow \<Rightarrow> cow outcome" where
  "chunk_notify_load P ans n s =
     (case ck_io (chunk_of s n) of
        None \<Rightarrow> Fault
      | Some io \<Rightarrow>
          let s1 = upd_chunk n (\<lambda>c. c\<lparr>ck_io := None\<rparr>) s
          in bind_outcome
               (case io_error io of
                  Some e \<Rightarrow> chunk_store_failed P ans n (Some e) s1
                | None \<Rightarrow>
                    if chunk_state_check CHUNK_ST_FAILED (chunk_of s1 n) then Ok (up n s1)
                    else if chunk_state_check CHUNK_ST_LOADING (chunk_of s1 n) then
                      (let s2 = upd_chunk n (\<lambda>c. chunk_state_set CHUNK_ST_BUFFER_READY
                                               (chunk_state_unset CHUNK_ST_LOADING c)) s1
                       in bind_outcome (chunk_schedule_storing P ans n False s2) (\<lambda>(ret, s3).
                            if ret \<noteq> None then chunk_store_failed P ans n ret s3 else Ok s3))
                    else Ok (up n s1))
               (\<lambda>s'. Ok (pending_dec s')))"

definition chunk_notify_store :: "cow_params \<Rightarrow> answers \<Rightarrow> nat \<Rightarrow> cow \<Rightarrow> cow outcome" where
  "chunk_notify_store P ans n s =
     (case ck_io (chunk_of s n) of
        None \<Rightarrow> Fault
      | Some io \<Rightarrow>
          let s1 = upd_chunk n (\<lambda>c. c\<lparr>ck_io := None\<rparr>) s
          in bind_outcome
               (case io_error io of
                  Some e \<Rightarrow> chunk_store_failed P ans n (Some e) s1
                | None \<Rightarrow>
                    if chunk_state_check CHUNK_ST_FAILED (chunk_of s1 n) then chunk_store_failed P ans n None s1
                    else if chunk_state_check CHUNK_ST_STORING (chunk_of s1 n) then
                      (let s2 = upd_chunk n (\<lambda>c. chunk_state_set CHUNK_ST_STORE_READY
                                               (chunk_state_unset CHUNK_ST_STORING c)) s1
                       in if chunk_state_check CHUNK_ST_DIRTY (chunk_of s2 n)
                          then Ok (up n (chunk_diff_buffer_release P n
                                 (upd_chunk n (chunk_state_unset CHUNK_ST_DIRTY) s2)))
                          else chunk_schedule_caching P ans n s2)
                    else Ok (up n s1))
               (\<lambda>s'. Ok (pending_dec s')))"

definition chunk_alloc :: "bool \<Rightarrow> nat \<Rightarrow> chunk option" where
  "chunk_alloc kzalloc_ok number =
     (if \<not> kzalloc_ok then None
      else Some \<lparr>ck_number = number, ck_sector_count = 0, ck_locked = False, ck_state = 0,
                 ck_buffer = None, ck_region = None, ck_io = None\<rparr>)"

text \<open>\<^verbatim>\<open>chunk_free\<close> when the semaphore is free: the pool of the area gets the buffer, the chunk itself is
  freed by the caller's removal from the map.\<close>

definition chunk_free :: "cow_params \<Rightarrow> nat \<Rightarrow> cow \<Rightarrow> cow" where
  "chunk_free P n s =
     up n (upd_chunk n (chunk_state_set CHUNK_ST_FAILED)
       (upd_chunk n (\<lambda>c. c\<lparr>ck_region := None\<rparr>)
          (chunk_diff_buffer_release P n (down n s))))"

text \<open>A synchronous request of a chunk, and the two kinds of it.\<close>

definition chunk_sync_read :: "answers \<Rightarrow> nat \<Rightarrow> diff_region option \<Rightarrow> cow \<Rightarrow> (ret \<times> cow) outcome" where
  "chunk_sync_read ans n region s =
     (case diff_io_new_sync False (ans_io ans) of
        None \<Rightarrow> Ok (Some ENOMEM, s)
      | Some io \<Rightarrow>
          (case (region, ck_buffer (chunk_of s n)) of
             (Some r, Some b) \<Rightarrow>
               bind_outcome (diff_io_do io r b (ans_bio ans)) (\<lambda>(ret, io', bios).
                 if ret \<noteq> None then Ok (ret, s)
                 else bind_outcome (diff_io_wait (ans_status ans) 0 bios io' (disks s) b)
                   (\<lambda>(ended, io'', dk, b').
                      if ended
                      then Ok (io_error io'', (upd_chunk n (\<lambda>c. c\<lparr>ck_buffer := Some b'\<rparr>) s)\<lparr>disks := dk\<rparr>)
                      else Fault))
           | _ \<Rightarrow> Fault))"

definition chunk_load_orig :: "answers \<Rightarrow> nat \<Rightarrow> cow \<Rightarrow> (ret \<times> cow) outcome" where
  "chunk_load_orig ans n s = chunk_sync_read ans n (Some (chunk_orig_region (area s) (chunk_of s n))) s"

definition chunk_load_diff :: "answers \<Rightarrow> nat \<Rightarrow> cow \<Rightarrow> (ret \<times> cow) outcome" where
  "chunk_load_diff ans n s = chunk_sync_read ans n (ck_region (chunk_of s n)) s"

end
