(* ===== verification/Cbt_Map.thy ===== *)
theory Cbt_Map
  imports Blk_Prelude
begin

text \<open>
  The change tracking map of a block device, \<^verbatim>\<open>module/cbt_map.c\<close> and \<^verbatim>\<open>module/cbt_map.h\<close>:
  two byte tables with one byte per tracking block. Every function of the file is a
  definition here, with the allocator (\<^verbatim>\<open>__vmalloc\<close>, \<^verbatim>\<open>kzalloc\<close>), the random UUID and
  \<^verbatim>\<open>copy_to_user\<close> as arguments. A NULL table (after a failed reset) is \<open>None\<close>; reading it
  is \<open>Fault\<close>.

  The lemmas show the geometry (the tables cover the device), the invariant and that every
  operation keeps it, which blocks a write marks, and, through the interface
  \<open>change_table\<close>, that the bytes above a snapshot number are exactly the blocks written
  since that snapshot.
\<close>

section \<open>Data and operations\<close>

record cbt_map =
  cbt_kref :: nat
  blk_size_shift :: nat
  blk_count :: u64
  device_capacity :: sector_t
  read_map :: "u8 list option"
  write_map :: "u8 list option"
  snap_number_active :: u64
  snap_number_previous :: u64
  generation_id :: uuid
  is_corrupted :: bool

text \<open>The module parameters \<^verbatim>\<open>tracking_block_minimum_shift\<close> and
  \<^verbatim>\<open>tracking_block_maximum_count\<close> (C \<^verbatim>\<open>int\<close>), and the answers of the kernel to one
  allocation request: both \<^verbatim>\<open>__vmalloc\<close> calls and \<^verbatim>\<open>generate_random_uuid\<close>.\<close>

record cbt_params =
  tracking_block_minimum_shift :: u32
  tracking_block_maximum_count :: u32

record cbt_env =
  vmalloc_read :: bool
  vmalloc_write :: bool
  random_uuid :: uuid

definition cbt_default_params :: cbt_params where
  "cbt_default_params =
     \<lparr>tracking_block_minimum_shift = 16, tracking_block_maximum_count = 2097152\<rparr>"

definition cbt_count_by_shift :: "sector_t \<Rightarrow> nat \<Rightarrow> u64" where
  "cbt_count_by_shift capacity shift =
     (let blk_size = push_bit (shift - SECTOR_SHIFT) 1
      in round_up_u64 capacity blk_size div blk_size)"

text \<open>\<^verbatim>\<open>1ull << (shift - SECTOR_SHIFT)\<close> is defined in C for these shifts only.\<close>

definition shift_defined :: "nat \<Rightarrow> bool" where
  "shift_defined shift \<longleftrightarrow> SECTOR_SHIFT \<le> shift \<and> shift < SECTOR_SHIFT + 64"

function cbt_block_size_loop :: "u64 \<Rightarrow> sector_t \<Rightarrow> nat \<Rightarrow> (nat \<times> u64) option" where
  "cbt_block_size_loop max_count capacity shift =
     (if \<not> shift_defined shift then None
      else let count = cbt_count_by_shift capacity shift
           in if max_count < count then cbt_block_size_loop max_count capacity (2 * shift)
              else Some (shift, count))"
  by pat_completeness auto
termination
  by (relation "measure (\<lambda>(_, _, shift). 73 - shift)") (auto simp: shift_defined_def)

declare cbt_block_size_loop.simps [simp del]

definition cbt_map_calculate_block_size :: "cbt_params \<Rightarrow> cbt_map \<Rightarrow> cbt_map outcome" where
  "cbt_map_calculate_block_size p m =
     (case cbt_block_size_loop (scast (tracking_block_maximum_count p)) (device_capacity m)
             (unat (scast (tracking_block_minimum_shift p) :: u64)) of
        None \<Rightarrow> Fault
      | Some (shift, count) \<Rightarrow> Ok (m\<lparr>blk_size_shift := shift, blk_count := count\<rparr>))"

definition cbt_map_allocate :: "cbt_env \<Rightarrow> cbt_map \<Rightarrow> ret \<times> cbt_map" where
  "cbt_map_allocate env m =
     (if read_map m \<noteq> None \<or> write_map m \<noteq> None then (Some EINVAL, m)
      else if \<not> vmalloc_read env then (Some ENOMEM, m)
      else if \<not> vmalloc_write env then (Some ENOMEM, m)
      else (None, m\<lparr>read_map := Some (replicate (unat (blk_count m)) 0),
                    write_map := Some (replicate (unat (blk_count m)) 0),
                    snap_number_previous := 0,
                    snap_number_active := 1,
                    generation_id := random_uuid env,
                    is_corrupted := False\<rparr>))"

definition cbt_map_deallocate :: "cbt_map \<Rightarrow> cbt_map" where
  "cbt_map_deallocate m = m\<lparr>is_corrupted := False, read_map := None, write_map := None\<rparr>"

definition cbt_map_reset ::
  "cbt_params \<Rightarrow> cbt_env \<Rightarrow> cbt_map \<Rightarrow> sector_t \<Rightarrow> (ret \<times> cbt_map) outcome" where
  "cbt_map_reset p env m capacity =
     bind_outcome
       (cbt_map_calculate_block_size p ((cbt_map_deallocate m)\<lparr>device_capacity := capacity\<rparr>))
       (\<lambda>m'. Ok (cbt_map_allocate env m'))"

text \<open>A destroyed map is \<open>None\<close>: its memory is freed.\<close>

definition cbt_map_destroy :: "cbt_map \<Rightarrow> cbt_map option" where
  "cbt_map_destroy m = (let m' = cbt_map_deallocate m in None)"

definition cbt_map_zero :: cbt_map where
  "cbt_map_zero =
     \<lparr>cbt_kref = 0, blk_size_shift = 0, blk_count = 0, device_capacity = 0,
      read_map = None, write_map = None, snap_number_active = 0, snap_number_previous = 0,
      generation_id = 0, is_corrupted = False\<rparr>"

definition cbt_map_create ::
  "cbt_params \<Rightarrow> cbt_env \<Rightarrow> bool \<Rightarrow> sector_t \<Rightarrow> cbt_map option outcome" where
  "cbt_map_create p env kzalloc_ok nr_sectors =
     (if \<not> kzalloc_ok then Ok None
      else bind_outcome
             (cbt_map_calculate_block_size p (cbt_map_zero\<lparr>device_capacity := nr_sectors\<rparr>))
             (\<lambda>m. case cbt_map_allocate env m of
                    (Some _, m') \<Rightarrow> Ok (cbt_map_destroy m')
                  | (None, m') \<Rightarrow> Ok (Some (m'\<lparr>cbt_kref := 1, is_corrupted := False\<rparr>))))"

definition cbt_map_get :: "cbt_map \<Rightarrow> cbt_map" where
  "cbt_map_get m = m\<lparr>cbt_kref := kref_get (cbt_kref m)\<rparr>"

definition cbt_map_put :: "cbt_map \<Rightarrow> cbt_map option" where
  "cbt_map_put m =
     (case kref_put (cbt_kref m) of
        (n, released) \<Rightarrow> if released then cbt_map_destroy m else Some (m\<lparr>cbt_kref := n\<rparr>))"

text \<open>\<^verbatim>\<open>memset\<close> and \<^verbatim>\<open>memcpy\<close> of \<^verbatim>\<open>blk_count\<close> bytes.\<close>

definition memset0 :: "nat \<Rightarrow> u8 list \<Rightarrow> u8 list" where
  "memset0 n dst = replicate n 0 @ drop n dst"

definition memcpy :: "nat \<Rightarrow> u8 list \<Rightarrow> u8 list \<Rightarrow> u8 list" where
  "memcpy n dst src = take n src @ drop n dst"

definition cbt_map_switch :: "uuid \<Rightarrow> cbt_map \<Rightarrow> cbt_map outcome" where
  "cbt_map_switch new_id m =
     (case (read_map m, write_map m) of
        (Some r, Some w) \<Rightarrow>
          (let m1 = m\<lparr>snap_number_previous := snap_number_active m,
                      snap_number_active := snap_number_active m + 1\<rparr>
           in if snap_number_active m1 = 256
              then Ok (m1\<lparr>snap_number_active := 1,
                          write_map := Some (memset0 (unat (blk_count m)) w),
                          generation_id := new_id\<rparr>)
              else Ok (m1\<lparr>read_map := Some (memcpy (unat (blk_count m)) r w)\<rparr>))
      | _ \<Rightarrow> Fault)"

text \<open>The loop of \<^verbatim>\<open>_cbt_map_set\<close>. The index is a \<^verbatim>\<open>size_t\<close>; the bound check comes before
  the table is read, so the loop ends even when \<open>lst\<close> is the largest index there is.\<close>

function cbt_set_loop ::
  "u64 \<Rightarrow> u64 \<Rightarrow> u64 \<Rightarrow> u8 \<Rightarrow> u8 list \<Rightarrow> (ret \<times> u8 list) outcome" where
  "cbt_set_loop inx lst count snap_number tbl =
     (if \<not> inx \<le> lst then Ok (None, tbl)
      else if count \<le> inx then Ok (Some EINVAL, tbl)
      else if length tbl \<le> unat inx then Fault
      else cbt_set_loop (inx + 1) lst count snap_number
             (if tbl ! unat inx < snap_number then tbl[unat inx := snap_number] else tbl))"
  by pat_completeness auto
termination
proof (relation "measure (\<lambda>(inx, lst, count, _). unat count - unat inx)", goal_cases)
  case (2 inx lst count snap_number tbl)
  then have "inx < count" by (simp add: not_le)
  then show ?case by (auto simp: unat_plus_one_less word_less_nat_alt)
qed simp

declare cbt_set_loop.simps [simp del]

definition cbt_block_first :: "cbt_map \<Rightarrow> sector_t \<Rightarrow> u64" where
  "cbt_block_first m sector_start = drop_bit (blk_size_shift m - SECTOR_SHIFT) sector_start"

definition cbt_block_last :: "cbt_map \<Rightarrow> sector_t \<Rightarrow> sector_t \<Rightarrow> u64" where
  "cbt_block_last m sector_start sector_cnt =
     drop_bit (blk_size_shift m - SECTOR_SHIFT) (sector_start + sector_cnt - 1)"

definition cbt_map_set_range ::
  "cbt_map \<Rightarrow> sector_t \<Rightarrow> sector_t \<Rightarrow> u8 \<Rightarrow> u8 list option \<Rightarrow> (ret \<times> u8 list option) outcome" where
  "cbt_map_set_range m sector_start sector_cnt snap_number tbl =
     bind_outcome
       (cbt_set_loop (cbt_block_first m sector_start) (cbt_block_last m sector_start sector_cnt)
          (blk_count m) snap_number (case tbl of None \<Rightarrow> [] | Some xs \<Rightarrow> xs))
       (\<lambda>(res, xs). Ok (res, map_option (\<lambda>_. xs) tbl))"

definition cbt_map_set :: "cbt_map \<Rightarrow> sector_t \<Rightarrow> sector_t \<Rightarrow> (ret \<times> cbt_map) outcome" where
  "cbt_map_set m sector_start sector_cnt =
     (if is_corrupted m then Ok (Some EINVAL, m)
      else bind_outcome
             (cbt_map_set_range m sector_start sector_cnt (ucast (snap_number_active m)) (write_map m))
             (\<lambda>(res, w).
                Ok (res, m\<lparr>write_map := w,
                           is_corrupted := (if res \<noteq> None then True else is_corrupted m)\<rparr>)))"

definition cbt_map_set_both :: "cbt_map \<Rightarrow> sector_t \<Rightarrow> sector_t \<Rightarrow> (ret \<times> cbt_map) outcome" where
  "cbt_map_set_both m sector_start sector_cnt =
     (if is_corrupted m then Ok (Some EINVAL, m)
      else bind_outcome
             (cbt_map_set_range m sector_start sector_cnt (ucast (snap_number_active m)) (write_map m))
             (\<lambda>(res, w).
                if res \<noteq> None then Ok (res, m\<lparr>write_map := w\<rparr>)
                else bind_outcome
                       (cbt_map_set_range m sector_start sector_cnt
                          (ucast (snap_number_previous m)) (read_map m))
                       (\<lambda>(res', r). Ok (res', m\<lparr>write_map := w, read_map := r\<rparr>))))"

text \<open>\<^verbatim>\<open>cbt_map_read_to_user\<close>: \<open>not_copied\<close> is what \<^verbatim>\<open>copy_to_user\<close> answers. The result is
  the error, or the bytes that reached the user's buffer (from its start) and the count
  returned.\<close>

definition cbt_map_read_to_user ::
  "cbt_map \<Rightarrow> u64 \<Rightarrow> u64 \<Rightarrow> u64 \<Rightarrow> (errno + (u8 list \<times> u64)) outcome" where
  "cbt_map_read_to_user m offset req_size not_copied =
     (let real_size = min (blk_count m - offset) req_size
      in if is_corrupted m then Ok (Inl EFAULT)
         else case read_map m of
           None \<Rightarrow> Fault
         | Some r \<Rightarrow>
             if length r < unat real_size then Fault
             else let left_size = not_copied in
               if left_size = 0 then Ok (Inr (take (unat real_size) r, real_size))
               else Ok (Inr (take (unat (real_size - left_size)) r, real_size - left_size)))"

fun cbt_map_mark_dirty_blocks ::
  "cbt_map \<Rightarrow> (u64 \<times> u64) list \<Rightarrow> (ret \<times> cbt_map) outcome" where
  "cbt_map_mark_dirty_blocks m [] = Ok (None, m)"
| "cbt_map_mark_dirty_blocks m ((sector_offset, sector_count) # ranges) =
     bind_outcome (cbt_map_set_both m sector_offset sector_count)
       (\<lambda>(ret, m'). if ret \<noteq> None then Ok (ret, m') else cbt_map_mark_dirty_blocks m' ranges)"

text \<open>\<^verbatim>\<open>1 << blk_size_shift\<close> shifts a 32-bit \<^verbatim>\<open>int\<close>: undefined from 31 on.\<close>

definition cbt_map_blk_size :: "cbt_map \<Rightarrow> u64 outcome" where
  "cbt_map_blk_size m =
     (if blk_size_shift m < 31 then Ok (push_bit (blk_size_shift m) 1) else Fault)"

definition cbt_map_get_sector_state :: "cbt_map \<Rightarrow> sector_t \<Rightarrow> (errno + (u8 \<times> u8)) outcome" where
  "cbt_map_get_sector_state m sector =
     (let cbt_block = drop_bit (blk_size_shift m - SECTOR_SHIFT) sector
      in if blk_count m \<le> cbt_block then Ok (Inl EINVAL)
         else if is_corrupted m then Ok (Inl EINVAL)
         else case (read_map m, write_map m) of
           (Some r, Some w) \<Rightarrow>
             if unat cbt_block < length r \<and> unat cbt_block < length w
             then Ok (Inr (r ! unat cbt_block, w ! unat cbt_block)) else Fault
         | _ \<Rightarrow> Fault)"

section \<open>What the set loop does\<close>

text \<open>The reference: every block of the range takes the larger of its byte and the number.\<close>

definition cbt_mark :: "nat \<Rightarrow> nat \<Rightarrow> u8 \<Rightarrow> u8 list \<Rightarrow> u8 list" where
  "cbt_mark first lst snap_number tbl =
     map (\<lambda>b. if first \<le> b \<and> b \<le> lst then max (tbl ! b) snap_number else tbl ! b)
       [0..<length tbl]"

lemma length_cbt_mark [simp]: "length (cbt_mark f l n tbl) = length tbl"
  by (simp add: cbt_mark_def)

lemma nth_cbt_mark [simp]:
  "b < length tbl \<Longrightarrow>
     cbt_mark f l n tbl ! b = (if f \<le> b \<and> b \<le> l then max (tbl ! b) n else tbl ! b)"
  by (simp add: cbt_mark_def)

lemma cbt_mark_empty: "l < f \<or> length tbl \<le> f \<Longrightarrow> cbt_mark f l n tbl = tbl"
  by (rule nth_equalityI) auto

lemma cbt_mark_step:
  assumes "f \<le> l" "f < length tbl"
  shows "cbt_mark (Suc f) l n (if tbl ! f < n then tbl[f := n] else tbl) = cbt_mark f l n tbl"
proof (rule nth_equalityI)
  fix b assume "b < length (cbt_mark (Suc f) l n (if tbl ! f < n then tbl[f := n] else tbl))"
  then have b: "b < length tbl" by (auto split: if_splits)
  consider "b < f" | "b = f" | "f < b" by linarith
  then show "cbt_mark (Suc f) l n (if tbl ! f < n then tbl[f := n] else tbl) ! b = cbt_mark f l n tbl ! b"
    by cases (use assms b in \<open>auto simp: max_def not_less\<close>)
qed auto

lemma cbt_set_loop_eq:
  "length tbl = unat count \<Longrightarrow>
     cbt_set_loop inx lst count n tbl =
       Ok (if inx \<le> lst \<and> count \<le> lst then Some EINVAL else None,
           cbt_mark (unat inx) (unat lst) n tbl)"
proof (induction inx lst count n tbl rule: cbt_set_loop.induct)
  case (1 inx lst count n tbl)
  show ?case
  proof (cases "inx \<le> lst \<and> inx < count")
    case True
    let ?tbl = "if tbl ! unat inx < n then tbl[unat inx := n] else tbl"
    from True have lt: "unat inx < length tbl" and le: "unat inx \<le> unat lst"
      using "1.prems" by (simp_all add: word_less_nat_alt word_le_nat_alt)
    have nc: "\<not> count \<le> inx" using True by (simp add: not_le)
    have suc: "unat (inx + 1) = Suc (unat inx)"
      using True unat_plus_one_less [of inx count] by simp
    have "cbt_set_loop inx lst count n tbl = cbt_set_loop (inx + 1) lst count n ?tbl"
      using True lt nc by (simp add: cbt_set_loop.simps [of inx])
    also have "\<dots> = Ok (if inx + 1 \<le> lst \<and> count \<le> lst then Some EINVAL else None,
           cbt_mark (unat (inx + 1)) (unat lst) n ?tbl)"
      using True lt nc "1.prems" by (intro "1.IH") auto
    also have "(inx + 1 \<le> lst \<and> count \<le> lst) = (inx \<le> lst \<and> count \<le> lst)"
      using True suc by (auto simp: word_le_nat_alt word_less_nat_alt)
    finally show ?thesis
      using cbt_mark_step [OF le lt, of n] by (simp only: suc)
  next
    case False
    then show ?thesis
      using "1.prems" 
      by (auto simp: cbt_set_loop.simps [of inx] cbt_mark_empty not_le not_less word_less_nat_alt word_le_nat_alt)
  qed
qed
section \<open>The invariant\<close>

definition cbt_tables_ok :: "cbt_map \<Rightarrow> u8 list \<Rightarrow> u8 list \<Rightarrow> bool" where
  "cbt_tables_ok m r w \<longleftrightarrow>
     length r = unat (blk_count m) \<and> length w = unat (blk_count m) \<and>
     (\<forall>x\<in>set r. unat x \<le> unat (snap_number_previous m)) \<and>
     (\<forall>x\<in>set w. unat x \<le> unat (snap_number_active m))"

definition cbt_wf :: "cbt_map \<Rightarrow> bool" where
  "cbt_wf m \<longleftrightarrow>
     shift_defined (blk_size_shift m) \<and>
     unat (device_capacity m) \<le> unat (blk_count m) * 2 ^ (blk_size_shift m - SECTOR_SHIFT) \<and>
     1 \<le> unat (snap_number_active m) \<and> unat (snap_number_active m) \<le> 255 \<and>
     unat (snap_number_previous m) \<le> 255 \<and>
     (case (read_map m, write_map m) of (Some r, Some w) \<Rightarrow> cbt_tables_ok m r w | _ \<Rightarrow> False)"

lemma cbt_wf_tables:
  assumes "cbt_wf m"
  obtains r w where "read_map m = Some r" "write_map m = Some w" "cbt_tables_ok m r w"
  using assms by (auto simp: cbt_wf_def split: option.splits)

lemma unat_ucast_u8: "unat (x::u64) \<le> 255 \<Longrightarrow> unat (ucast x :: u8) = unat x"
  by (simp add: unsigned_ucast_eq take_bit_eq_mod)

lemma unat_max_u8: "unat (max x y) = max (unat x) (unat (y::u8))"
  by (simp add: max_def word_le_nat_alt)

lemma cbt_mark_le:
  assumes "\<forall>x\<in>set tbl. unat x \<le> k" "unat n \<le> k"
  shows "\<forall>x\<in>set (cbt_mark f l n tbl). unat x \<le> k"
proof -
  have "unat (cbt_mark f l n tbl ! b) \<le> k" if "b < length tbl" for b
    using assms nth_mem [OF that] by (auto simp: that unat_max_u8)
  then show ?thesis by (metis in_set_conv_nth length_cbt_mark)
qed

lemma cbt_map_set_range_eq:
  assumes "length tbl = unat (blk_count m)"
  shows "cbt_map_set_range m start cnt n (Some tbl) =
     Ok (if cbt_block_first m start \<le> cbt_block_last m start cnt \<and>
            blk_count m \<le> cbt_block_last m start cnt then Some EINVAL else None,
         Some (cbt_mark (unat (cbt_block_first m start)) (unat (cbt_block_last m start cnt)) n tbl))"
  using assms by (simp add: cbt_map_set_range_def cbt_set_loop_eq)

text \<open>The state after marking a range in both tables: what the set operations compute.\<close>

abbreviation cbt_range_bad :: "cbt_map \<Rightarrow> sector_t \<Rightarrow> sector_t \<Rightarrow> bool" where
  "cbt_range_bad m start cnt \<equiv>
     cbt_block_first m start \<le> cbt_block_last m start cnt \<and>
     blk_count m \<le> cbt_block_last m start cnt"

abbreviation cbt_mark_range :: "cbt_map \<Rightarrow> sector_t \<Rightarrow> sector_t \<Rightarrow> u64 \<Rightarrow> u8 list \<Rightarrow> u8 list" where
  "cbt_mark_range m start cnt num tbl \<equiv>
     cbt_mark (unat (cbt_block_first m start)) (unat (cbt_block_last m start cnt)) (ucast num) tbl"

lemma cbt_map_set_eq:
  assumes "\<not> is_corrupted m" "write_map m = Some w" "length w = unat (blk_count m)"
  shows "cbt_map_set m start cnt =
     Ok (if cbt_range_bad m start cnt then Some EINVAL else None,
         m\<lparr>write_map := Some (cbt_mark_range m start cnt (snap_number_active m) w),
           is_corrupted := cbt_range_bad m start cnt\<rparr>)"
  using assms by (simp add: cbt_map_set_def cbt_map_set_range_eq)

lemma cbt_map_set_both_eq:
  assumes "\<not> is_corrupted m" "write_map m = Some w" "length w = unat (blk_count m)"
    and "read_map m = Some r" "length r = unat (blk_count m)"
  shows "cbt_map_set_both m start cnt =
     Ok (if cbt_range_bad m start cnt
         then (Some EINVAL, m\<lparr>write_map := Some (cbt_mark_range m start cnt (snap_number_active m) w)\<rparr>)
         else (None, m\<lparr>write_map := Some (cbt_mark_range m start cnt (snap_number_active m) w),
                       read_map := Some (cbt_mark_range m start cnt (snap_number_previous m) r)\<rparr>))"
  using assms by (simp add: cbt_map_set_both_def cbt_map_set_range_eq)

lemma cbt_tables_ok_mark:
  assumes "cbt_tables_ok m r w" "unat (snap_number_active m) \<le> 255"
    "unat (snap_number_previous m) \<le> 255"
  shows "cbt_tables_ok m r (cbt_mark_range m start cnt (snap_number_active m) w)"
    and "cbt_tables_ok m (cbt_mark_range m start cnt (snap_number_previous m) r) w"
  using assms unfolding cbt_tables_ok_def
  by (intro conjI cbt_mark_le; simp add: unat_ucast_u8)+

lemma cbt_tables_ok_simps [simp]:
  "cbt_tables_ok (m\<lparr>is_corrupted := c\<rparr>) = cbt_tables_ok m"
  "cbt_tables_ok (m\<lparr>cbt_kref := k\<rparr>) = cbt_tables_ok m"
  "cbt_tables_ok (m\<lparr>read_map := ro\<rparr>) = cbt_tables_ok m"
  "cbt_tables_ok (m\<lparr>write_map := wo\<rparr>) = cbt_tables_ok m"
  by (simp_all add: cbt_tables_ok_def fun_eq_iff)

lemma cbt_wf_simps [simp]:
  "cbt_wf (m\<lparr>is_corrupted := c\<rparr>) = cbt_wf m"
  "cbt_wf (m\<lparr>cbt_kref := k\<rparr>) = cbt_wf m"
  by (simp_all add: cbt_wf_def split: option.split)

lemma cbt_wf_update_maps:
  assumes "cbt_wf m" "cbt_tables_ok m r w"
  shows "cbt_wf (m\<lparr>read_map := Some r, write_map := Some w\<rparr>)"
  using assms by (auto simp: cbt_wf_def)

lemma cbt_wf_bounds:
  "cbt_wf m \<Longrightarrow> unat (snap_number_active m) \<le> 255"
  "cbt_wf m \<Longrightarrow> unat (snap_number_previous m) \<le> 255"
  by (simp_all add: cbt_wf_def)

lemma cbt_map_set_wf:
  assumes wf: "cbt_wf m" and run: "cbt_map_set m start cnt = Ok (res, m')"
  shows "cbt_wf m'"
proof -
  obtain r w where rw: "read_map m = Some r" "write_map m = Some w" "cbt_tables_ok m r w"
    using wf by (rule cbt_wf_tables)
  let ?w = "cbt_mark_range m start cnt (snap_number_active m) w"
  have "cbt_wf (m\<lparr>read_map := Some r, write_map := Some ?w\<rparr>)"
    using cbt_wf_update_maps [OF wf] cbt_tables_ok_mark(1) [OF rw(3)] cbt_wf_bounds [OF wf] by blast
  then have ok: "cbt_wf (m\<lparr>write_map := Some ?w\<rparr>)" using rw(1) by (simp add: cbt_wf_def)
  show ?thesis
  proof (cases "is_corrupted m")
    case True
    with run wf show ?thesis by (simp add: cbt_map_set_def)
  next
    case False
    then have "m' = m\<lparr>write_map := Some ?w, is_corrupted := cbt_range_bad m start cnt\<rparr>"
      using run rw cbt_map_set_eq [OF False rw(2)] by (simp add: cbt_tables_ok_def)
    with ok show ?thesis by simp
  qed
qed

lemma cbt_map_set_total:
  assumes "cbt_wf m"
  shows "\<exists>res m'. cbt_map_set m start cnt = Ok (res, m')"
proof (cases "is_corrupted m")
  case False
  obtain r w where "read_map m = Some r" "write_map m = Some w" "cbt_tables_ok m r w"
    using assms by (rule cbt_wf_tables)
  then show ?thesis using cbt_map_set_eq [OF False] by (simp add: cbt_tables_ok_def)
qed (simp add: cbt_map_set_def)

lemma cbt_map_set_both_wf:
  assumes wf: "cbt_wf m"
  shows "\<exists>res m'. cbt_map_set_both m start cnt = Ok (res, m') \<and> cbt_wf m'"
proof (cases "is_corrupted m")
  case True
  with wf show ?thesis by (simp add: cbt_map_set_both_def)
next
  case False
  obtain r w where rw: "read_map m = Some r" "write_map m = Some w" "cbt_tables_ok m r w"
    using wf by (rule cbt_wf_tables)
  let ?w = "cbt_mark_range m start cnt (snap_number_active m) w"
  let ?r = "cbt_mark_range m start cnt (snap_number_previous m) r"
  have 1: "cbt_tables_ok m r ?w" "cbt_tables_ok m ?r ?w"
    using cbt_tables_ok_mark [OF rw(3)] cbt_tables_ok_mark(2) [OF cbt_tables_ok_mark(1) [OF rw(3)]]
      cbt_wf_bounds [OF wf] by blast+
  then have ok: "cbt_wf (m\<lparr>write_map := Some ?w\<rparr>)"
    "cbt_wf (m\<lparr>write_map := Some ?w, read_map := Some ?r\<rparr>)"
    using rw(1) cbt_wf_update_maps [OF wf] by (auto simp: cbt_wf_def)
  then show ?thesis
    using rw cbt_map_set_both_eq [OF False rw(2) _ rw(1)] by (simp add: cbt_tables_ok_def)
qed

lemma cbt_map_mark_dirty_blocks_wf:
  "cbt_wf m \<Longrightarrow> \<exists>res m'. cbt_map_mark_dirty_blocks m ranges = Ok (res, m') \<and> cbt_wf m'"
proof (induction ranges arbitrary: m)
  case (Cons a ranges)
  obtain off cnt where a: "a = (off, cnt)" by (cases a)
  from cbt_map_set_both_wf [OF Cons.prems, of off cnt] obtain res m'
    where s: "cbt_map_set_both m off cnt = Ok (res, m')" "cbt_wf m'" by blast
  with Cons.IH [OF s(2)] a show ?case by auto
qed simp

lemma cbt_map_switch_wf:
  assumes wf: "cbt_wf m"
  shows "\<exists>m'. cbt_map_switch g m = Ok m' \<and> cbt_wf m'"
proof -
  obtain r w where rw: "read_map m = Some r" "write_map m = Some w" "cbt_tables_ok m r w"
    using wf by (rule cbt_wf_tables)
  have b: "1 \<le> unat (snap_number_active m)" "unat (snap_number_active m) \<le> 255"
    using wf by (simp_all add: cbt_wf_def)
  have s: "unat (snap_number_active m + 1) = unat (snap_number_active m) + 1"
    using b by (simp add: unat_word_ariths)
  show ?thesis
  proof (cases "snap_number_active m + 1 = 256")
    case True
    then have "unat (snap_number_active m) = 255" using s by simp
    with True rw wf show ?thesis
      by (auto simp: cbt_map_switch_def cbt_wf_def cbt_tables_ok_def memset0_def)
  next
    case False
    then have "unat (snap_number_active m + 1) \<noteq> unat (256::u64)"
      by (simp only: word_unat_eq_iff not_False_eq_True)
    then have "unat (snap_number_active m) < 255" using b s by simp
    with False rw wf s show ?thesis
      by (auto simp: cbt_map_switch_def cbt_wf_def cbt_tables_ok_def memcpy_def)
  qed
qed


section \<open>Geometry\<close>

lemma cbt_count_by_shift_eq:
  assumes "shift_defined shift" "unat cap + 2 ^ (shift - SECTOR_SHIFT) \<le> 2 ^ 64 - 1"
  shows "unat (cbt_count_by_shift cap shift) = ceil_div (unat cap) (2 ^ (shift - SECTOR_SHIFT))"
proof -
  have k: "shift - SECTOR_SHIFT < 64" using assms(1) by (auto simp: shift_defined_def)
  have "unat (round_up_u64 cap (2 ^ (shift - SECTOR_SHIFT)) div 2 ^ (shift - SECTOR_SHIFT)) =
        ceil_div (unat cap) (2 ^ (shift - SECTOR_SHIFT)) * 2 ^ (shift - SECTOR_SHIFT)
          div 2 ^ (shift - SECTOR_SHIFT)"
    using unat_round_up_div [OF k assms(2)] k by (simp only: unat_div_distrib) (simp add: unat_two_power)
  then show ?thesis by (simp add: cbt_count_by_shift_def Let_def push_bit_eq_mult)
qed

lemma cbt_block_size_loop_Some:
  "cbt_block_size_loop max_count cap shift = Some (s, c) \<Longrightarrow>
     shift_defined s \<and> c = cbt_count_by_shift cap s \<and> c \<le> max_count \<and> (\<exists>j. s = 2 ^ j * shift)"
proof (induction max_count cap shift rule: cbt_block_size_loop.induct)
  case (1 max_count cap shift)
  show ?case
  proof (cases "shift_defined shift \<and> max_count < cbt_count_by_shift cap shift")
    case True
    then have "cbt_block_size_loop max_count cap (2 * shift) = Some (s, c)"
      using "1.prems" by (simp add: cbt_block_size_loop.simps [of max_count cap shift])
    then have "shift_defined s \<and> c = cbt_count_by_shift cap s \<and> c \<le> max_count \<and>
        (\<exists>j. s = 2 ^ j * (2 * shift))"
      using True by (intro "1.IH") auto
    then show ?thesis by (metis mult.assoc power_Suc2)
  next
    case False
    then have "shift_defined shift" "s = shift" "c = cbt_count_by_shift cap s" "c \<le> max_count"
      using "1.prems"
      by (auto simp: cbt_block_size_loop.simps [of max_count cap shift] Let_def split: if_splits)
    then show ?thesis by (metis mult_1 power_0)
  qed
qed

text \<open>With the default parameters the loop stops, for every capacity a block device can have.\<close>

lemma cbt_block_size_loop_default:
  assumes "unat cap < 2 ^ 55"
  shows "\<exists>s c. cbt_block_size_loop 2097152 cap 16 = Some (s, c) \<and> s \<in> {16, 32, 64}"
proof -
  have d: "shift_defined 16" "shift_defined 32" "shift_defined 64"
    by (simp_all add: shift_defined_def)
  have "unat (cbt_count_by_shift cap 64) = ceil_div (unat cap) (2 ^ 55)"
    using cbt_count_by_shift_eq [OF d(3), of cap] assms by simp
  also have "\<dots> \<le> 1"
    using assms by (cases "unat cap = 0") (simp_all add: ceil_div_pos)
  finally have "\<not> 2097152 < cbt_count_by_shift cap 64"
    by (simp add: word_less_nat_alt)
  then show ?thesis
    by (simp add: cbt_block_size_loop.simps [of _ _ 16] cbt_block_size_loop.simps [of _ _ 32]
        cbt_block_size_loop.simps [of _ _ 64] d Let_def)
qed

lemma cbt_geometry_covers:
  assumes "shift_defined s" "unat cap < 2 ^ 55" "c = cbt_count_by_shift cap s" "s \<le> 64"
  shows "unat cap \<le> unat c * 2 ^ (s - SECTOR_SHIFT)"
proof -
  have "(2::nat) ^ (s - SECTOR_SHIFT) \<le> 2 ^ 55"
    using assms(4) by (intro power_increasing) simp_all
  then have "unat c = ceil_div (unat cap) (2 ^ (s - SECTOR_SHIFT))"
    using cbt_count_by_shift_eq [OF assms(1)] assms(2,3) by simp
  then show ?thesis using ceil_div_covers [of "2 ^ (s - SECTOR_SHIFT)" "unat cap"] by simp
qed


lemma cbt_calculate_default:
  assumes "unat (device_capacity m) < 2 ^ 55"
  shows "\<exists>s c. cbt_map_calculate_block_size cbt_default_params m =
            Ok (m\<lparr>blk_size_shift := s, blk_count := c\<rparr>) \<and>
          s \<in> {16, 32, 64} \<and> unat c \<le> 2097152 \<and>
          unat c = ceil_div (unat (device_capacity m)) (2 ^ (s - SECTOR_SHIFT))"
proof -
  obtain s c where sc: "cbt_block_size_loop 2097152 (device_capacity m) 16 = Some (s, c)"
      "s \<in> {16, 32, 64}"
    using cbt_block_size_loop_default [OF assms] by blast
  note p = cbt_block_size_loop_Some [OF sc(1)]
  have "(2::nat) ^ (s - SECTOR_SHIFT) \<le> 2 ^ 55"
    using sc(2) by (intro power_increasing) auto
  then have "unat c = ceil_div (unat (device_capacity m)) (2 ^ (s - SECTOR_SHIFT))"
    using cbt_count_by_shift_eq [of s "device_capacity m"] p assms by simp
  then show ?thesis
    using sc p by (auto simp: cbt_map_calculate_block_size_def cbt_default_params_def word_le_nat_alt)
qed

lemma cbt_map_allocate_wf:
  assumes "read_map m = None" "write_map m = None" "vmalloc_read env" "vmalloc_write env"
    and "shift_defined (blk_size_shift m)"
    and "unat (device_capacity m) \<le> unat (blk_count m) * 2 ^ (blk_size_shift m - SECTOR_SHIFT)"
    and "cbt_map_allocate env m = (res, m')"
  shows "res = None \<and> cbt_wf m' \<and> \<not> is_corrupted m' \<and> generation_id m' = random_uuid env \<and>
         snap_number_previous m' = 0 \<and> snap_number_active m' = 1 \<and>
         read_map m' = Some (replicate (unat (blk_count m')) 0) \<and>
         write_map m' = Some (replicate (unat (blk_count m')) 0) \<and>
         blk_count m' = blk_count m \<and> blk_size_shift m' = blk_size_shift m \<and>
         device_capacity m' = device_capacity m"
  using assms by (auto simp: cbt_map_allocate_def cbt_wf_def cbt_tables_ok_def)

lemma cbt_map_reset_wf:
  assumes "unat cap < 2 ^ 55" "vmalloc_read env" "vmalloc_write env"
  shows "\<exists>m'. cbt_map_reset cbt_default_params env m cap = Ok (None, m') \<and> cbt_wf m' \<and>
           \<not> is_corrupted m' \<and> device_capacity m' = cap \<and> generation_id m' = random_uuid env \<and>
           snap_number_active m' = 1"
proof -
  let ?m = "(cbt_map_deallocate m)\<lparr>device_capacity := cap\<rparr>"
  obtain s c where sc: "cbt_map_calculate_block_size cbt_default_params ?m =
        Ok (?m\<lparr>blk_size_shift := s, blk_count := c\<rparr>)" "s \<in> {16, 32, 64}"
      "unat c = ceil_div (unat cap) (2 ^ (s - SECTOR_SHIFT))"
    using cbt_calculate_default [of ?m] assms(1) by auto
  let ?m1 = "?m\<lparr>blk_size_shift := s, blk_count := c\<rparr>"
  obtain res m' where a: "cbt_map_allocate env ?m1 = (res, m')" by fastforce
  have "shift_defined s" using sc(2) by (auto simp: shift_defined_def)
  moreover have "unat cap \<le> unat c * 2 ^ (s - SECTOR_SHIFT)"
    using ceil_div_covers [of "2 ^ (s - SECTOR_SHIFT)" "unat cap"] sc(3) by simp
  ultimately have "res = None \<and> cbt_wf m' \<and> \<not> is_corrupted m' \<and> generation_id m' = random_uuid env \<and>
      snap_number_active m' = 1 \<and> device_capacity m' = cap"
    using cbt_map_allocate_wf [OF _ _ assms(2,3) _ _ a] by (simp add: cbt_map_deallocate_def)
  then show ?thesis using sc(1) a by (simp add: cbt_map_reset_def)
qed

lemma cbt_map_create_wf:
  assumes "unat cap < 2 ^ 55" "vmalloc_read env" "vmalloc_write env"
  shows "\<exists>m. cbt_map_create cbt_default_params env True cap = Ok (Some m) \<and> cbt_wf m \<and>
           \<not> is_corrupted m \<and> device_capacity m = cap \<and> unat (blk_count m) \<le> 2097152 \<and>
           blk_size_shift m \<in> {16, 32, 64} \<and>
           unat (blk_count m) = ceil_div (unat cap) (2 ^ (blk_size_shift m - SECTOR_SHIFT)) \<and>
           snap_number_active m = 1 \<and> write_map m = Some (replicate (unat (blk_count m)) 0)"
proof -
  let ?m = "cbt_map_zero\<lparr>device_capacity := cap\<rparr>"
  obtain s c where sc: "cbt_map_calculate_block_size cbt_default_params ?m =
        Ok (?m\<lparr>blk_size_shift := s, blk_count := c\<rparr>)" "s \<in> {16, 32, 64}" "unat c \<le> 2097152"
      "unat c = ceil_div (unat cap) (2 ^ (s - SECTOR_SHIFT))"
    using cbt_calculate_default [of ?m] assms(1) by auto
  let ?m1 = "?m\<lparr>blk_size_shift := s, blk_count := c\<rparr>"
  obtain res m' where a: "cbt_map_allocate env ?m1 = (res, m')" by fastforce
  have "shift_defined s" using sc(2) by (auto simp: shift_defined_def)
  moreover have "unat cap \<le> unat c * 2 ^ (s - SECTOR_SHIFT)"
    using ceil_div_covers [of "2 ^ (s - SECTOR_SHIFT)" "unat cap"] sc(4) by simp
  ultimately have "res = None \<and> cbt_wf m' \<and> \<not> is_corrupted m' \<and> device_capacity m' = cap \<and>
      blk_count m' = c \<and> blk_size_shift m' = s \<and> snap_number_active m' = 1 \<and>
      write_map m' = Some (replicate (unat (blk_count m')) 0)"
    using cbt_map_allocate_wf [OF _ _ assms(2,3) _ _ a] by (simp add: cbt_map_zero_def)
  then show ?thesis using sc a by (simp add: cbt_map_create_def)
qed

section \<open>Which blocks a write marks\<close>

lemma div_range_iff:
  fixes bs :: nat
  assumes "0 < bs" "0 < cnt"
  shows "(\<exists>x. start \<le> x \<and> x < start + cnt \<and> x div bs = b) \<longleftrightarrow>
         start div bs \<le> b \<and> b \<le> (start + cnt - 1) div bs"
proof
  assume "\<exists>x. start \<le> x \<and> x < start + cnt \<and> x div bs = b"
  then obtain x where x: "start \<le> x" "x \<le> start + cnt - 1" "x div bs = b"
    using assms(2) by (metis Suc_diff_1 add_gr_0 less_Suc_eq_le)
  then show "start div bs \<le> b \<and> b \<le> (start + cnt - 1) div bs"
    using div_le_mono [OF x(1)] div_le_mono [OF x(2)] by auto
next
  assume b: "start div bs \<le> b \<and> b \<le> (start + cnt - 1) div bs"
  show "\<exists>x. start \<le> x \<and> x < start + cnt \<and> x div bs = b"
  proof (cases "start div bs = b")
    case True
    then show ?thesis using assms(2) by (intro exI [of _ start]) simp
  next
    case False
    with b have "start div bs < b" by simp
    then have "start < b * bs" using assms(1) by (simp add: div_less_iff_less_mult)
    moreover have "b * bs \<le> start + cnt - 1"
      using b assms(1) by (metis div_times_less_eq_dividend le_trans mult_le_mono1)
    ultimately show ?thesis using assms by (intro exI [of _ "b * bs"]) auto
  qed
qed

lemma cbt_block_nat:
  assumes "unat start + unat cnt < 2 ^ 64" "0 < unat cnt"
  shows "unat (cbt_block_first m start) = unat start div 2 ^ (blk_size_shift m - SECTOR_SHIFT)"
    and "unat (cbt_block_last m start cnt) =
           (unat start + unat cnt - 1) div 2 ^ (blk_size_shift m - SECTOR_SHIFT)"
proof -
  have "unat (start + cnt) = unat start + unat cnt"
    using assms(1) by (simp add: unat_word_ariths)
  moreover from this have "start + cnt \<noteq> 0" using assms(2) by (metis add_is_0 less_irrefl unat_0)
  ultimately have "unat (start + cnt - 1) = unat start + unat cnt - 1"
    by (simp add: unat_minus_one)
  then show "unat (cbt_block_last m start cnt) =
           (unat start + unat cnt - 1) div 2 ^ (blk_size_shift m - SECTOR_SHIFT)"
    by (simp only: cbt_block_last_def unat_drop_bit_div)
qed (simp add: cbt_block_first_def unat_drop_bit_div)


text \<open>A range the device has: not empty, and within the capacity.\<close>

definition cbt_in_range :: "cbt_map \<Rightarrow> sector_t \<times> sector_t \<Rightarrow> bool" where
  "cbt_in_range m w \<longleftrightarrow> 0 < unat (snd w) \<and> unat (fst w) + unat (snd w) \<le> unat (device_capacity m)"

definition cbt_blocks :: "cbt_map \<Rightarrow> sector_t \<times> sector_t \<Rightarrow> nat set" where
  "cbt_blocks m w = {unat (fst w) div 2 ^ (blk_size_shift m - SECTOR_SHIFT) ..
                     (unat (fst w) + unat (snd w) - 1) div 2 ^ (blk_size_shift m - SECTOR_SHIFT)}"

lemma cbt_blocks_iff:
  "0 < unat (snd w) \<Longrightarrow> b \<in> cbt_blocks m w \<longleftrightarrow>
     (\<exists>x. unat (fst w) \<le> x \<and> x < unat (fst w) + unat (snd w) \<and>
          x div 2 ^ (blk_size_shift m - SECTOR_SHIFT) = b)"
  by (simp add: cbt_blocks_def div_range_iff)

lemma cbt_in_range_blocks:
  assumes "cbt_wf m" "cbt_in_range m w"
  shows "unat (cbt_block_first m (fst w)) = unat (fst w) div 2 ^ (blk_size_shift m - SECTOR_SHIFT)"
    and "unat (cbt_block_last m (fst w) (snd w)) =
           (unat (fst w) + unat (snd w) - 1) div 2 ^ (blk_size_shift m - SECTOR_SHIFT)"
    and "\<not> cbt_range_bad m (fst w) (snd w)"
proof -
  have "unat (device_capacity m) < 2 ^ 64"
    using unsigned_less [of "device_capacity m", where ?'a = nat] by simp
  then have "unat (fst w) + unat (snd w) < 2 ^ 64" "0 < unat (snd w)"
    using assms(2) by (simp_all add: cbt_in_range_def)
  note eqs = cbt_block_nat [OF this, of m]
  show "unat (cbt_block_first m (fst w)) = unat (fst w) div 2 ^ (blk_size_shift m - SECTOR_SHIFT)"
    and lst: "unat (cbt_block_last m (fst w) (snd w)) =
           (unat (fst w) + unat (snd w) - 1) div 2 ^ (blk_size_shift m - SECTOR_SHIFT)"
    by (rule eqs)+
  have "unat (fst w) + unat (snd w) - 1 < unat (blk_count m) * 2 ^ (blk_size_shift m - SECTOR_SHIFT)"
    using assms by (auto simp: cbt_in_range_def cbt_wf_def)
  then have "unat (cbt_block_last m (fst w) (snd w)) < unat (blk_count m)"
    by (simp add: lst less_mult_imp_div_less)
  then show "\<not> cbt_range_bad m (fst w) (snd w)"
    by (simp add: word_le_nat_alt)
qed

lemma cbt_map_set_in_range:
  assumes wf: "cbt_wf m" and "\<not> is_corrupted m" and rng: "cbt_in_range m (start, cnt)"
    and w: "write_map m = Some w"
  shows "cbt_map_set m start cnt =
     Ok (None, m\<lparr>write_map := Some (cbt_mark_range m start cnt (snap_number_active m) w),
                 is_corrupted := False\<rparr>)"
proof -
  have "length w = unat (blk_count m)"
    using wf w by (auto simp: cbt_wf_def cbt_tables_ok_def split: option.splits)
  with cbt_map_set_eq [OF assms(2) w, of start cnt] cbt_in_range_blocks(3) [OF wf rng]
  show ?thesis by simp
qed

section \<open>The change table interface\<close>

datatype ('w, 'g) track_event = Write 'w | Snap 'g

fun snaps :: "('w, 'g) track_event list \<Rightarrow> nat" where
  "snaps [] = 0"
| "snaps (Write _ # es) = snaps es"
| "snaps (Snap _ # es) = Suc (snaps es)"

lemma snaps_append [simp]: "snaps (xs @ ys) = snaps xs + snaps ys"
  by (induction xs rule: snaps.induct) simp_all

text \<open>
  A change table keeps a number per block. Marking a range gives its blocks the active
  number; a snapshot publishes the table for reading and starts the next number. Nothing
  else is needed to know which blocks changed since a given snapshot.
\<close>

locale change_table =
  fixes mark :: "'w \<Rightarrow> 's \<Rightarrow> 's"
    and switch :: "'g \<Rightarrow> 's \<Rightarrow> 's"
    and ok :: "'s \<Rightarrow> 'w \<Rightarrow> bool"
    and blocks :: "'s \<Rightarrow> 'w \<Rightarrow> nat set"
    and wbyte :: "'s \<Rightarrow> nat \<Rightarrow> nat"
    and rbyte :: "'s \<Rightarrow> nat \<Rightarrow> nat"
    and active :: "'s \<Rightarrow> nat"
    and inv :: "'s \<Rightarrow> bool"
  assumes wbyte_le: "inv s \<Longrightarrow> wbyte s b \<le> active s"
    and inv_mark: "inv s \<Longrightarrow> ok s w \<Longrightarrow> inv (mark w s)"
    and wbyte_mark: "inv s \<Longrightarrow> ok s w \<Longrightarrow>
          wbyte (mark w s) b = (if b \<in> blocks s w then active s else wbyte s b)"
    and rbyte_mark: "inv s \<Longrightarrow> ok s w \<Longrightarrow> rbyte (mark w s) b = rbyte s b"
    and active_mark: "inv s \<Longrightarrow> ok s w \<Longrightarrow> active (mark w s) = active s"
    and geometry_mark: "inv s \<Longrightarrow> ok s w \<Longrightarrow> ok (mark w s) = ok s \<and> blocks (mark w s) = blocks s"
    and inv_switch: "inv s \<Longrightarrow> active s < 255 \<Longrightarrow> inv (switch g s)"
    and wbyte_switch: "inv s \<Longrightarrow> active s < 255 \<Longrightarrow> wbyte (switch g s) b = wbyte s b"
    and rbyte_switch: "inv s \<Longrightarrow> active s < 255 \<Longrightarrow> rbyte (switch g s) b = wbyte s b"
    and active_switch: "inv s \<Longrightarrow> active s < 255 \<Longrightarrow> active (switch g s) = active s + 1"
    and geometry_switch: "inv s \<Longrightarrow> active s < 255 \<Longrightarrow>
          ok (switch g s) = ok s \<and> blocks (switch g s) = blocks s"
begin

fun step :: "'s \<Rightarrow> ('w, 'g) track_event \<Rightarrow> 's" where
  "step s (Write w) = mark w s"
| "step s (Snap g) = switch g s"

fun run :: "'s \<Rightarrow> ('w, 'g) track_event list \<Rightarrow> 's" where
  "run s [] = s"
| "run s (e # es) = run (step s e) es"

fun writes_ok :: "'s \<Rightarrow> ('w, 'g) track_event list \<Rightarrow> bool" where
  "writes_ok s [] = True"
| "writes_ok s (Write w # es) = (ok s w \<and> writes_ok s es)"
| "writes_ok s (Snap _ # es) = writes_ok s es"

lemma run_snoc: "run s (es @ [e]) = step (run s es) e"
  by (induction es arbitrary: s) simp_all

lemma writes_ok_snoc:
  "writes_ok s (es @ [e]) \<longleftrightarrow> writes_ok s es \<and> (case e of Write w \<Rightarrow> ok s w | Snap _ \<Rightarrow> True)"
  by (induction s es rule: writes_ok.induct) (simp_all split: track_event.split)

lemma run_inv:
  assumes "inv s" "writes_ok s es" "active s + snaps es \<le> 255"
  shows "inv (run s es) \<and> active (run s es) = active s + snaps es \<and>
         ok (run s es) = ok s \<and> blocks (run s es) = blocks s"
  using assms(2,3)
proof (induction es rule: rev_induct)
  case Nil
  then show ?case using assms(1) by simp
next
  case (snoc e es)
  then have IH: "inv (run s es)" "active (run s es) = active s + snaps es"
      "ok (run s es) = ok s" "blocks (run s es) = blocks s"
    by (auto simp: writes_ok_snoc)
  then show ?case
  proof (cases e)
    case (Write w)
    then have "ok (run s es) w" using snoc.prems IH(3) by (simp add: writes_ok_snoc)
    then show ?thesis using Write IH inv_mark active_mark geometry_mark by (simp add: run_snoc)
  next
    case (Snap g)
    then have "active (run s es) < 255" using snoc.prems IH(2) by simp
    then show ?thesis using Snap IH inv_switch active_switch geometry_switch by (simp add: run_snoc)
  qed
qed

lemma wbyte_run:
  assumes "inv s" "writes_ok s es" "active s + snaps es \<le> 255"
  shows "t < wbyte (run s es) b \<longleftrightarrow>
     t < wbyte s b \<or>
     (\<exists>i<length es. \<exists>w. es ! i = Write w \<and> b \<in> blocks s w \<and> t < active s + snaps (take i es))"
  using assms(2,3)
proof (induction es rule: rev_induct)
  case Nil
  then show ?case by simp
next
  case (snoc e es)
  then have ih: "writes_ok s es" "active s + snaps es \<le> 255" by (auto simp: writes_ok_snoc)
  note inv = run_inv [OF assms(1) ih]
  have split: "(\<exists>i<length (es @ [e]). \<exists>w. (es @ [e]) ! i = Write w \<and> b \<in> blocks s w \<and>
        t < active s + snaps (take i (es @ [e]))) \<longleftrightarrow>
      (\<exists>i<length es. \<exists>w. es ! i = Write w \<and> b \<in> blocks s w \<and> t < active s + snaps (take i es)) \<or>
      (\<exists>w. e = Write w \<and> b \<in> blocks s w \<and> t < active s + snaps es)"
    by (auto simp: nth_append less_Suc_eq)
  show ?case
  proof (cases e)
    case (Write w)
    then have ok: "ok (run s es) w" using snoc.prems inv by (simp add: writes_ok_snoc)
    have le: "wbyte (run s es) b \<le> active s + snaps es" using wbyte_le inv by metis
    have "t < wbyte (run s (es @ [e])) b \<longleftrightarrow>
        (b \<in> blocks s w \<and> t < active s + snaps es) \<or> t < wbyte (run s es) b"
      using Write ok inv le by (auto simp: run_snoc wbyte_mark)
    then show ?thesis using split snoc.IH [OF ih] Write by auto
  next
    case (Snap g)
    then have "active (run s es) < 255" using snoc.prems inv by simp
    then have "wbyte (run s (es @ [e])) b = wbyte (run s es) b"
      using Snap inv wbyte_switch by (simp add: run_snoc)
    then show ?thesis using split snoc.IH [OF ih] Snap by simp
  qed
qed

lemma rbyte_after_snapshot:
  assumes "inv s" "writes_ok s es" "active s + snaps es < 255"
  shows "t < rbyte (run s (es @ [Snap g])) b \<longleftrightarrow>
     t < wbyte s b \<or>
     (\<exists>i<length es. \<exists>w. es ! i = Write w \<and> b \<in> blocks s w \<and> t < active s + snaps (take i es))"
  using run_inv [OF assms(1,2)] wbyte_run [OF assms(1,2), of t b] assms(3) rbyte_switch
  by (simp add: run_snoc)

end

section \<open>The map provides the interface\<close>

definition cbt_mark_op :: "sector_t \<times> sector_t \<Rightarrow> cbt_map \<Rightarrow> cbt_map" where
  "cbt_mark_op w m = (case cbt_map_set m (fst w) (snd w) of Ok (_, m') \<Rightarrow> m' | Fault \<Rightarrow> m)"

definition cbt_switch_op :: "uuid \<Rightarrow> cbt_map \<Rightarrow> cbt_map" where
  "cbt_switch_op g m = (case cbt_map_switch g m of Ok m' \<Rightarrow> m' | Fault \<Rightarrow> m)"

definition cbt_byte :: "u8 list option \<Rightarrow> nat \<Rightarrow> nat" where
  "cbt_byte tbl b = (case tbl of None \<Rightarrow> 0 | Some xs \<Rightarrow> if b < length xs then unat (xs ! b) else 0)"

abbreviation cbt_live :: "cbt_map \<Rightarrow> bool" where
  "cbt_live m \<equiv> cbt_wf m \<and> \<not> is_corrupted m"

lemma cbt_mark_op_eq:
  assumes "cbt_live m" "cbt_in_range m w" "write_map m = Some tbl"
  shows "cbt_mark_op w m =
    m\<lparr>write_map := Some (cbt_mark_range m (fst w) (snd w) (snap_number_active m) tbl),
      is_corrupted := False\<rparr>"
  using assms by (simp add: cbt_mark_op_def cbt_map_set_in_range)

lemma cbt_switch_op_eq:
  assumes "cbt_wf m" "unat (snap_number_active m) < 255" "read_map m = Some r" "write_map m = Some w"
  shows "cbt_switch_op g m =
    m\<lparr>snap_number_previous := snap_number_active m,
      snap_number_active := snap_number_active m + 1, read_map := Some w\<rparr>"
proof -
  have "unat (snap_number_active m + 1) = unat (snap_number_active m) + 1"
    using assms(2) by (simp add: unat_word_ariths)
  then have "unat (snap_number_active m + 1) \<noteq> unat (256::u64)" using assms(2) by simp
  then have "snap_number_active m + 1 \<noteq> 256" by auto
  moreover have "length w = unat (blk_count m)" "length r = unat (blk_count m)"
    using assms by (simp_all add: cbt_wf_def cbt_tables_ok_def)
  ultimately show ?thesis
    using assms by (simp add: cbt_switch_op_def cbt_map_switch_def memcpy_def)
qed

lemma unat_active_Suc:
  assumes "unat (snap_number_active m) < 255"
  shows "unat (snap_number_active m + 1) = unat (snap_number_active m) + 1"
  using assms by (simp add: unat_word_ariths)

lemma cbt_byte_mark:
  assumes "cbt_wf m" "cbt_in_range m w" "write_map m = Some tbl"
  shows "cbt_byte (Some (cbt_mark_range m (fst w) (snd w) (snap_number_active m) tbl)) b =
    (if b \<in> cbt_blocks m w then unat (snap_number_active m) else cbt_byte (Some tbl) b)"
proof -
  note rng = cbt_in_range_blocks [OF assms(1,2)]
  have ok: "length tbl = unat (blk_count m)" "\<forall>x\<in>set tbl. unat x \<le> unat (snap_number_active m)"
    using assms(1,3) by (auto simp: cbt_wf_def cbt_tables_ok_def split: option.splits)
  have lt: "b < length tbl" if "b \<in> cbt_blocks m w"
  proof -
    have le: "unat (cbt_block_first m (fst w)) \<le> unat (cbt_block_last m (fst w) (snd w))"
      using that by (simp add: cbt_blocks_def rng(1,2))
    have "unat (cbt_block_last m (fst w) (snd w)) < unat (blk_count m)"
      using rng(3) le by (simp add: word_le_nat_alt)
    then show ?thesis using that ok(1) by (simp add: cbt_blocks_def rng(1,2))
  qed
  have "unat (max (tbl ! b) (ucast (snap_number_active m))) = unat (snap_number_active m)"
    if "b < length tbl"
  proof -
    have "unat (tbl ! b) \<le> unat (snap_number_active m)" using ok(2) nth_mem [OF that] by blast
    moreover have "unat (ucast (snap_number_active m) :: u8) = unat (snap_number_active m)"
      using assms(1) by (intro unat_ucast_u8) (simp add: cbt_wf_def)
    ultimately show ?thesis by (simp only: unat_max_u8 max_absorb2)
  qed
  then show ?thesis
    using lt by (auto simp: cbt_byte_def cbt_blocks_def rng(1,2))
qed

interpretation cbt: change_table
  cbt_mark_op cbt_switch_op cbt_in_range cbt_blocks
  "\<lambda>m. cbt_byte (write_map m)" "\<lambda>m. cbt_byte (read_map m)"
  "\<lambda>m. unat (snap_number_active m)" cbt_live
proof (unfold_locales, goal_cases)
  case (1 m b)
  then obtain w where "write_map m = Some w" "\<forall>x\<in>set w. unat x \<le> unat (snap_number_active m)"
    by (auto simp: cbt_wf_def cbt_tables_ok_def split: option.splits)
  then show ?case by (simp add: cbt_byte_def)
next
  case (2 m w)
  then obtain tbl where tbl: "write_map m = Some tbl" using cbt_wf_tables by metis
  with 2 have "cbt_map_set m (fst w) (snd w) = Ok (None, cbt_mark_op w m)"
    by (simp add: cbt_map_set_in_range cbt_mark_op_eq)
  with 2 have "cbt_wf (cbt_mark_op w m)" using cbt_map_set_wf by blast
  moreover have "\<not> is_corrupted (cbt_mark_op w m)" using cbt_mark_op_eq [of m w tbl] 2 tbl by simp
  ultimately show ?case by blast
next
  case (3 m w b)
  obtain tbl where "write_map m = Some tbl" using cbt_wf_tables 3(1) by metis
  with 3 show ?case using cbt_byte_mark [of m w tbl b] cbt_mark_op_eq [of m w tbl] by simp
next
  case (4 m w b)
  obtain tbl where "write_map m = Some tbl" using cbt_wf_tables 4(1) by metis
  with 4 show ?case using cbt_mark_op_eq [of m w tbl] by simp
next
  case (5 m w)
  obtain tbl where "write_map m = Some tbl" using cbt_wf_tables 5(1) by metis
  with 5 show ?case using cbt_mark_op_eq [of m w tbl] by simp
next
  case (6 m w)
  obtain tbl where "write_map m = Some tbl" using cbt_wf_tables 6(1) by metis
  with 6 show ?case
    using cbt_mark_op_eq [of m w tbl] by (simp add: fun_eq_iff cbt_in_range_def cbt_blocks_def)
next
  case (7 m g)
  obtain r w where "read_map m = Some r" "write_map m = Some w" using cbt_wf_tables 7(1) by metis
  with 7 have "\<not> is_corrupted (cbt_switch_op g m)" using cbt_switch_op_eq [of m r w g] by simp
  moreover obtain m' where "cbt_map_switch g m = Ok m'" "cbt_wf m'"
    using cbt_map_switch_wf 7(1) by blast
  ultimately show ?case by (simp add: cbt_switch_op_def)
next
  case (8 m g b)
  obtain r w where "read_map m = Some r" "write_map m = Some w" using cbt_wf_tables 8(1) by metis
  with 8 show ?case using cbt_switch_op_eq [of m r w g] by simp
next
  case (9 m g b)
  obtain r w where "read_map m = Some r" "write_map m = Some w" using cbt_wf_tables 9(1) by metis
  with 9 show ?case using cbt_switch_op_eq [of m r w g] by simp
next
  case (10 m g)
  obtain r w where "read_map m = Some r" "write_map m = Some w" using cbt_wf_tables 10(1) by metis
  with 10 show ?case using cbt_switch_op_eq [of m r w g] unat_active_Suc [of m] by simp
next
  case (11 m g)
  obtain r w where "read_map m = Some r" "write_map m = Some w" using cbt_wf_tables 11(1) by metis
  with 11 show ?case using cbt_switch_op_eq [of m r w g] by (simp add: fun_eq_iff cbt_in_range_def cbt_blocks_def)
qed

section \<open>Histories of a tracked device\<close>

type_synonym cbt_event = "(sector_t \<times> sector_t, uuid) track_event"

fun cbt_run :: "cbt_map \<Rightarrow> cbt_event list \<Rightarrow> cbt_map outcome" where
  "cbt_run m [] = Ok m"
| "cbt_run m (Write w # es) = bind_outcome (cbt_map_set m (fst w) (snd w)) (\<lambda>(_, m'). cbt_run m' es)"
| "cbt_run m (Snap g # es) = bind_outcome (cbt_map_switch g m) (\<lambda>m'. cbt_run m' es)"

definition writes_in_device :: "cbt_map \<Rightarrow> cbt_event list \<Rightarrow> bool" where
  "writes_in_device m es \<longleftrightarrow> list_all (case_track_event (cbt_in_range m) (\<lambda>_. True)) es"

lemma writes_in_device_iff: "writes_in_device m es = cbt.writes_ok m es"
  by (induction m es rule: cbt.writes_ok.induct) (simp_all add: writes_in_device_def)

lemma cbt_map_set_op:
  assumes "cbt_live m" "cbt_in_range m w"
  shows "cbt_map_set m (fst w) (snd w) = Ok (None, cbt_mark_op w m)"
proof -
  obtain tbl where "write_map m = Some tbl" using assms(1) cbt_wf_tables by metis
  with assms show ?thesis by (simp add: cbt_map_set_in_range cbt_mark_op_eq)
qed

lemma cbt_map_switch_op:
  assumes "cbt_wf m"
  shows "cbt_map_switch g m = Ok (cbt_switch_op g m)"
  using cbt_map_switch_wf [OF assms, of g] by (auto simp: cbt_switch_op_def)

lemma writes_ok_cong:
  "cbt_in_range m' = cbt_in_range m \<Longrightarrow> cbt.writes_ok m' es = cbt.writes_ok m es"
  by (induction m es rule: cbt.writes_ok.induct) simp_all

lemma cbt_run_eq:
  assumes "cbt_live m" "cbt.writes_ok m es" "unat (snap_number_active m) + snaps es \<le> 255"
  shows "cbt_run m es = Ok (cbt.run m es)"
  using assms
proof (induction es arbitrary: m)
  case (Cons e es)
  show ?case
  proof (cases e)
    case (Write w)
    then have ok: "cbt_in_range m w" "cbt.writes_ok m es" using Cons.prems by simp_all
    have "cbt_run (cbt_mark_op w m) es = Ok (cbt.run (cbt_mark_op w m) es)"
    proof (rule Cons.IH)
      show "cbt_live (cbt_mark_op w m)" using cbt.inv_mark Cons.prems(1) ok(1) .
      show "cbt.writes_ok (cbt_mark_op w m) es"
        using writes_ok_cong cbt.geometry_mark [OF Cons.prems(1) ok(1)] ok(2) by blast
      show "unat (snap_number_active (cbt_mark_op w m)) + snaps es \<le> 255"
        using cbt.active_mark [OF Cons.prems(1) ok(1)] Cons.prems(3) Write by simp
    qed
    then show ?thesis using cbt_map_set_op [OF Cons.prems(1) ok(1)] Write by simp
  next
    case (Snap g)
    then have lt: "unat (snap_number_active m) < 255" "cbt.writes_ok m es"
      using Cons.prems by simp_all
    have "cbt_run (cbt_switch_op g m) es = Ok (cbt.run (cbt_switch_op g m) es)"
    proof (rule Cons.IH)
      show "cbt_live (cbt_switch_op g m)" using cbt.inv_switch Cons.prems(1) lt(1) .
      show "cbt.writes_ok (cbt_switch_op g m) es"
        using writes_ok_cong cbt.geometry_switch [OF Cons.prems(1) lt(1)] lt(2) by blast
      show "unat (snap_number_active (cbt_switch_op g m)) + snaps es \<le> 255"
        using cbt.active_switch [OF Cons.prems(1) lt(1)] Cons.prems(3) Snap by simp
    qed
    moreover have "cbt_map_switch g m = Ok (cbt_switch_op g m)"
      using Cons.prems(1) by (intro cbt_map_switch_op) simp
    ultimately show ?thesis using Snap by simp
  qed
qed simp

lemma cbt_step_generation:
  assumes "cbt_live m" "unat (snap_number_active m) < 255"
  shows "generation_id (cbt_switch_op g m) = generation_id m"
    and "snap_number_previous (cbt_switch_op g m) = snap_number_active m"
proof -
  obtain r w where "read_map m = Some r" "write_map m = Some w" using assms(1) cbt_wf_tables by metis
  with assms show "generation_id (cbt_switch_op g m) = generation_id m"
    "snap_number_previous (cbt_switch_op g m) = snap_number_active m"
    by (simp_all add: cbt_switch_op_eq)
qed

lemma cbt_mark_generation:
  assumes "cbt_live m" "cbt_in_range m w"
  shows "generation_id (cbt_mark_op w m) = generation_id m"
proof -
  obtain tbl where "write_map m = Some tbl" using assms(1) cbt_wf_tables by metis
  with assms show ?thesis by (simp add: cbt_mark_op_eq)
qed

lemma cbt_run_generation:
  assumes "cbt_live m" "cbt.writes_ok m es" "unat (snap_number_active m) + snaps es \<le> 255"
  shows "generation_id (cbt.run m es) = generation_id m"
  using assms
proof (induction es rule: rev_induct)
  case (snoc e es)
  then have pre: "cbt.writes_ok m es" "unat (snap_number_active m) + snaps es \<le> 255"
    by (auto simp: cbt.writes_ok_snoc snaps_append)
  note run = cbt.run_inv [OF snoc.prems(1) pre]
  show ?case
  proof (cases e)
    case (Write w)
    with snoc.prems(2) have "cbt_in_range (cbt.run m es) w"
      using run by (simp add: cbt.writes_ok_snoc)
    then show ?thesis
      using cbt_mark_generation snoc.IH [OF snoc.prems(1) pre] run Write by (simp add: cbt.run_snoc)
  next
    case (Snap g)
    with snoc.prems(3) have "unat (snap_number_active (cbt.run m es)) < 255"
      using run by (simp add: snaps_append)
    then show ?thesis
      using cbt_step_generation snoc.IH [OF snoc.prems(1) pre] run Snap by (simp add: cbt.run_snoc)
  qed
qed simp


definition cbt_sample :: cbt_map where
  "cbt_sample = \<lparr>cbt_kref = 1, blk_size_shift = 16, blk_count = 2, device_capacity = 200,
     read_map = Some [0, 0], write_map = Some [0, 0], snap_number_active = 1,
     snap_number_previous = 0, generation_id = 7, is_corrupted = False\<rparr>"

lemma cbt_sample_wf: "cbt_wf cbt_sample" "\<not> is_corrupted cbt_sample"
  by (simp_all add: cbt_sample_def cbt_wf_def cbt_tables_ok_def shift_defined_def)


section \<open>Properties of the single operations\<close>

text \<open>C15: a map created with the default parameters, for any device of up to \<open>2^55\<close> sectors, covers
  every sector of the device with at most 2097152 blocks, starts at snapshot number 1 with empty
  tables, and the search for the block size ends.\<close>

theorem cbt_create_covers_device:
  assumes "unat cap < 2 ^ 55" "vmalloc_read env" "vmalloc_write env"
  shows "\<exists>m. cbt_map_create cbt_default_params env True cap = Ok (Some m) \<and>
    cbt_wf m \<and> \<not> is_corrupted m \<and> unat (blk_count m) \<le> 2097152 \<and> snap_number_active m = 1 \<and>
    (\<forall>sector < unat cap. sector div 2 ^ (blk_size_shift m - SECTOR_SHIFT) < unat (blk_count m)) \<and>
    (\<forall>b. cbt_byte (write_map m) b = 0)"
proof -
  from cbt_map_create_wf [OF assms] obtain m where
    m: "cbt_map_create cbt_default_params env True cap = Ok (Some m)" "cbt_wf m" "\<not> is_corrupted m"
      "unat (blk_count m) \<le> 2097152" "snap_number_active m = 1"
      "unat (blk_count m) = ceil_div (unat cap) (2 ^ (blk_size_shift m - SECTOR_SHIFT))"
      "write_map m = Some (replicate (unat (blk_count m)) 0)" by blast
  moreover have "sector div 2 ^ (blk_size_shift m - SECTOR_SHIFT) < unat (blk_count m)"
    if "sector < unat cap" for sector
    using div_less_ceil_div [OF that, of "2 ^ (blk_size_shift m - SECTOR_SHIFT)"] m(6) by simp
  ultimately show ?thesis by (auto simp: cbt_byte_def)
qed

theorem cbt_create_covers_device_witness:
  "\<exists>m. cbt_map_create cbt_default_params \<lparr>vmalloc_read = True, vmalloc_write = True, random_uuid = 5\<rparr>
          True 300000000 = Ok (Some m) \<and> unat (blk_count m) \<le> 2097152"
proof -
  have "unat (300000000::sector_t) < 2 ^ 55" by simp
  from cbt_create_covers_device [OF this,
      of "\<lparr>vmalloc_read = True, vmalloc_write = True, random_uuid = 5\<rparr>"]
  show ?thesis by fastforce
qed



text \<open>C17: a write inside the device marks, in the write table, exactly the blocks that hold one of the
  written sectors, with the active snapshot number, and changes neither another block nor the table
  the user reads.\<close>

theorem cbt_set_marks_written_blocks:
  assumes "cbt_wf m" "\<not> is_corrupted m" "0 < unat cnt"
    and "unat start + unat cnt \<le> unat (device_capacity m)"
  shows "\<exists>m'. cbt_map_set m start cnt = Ok (None, m') \<and> read_map m' = read_map m \<and>
    (\<forall>b. cbt_byte (write_map m') b =
       (if \<exists>x. unat start \<le> x \<and> x < unat start + unat cnt \<and>
               x div 2 ^ (blk_size_shift m - SECTOR_SHIFT) = b
        then unat (snap_number_active m) else cbt_byte (write_map m) b))"
proof -
  have rng: "cbt_in_range m (start, cnt)" using assms(3,4) by (simp add: cbt_in_range_def)
  obtain w where w: "write_map m = Some w" using assms(1) cbt_wf_tables by metis
  have set: "cbt_map_set m start cnt =
     Ok (None, m\<lparr>write_map := Some (cbt_mark_range m start cnt (snap_number_active m) w),
                 is_corrupted := False\<rparr>)"
    by (rule cbt_map_set_in_range [OF assms(1,2) rng w])
  have "cbt_byte (Some (cbt_mark_range m start cnt (snap_number_active m) w)) b =
     (if \<exists>x. unat start \<le> x \<and> x < unat start + unat cnt \<and>
             x div 2 ^ (blk_size_shift m - SECTOR_SHIFT) = b
      then unat (snap_number_active m) else cbt_byte (write_map m) b)" for b
    using cbt_byte_mark [OF assms(1) rng w, of b] cbt_blocks_iff [of "(start, cnt)" b m] assms(3) w
    by (simp only: fst_conv snd_conv simp_thms)
  with set show ?thesis by simp
qed

theorem cbt_set_marks_written_blocks_witness:
  "\<exists>m'. cbt_map_set cbt_sample 120 16 = Ok (None, m') \<and>
     cbt_byte (write_map m') 0 = 1 \<and> cbt_byte (write_map m') 1 = 1"
proof -
  have "0 < unat (16::u64)" "unat (120::u64) + unat (16::u64) \<le> unat (device_capacity cbt_sample)"
    by (simp_all add: cbt_sample_def)
  from cbt_set_marks_written_blocks [OF cbt_sample_wf this] obtain m' where
    "cbt_map_set cbt_sample 120 16 = Ok (None, m')"
    "\<And>b. cbt_byte (write_map m') b =
       (if \<exists>x. unat (120::u64) \<le> x \<and> x < unat (120::u64) + unat (16::u64) \<and>
               x div 2 ^ (blk_size_shift cbt_sample - SECTOR_SHIFT) = b
        then unat (snap_number_active cbt_sample) else cbt_byte (write_map cbt_sample) b)" by blast
  moreover have "\<exists>x\<ge>120. x < 136 \<and> x div 128 = (0::nat)" "\<exists>x\<ge>120. x < 136 \<and> x div 128 = (1::nat)"
    by (rule exI [of _ 120], simp) (rule exI [of _ 130], simp)
  ultimately show ?thesis by (auto simp: cbt_sample_def)
qed

text \<open>C19: a write beyond the table is refused with \<open>EINVAL\<close> and marks the map as corrupted; from
  then on every write and every dirty range is refused, the table cannot be read, and taking a
  snapshot does not clear the mark.  Resetting the map does.\<close>

theorem cbt_corruption_sticky:
  assumes "cbt_wf m" "\<not> is_corrupted m" "0 < unat cnt" "unat start + unat cnt < 2 ^ 64"
    and "unat (blk_count m) * 2 ^ (blk_size_shift m - SECTOR_SHIFT) < unat start + unat cnt"
  shows "\<exists>m'. cbt_map_set m start cnt = Ok (Some EINVAL, m') \<and> cbt_wf m' \<and> is_corrupted m' \<and>
    (\<forall>s c. cbt_map_set m' s c = Ok (Some EINVAL, m')) \<and>
    (\<forall>s c. cbt_map_set_both m' s c = Ok (Some EINVAL, m')) \<and>
    (\<forall>off n left. cbt_map_read_to_user m' off n left = Ok (Inl EFAULT)) \<and>
    (\<forall>g. is_corrupted (cbt_switch_op g m'))"
proof -
  let ?d = "2 ^ (blk_size_shift m - SECTOR_SHIFT) :: nat"
  obtain r w where rw: "read_map m = Some r" "write_map m = Some w" "cbt_tables_ok m r w"
    using assms(1) by (rule cbt_wf_tables)
  note blk = cbt_block_nat [OF assms(4,3), of m]
  have "unat (blk_count m) \<le> (unat start + unat cnt - 1) div ?d"
    using assms(5) by (subst less_eq_div_iff_mult_less_eq) simp_all
  moreover have "unat (cbt_block_first m start) \<le> (unat start + unat cnt - 1) div ?d"
    using assms(3) by (simp add: blk(1) div_le_mono)
  ultimately have bad: "cbt_range_bad m start cnt" by (simp add: word_le_nat_alt blk(2))
  let ?m = "m\<lparr>write_map := Some (cbt_mark_range m start cnt (snap_number_active m) w), is_corrupted := True\<rparr>"
  have set: "cbt_map_set m start cnt = Ok (Some EINVAL, ?m)"
    using cbt_map_set_eq [OF assms(2) rw(2), of start cnt] bad rw(3) by (simp add: cbt_tables_ok_def)
  moreover have "cbt_wf ?m" using cbt_map_set_wf [OF assms(1) set] .
  moreover have "is_corrupted (cbt_switch_op g ?m)" for g
    by (simp add: cbt_switch_op_def cbt_map_switch_def Let_def split: option.split)
  ultimately show ?thesis
    by (intro exI [of _ ?m]) (simp add: cbt_map_set_def cbt_map_set_both_def cbt_map_read_to_user_def)
qed

theorem cbt_corruption_sticky_witness:
  "\<exists>m'. cbt_map_set cbt_sample 250 10 = Ok (Some EINVAL, m') \<and>
        cbt_map_set m' 0 1 = Ok (Some EINVAL, m')"
proof -
  have "0 < unat (10::u64)" "unat (250::u64) + unat (10::u64) < 2 ^ 64"
    "unat (blk_count cbt_sample) * 2 ^ (blk_size_shift cbt_sample - SECTOR_SHIFT) <
       unat (250::u64) + unat (10::u64)"
    by (simp_all add: cbt_sample_def)
  from cbt_corruption_sticky [OF cbt_sample_wf this] show ?thesis by blast
qed

text \<open>C20: overflow of the snapshot number.  The snapshot taken at number 255 starts a new generation
  but reports 255 as its number, and the user's table keeps its old content.  A block written after
  it is marked with 1 in the next table, so no block of that table exceeds the reported number: in
  the new generation, the changes since this snapshot do not show.\<close>

theorem cbt_overflow_hides_changes:
  assumes "cbt_wf m" "\<not> is_corrupted m" "snap_number_active m = 255" "cbt_in_range m w"
  shows "\<exists>m1 m2. cbt_run m [Snap g1] = Ok m1 \<and> generation_id m1 = g1 \<and>
    unat (snap_number_previous m1) = 255 \<and> read_map m1 = read_map m \<and>
    cbt_run m1 [Write w, Snap g2] = Ok m2 \<and> generation_id m2 = g1 \<and>
    (\<forall>b. cbt_byte (read_map m2) b = (if b \<in> cbt_blocks m w then 1 else 0)) \<and>
    (\<forall>b. \<not> unat (snap_number_previous m1) < cbt_byte (read_map m2) b)"
proof -
  obtain r t where rt: "read_map m = Some r" "write_map m = Some t" "cbt_tables_ok m r t"
    using assms(1) by (rule cbt_wf_tables)
  define m1 where "m1 = m\<lparr>snap_number_previous := 255, snap_number_active := 1,
      write_map := Some (replicate (unat (blk_count m)) 0), generation_id := g1\<rparr>"
  have sw: "cbt_map_switch g1 m = Ok m1"
    using rt assms(3) by (simp add: cbt_map_switch_def m1_def memset0_def cbt_tables_ok_def Let_def)
  moreover have live: "cbt_live m1"
    using cbt_map_switch_wf [OF assms(1), of g1] sw assms(2) by (simp add: m1_def)
  moreover have rng: "cbt_in_range m1 w" using assms(4) by (simp add: cbt_in_range_def m1_def)
  moreover have act: "unat (snap_number_active m1) + snaps [Write w :: cbt_event] < 255"
    by (simp add: m1_def)
  let ?es = "[Write w] :: cbt_event list"
  have ok: "cbt.writes_ok m1 (?es @ [Snap g2])" "cbt.writes_ok m1 ?es" using rng by simp_all
  define m2 where "m2 = cbt.run m1 (?es @ [Snap g2])"
  have run: "cbt_run m1 [Write w, Snap g2] = Ok m2" and gen: "generation_id m2 = g1"
    using cbt_run_eq [OF live ok(1)] cbt_run_generation [OF live ok(1)] by (simp_all add: m2_def m1_def)
  have act1: "unat (snap_number_active m1) = 1" by (simp add: m1_def)
  have blk: "cbt_blocks m1 w = cbt_blocks m w" by (simp add: cbt_blocks_def m1_def)
  have zero: "cbt_byte (write_map m1) b = 0" for b by (simp add: m1_def cbt_byte_def)
  have above: "t < cbt_byte (read_map m2) b \<longleftrightarrow> b \<in> cbt_blocks m w \<and> t < 1" for t b
    using cbt.rbyte_after_snapshot [OF live ok(2) act, of t g2 b] blk zero [of b] act1
    by (cases w) (simp add: m2_def)
  have byte: "cbt_byte (read_map m2) b = (if b \<in> cbt_blocks m w then 1 else 0)" for b
    using above [of 0 b] above [of 1 b] by (cases "b \<in> cbt_blocks m w") auto
  have "\<not> unat (snap_number_previous m1) < cbt_byte (read_map m2) b" for b
    using byte [of b] by (simp add: m1_def)
  with sw run gen byte show ?thesis
    by (intro exI [of _ m1] exI [of _ m2]) (simp add: m1_def)
qed

theorem cbt_overflow_hides_changes_witness:
  "\<exists>m1 m2. cbt_run (cbt_sample\<lparr>snap_number_active := 255\<rparr>) [Snap 3] = Ok m1 \<and>
     cbt_run m1 [Write (130, 4), Snap 4] = Ok m2 \<and> cbt_byte (read_map m2) 1 = 1 \<and>
     \<not> unat (snap_number_previous m1) < cbt_byte (read_map m2) 1"
proof -
  let ?m = "cbt_sample\<lparr>snap_number_active := 255\<rparr>"
  have "cbt_wf ?m" "\<not> is_corrupted ?m" "snap_number_active ?m = 255" "cbt_in_range ?m (130, 4)"
    "1 \<in> cbt_blocks ?m (130, 4)"
    by (simp_all add: cbt_sample_def cbt_wf_def cbt_tables_ok_def shift_defined_def cbt_in_range_def
        cbt_blocks_def)
  with cbt_overflow_hides_changes [of ?m "(130, 4)" 3 4] show ?thesis by fastforce
qed



text \<open>C22: the size of a tracking block, which is what the user needs to turn table positions into
  sectors, is undefined behaviour for every device of more than \<open>2^28\<close> sectors (128 GiB): the search
  doubles the shift from 16 to 32 or 64, and the shifted constant is a 32-bit integer.\<close>

theorem cbt_blk_size_undefined_on_large_devices:
  assumes "2 ^ 28 < unat cap" "unat cap < 2 ^ 55" "vmalloc_read env" "vmalloc_write env"
  shows "\<exists>m. cbt_map_create cbt_default_params env True cap = Ok (Some m) \<and> cbt_map_blk_size m = Fault"
proof -
  from cbt_map_create_wf [OF assms(2-4)] obtain m where
    m: "cbt_map_create cbt_default_params env True cap = Ok (Some m)" "blk_size_shift m \<in> {16, 32, 64}"
      "unat (blk_count m) \<le> 2097152"
      "unat (blk_count m) = ceil_div (unat cap) (2 ^ (blk_size_shift m - SECTOR_SHIFT))" by blast
  have "blk_size_shift m \<noteq> 16"
  proof
    assume "blk_size_shift m = 16"
    with m(3,4) have "ceil_div (unat cap) 128 * 128 \<le> 2 ^ 28" by simp
    with ceil_div_covers [of 128 "unat cap"] assms(1) show False by simp
  qed
  with m(1,2) show ?thesis by (auto simp: cbt_map_blk_size_def)
qed

theorem cbt_blk_size_undefined_on_large_devices_witness:
  "\<exists>m. cbt_map_create cbt_default_params \<lparr>vmalloc_read = True, vmalloc_write = True, random_uuid = 5\<rparr>
          True 300000000 = Ok (Some m) \<and> cbt_map_blk_size m = Fault"
  by (rule cbt_blk_size_undefined_on_large_devices) simp_all

end
