(* ===== verification/Diff_Area.thy ===== *)
theory Diff_Area
  imports Chunk Cbt_Map
begin

text \<open>
  The difference area of one device, \<^verbatim>\<open>module/diff_area.c\<close> and \<^verbatim>\<open>module/diff_area.h\<close>: chunk geometry,
  creation and release of the area, copy-on-write, the two caches, and I/O of the snapshot image.

  A function that waits for the semaphore of a chunk can be stopped there: the result \<open>Blocked n\<close> says
  that the caller sleeps on chunk \<open>n\<close>.  Whether a fatal signal interrupts the sleep is an answer.
\<close>

section \<open>Geometry\<close>

definition chunk_number :: "diff_area \<Rightarrow> nat \<Rightarrow> nat" where
  "chunk_number a sector = sector div 2 ^ (chunk_shift a - SECTOR_SHIFT)"

definition chunk_sector :: "diff_area \<Rightarrow> chunk \<Rightarrow> nat" where
  "chunk_sector a c = ck_number c * 2 ^ (chunk_shift a - SECTOR_SHIFT)"

definition recalculate_last_chunk_size :: "sector_t \<Rightarrow> chunk \<Rightarrow> chunk" where
  "recalculate_last_chunk_size cap c =
     (let rounded = round_down_u64 cap (of_nat (ck_sector_count c))
      in if rounded < cap then c\<lparr>ck_sector_count := unat (cap - rounded)\<rparr> else c)"

definition count_by_shift :: "sector_t \<Rightarrow> nat \<Rightarrow> u64" where
  "count_by_shift cap shift =
     (let shift_sector = shift - SECTOR_SHIFT
      in drop_bit shift_sector (round_up_u64 cap (push_bit shift_sector 1)))"

text \<open>The search for the chunk size.  The shift is defined in C below 64 only; \<open>None\<close> otherwise.\<close>

function chunk_size_loop :: "u64 \<Rightarrow> sector_t \<Rightarrow> sector_t \<Rightarrow> nat \<Rightarrow> (nat \<times> u64) option" where
  "chunk_size_loop max_count cap min_io_sect shift =
     (if \<not> shift_defined shift then None
      else let cnt = count_by_shift cap shift
           in if max_count < cnt \<or> push_bit (shift - SECTOR_SHIFT) 1 < min_io_sect
              then chunk_size_loop max_count cap min_io_sect (Suc shift)
              else Some (shift, cnt))"
  by pat_completeness auto
termination
  by (relation "measure (\<lambda>(_, _, _, shift). 73 - shift)") (auto simp: shift_defined_def)

declare chunk_size_loop.simps [simp del]

text \<open>The module parameters \<^verbatim>\<open>chunk_minimum_shift\<close> and \<^verbatim>\<open>chunk_maximum_count\<close>, and what the block layer
  says about the original device.\<close>

record area_params =
  chunk_minimum_shift :: u32
  chunk_maximum_count :: u32

record bdev_info =
  bi_bdev :: bdev
  bi_dev_id :: dev_t
  bi_nr_sectors :: sector_t
  bi_io_min :: u32

definition area_default_params :: area_params where
  "area_default_params = \<lparr>chunk_minimum_shift = 18, chunk_maximum_count = 2097152\<rparr>"

definition diff_area_calculate_chunk_size ::
  "area_params \<Rightarrow> bdev_info \<Rightarrow> diff_area \<Rightarrow> diff_area outcome" where
  "diff_area_calculate_chunk_size p info a =
     (case chunk_size_loop (scast (chunk_maximum_count p)) (bi_nr_sectors info)
             (ucast (drop_bit SECTOR_SHIFT (bi_io_min info)))
             (unat (scast (chunk_minimum_shift p) :: u64)) of
        None \<Rightarrow> Fault
      | Some (shift, cnt) \<Rightarrow> Ok (a\<lparr>chunk_shift := shift, chunk_count := unat cnt\<rparr>))"

section \<open>Creation and release\<close>

definition diff_area_zero :: diff_area where
  "diff_area_zero =
     \<lparr>free_diff_buffers = [], free_diff_buffers_count = 0, da_kref = 0, orig_bdev = 0, orig_dev_id = 0,
      chunk_shift = 0, chunk_count = 0, chunk_map = [], read_cache_queue = [], read_cache_count = 0,
      write_cache_queue = [], write_cache_count = 0, cache_release_queued = False,
      corrupt_flag = False, pending_io_count = 0\<rparr>"

text \<open>The loop that allocates the chunks: \<open>alloc\<close> answers the allocation of each, \<open>xa_insert\<close> its
  insertion into the map.\<close>

fun alloc_chunks ::
  "(nat \<Rightarrow> bool) \<Rightarrow> (nat \<Rightarrow> ret) \<Rightarrow> nat \<Rightarrow> nat \<Rightarrow> nat \<Rightarrow> chunk list \<Rightarrow> ret \<times> chunk list" where
  "alloc_chunks alloc xa_insert sectors number 0 cs = (None, cs)"
| "alloc_chunks alloc xa_insert sectors number (Suc left) cs =
     (case chunk_alloc (alloc number) number of
        None \<Rightarrow> (Some ENOMEM, cs)
      | Some c \<Rightarrow>
          (case xa_insert number of
             Some e \<Rightarrow> (Some e, cs)
           | None \<Rightarrow> alloc_chunks alloc xa_insert sectors (Suc number) left
                       (cs @ [c\<lparr>ck_sector_count := sectors\<rparr>])))"

text \<open>The result of \<^verbatim>\<open>diff_area_new\<close>: the area or an error, and whether the device stays open and an
  area stays allocated.\<close>

record new_area =
  na_result :: "diff_area result"
  na_bdev_open :: bool
  na_allocated :: bool

definition diff_area_new ::
  "area_params \<Rightarrow> bdev_info result \<Rightarrow> bool \<Rightarrow> (nat \<Rightarrow> bool) \<Rightarrow> (nat \<Rightarrow> ret) \<Rightarrow> diff_storage \<Rightarrow>
     new_area outcome" where
  "diff_area_new p opened kzalloc_ok alloc xa_insert ds =
     (case opened of
        Inl e \<Rightarrow> Ok \<lparr>na_result = Inl e, na_bdev_open = False, na_allocated = False\<rparr>
      | Inr info \<Rightarrow>
          if \<not> kzalloc_ok then Ok \<lparr>na_result = Inl ENOMEM, na_bdev_open = False, na_allocated = False\<rparr>
          else bind_outcome
            (diff_area_calculate_chunk_size p info
               (diff_area_zero\<lparr>orig_bdev := bi_bdev info, orig_dev_id := bi_dev_id info\<rparr>))
            (\<lambda>a. if capacity ds = 0
                 then Ok \<lparr>na_result = Inl EFAULT, na_bdev_open = True, na_allocated = True\<rparr>
                 else case alloc_chunks alloc xa_insert (diff_area_chunk_sectors a) 0 (chunk_count a) [] of
                   (Some e, cs) \<Rightarrow> Ok \<lparr>na_result = Inl e, na_bdev_open = False, na_allocated = False\<rparr>
                 | (None, cs) \<Rightarrow>
                     if cs = [] then Fault
                     else Ok \<lparr>na_result = Inr (a\<lparr>da_kref := 1,
                                  chunk_map := butlast cs @
                                    [recalculate_last_chunk_size (bi_nr_sectors info) (last cs)]\<rparr>),
                              na_bdev_open = True, na_allocated = True\<rparr>))"

text \<open>The loop of \<^verbatim>\<open>diff_area_free\<close> over the chunks; then the device is closed and the pool emptied.\<close>

fun free_chunks :: "cow_params \<Rightarrow> nat list \<Rightarrow> cow \<Rightarrow> cow" where
  "free_chunks P [] s = s"
| "free_chunks P (n # ns) s = free_chunks P ns (chunk_free P n s)"

definition diff_area_free :: "cow_params \<Rightarrow> cow \<Rightarrow> cow \<times> nat" where
  "diff_area_free P s =
     (let s1 = free_chunks P [0..<length (chunk_map (area s))] s;
          s2 = upd_area (\<lambda>a. a\<lparr>chunk_map := []\<rparr>) s1
      in case diff_buffer_cleanup (area s2) 0 of (a, freed) \<Rightarrow> (s2\<lparr>area := a\<rparr>, freed))"

definition diff_area_get :: "diff_area \<Rightarrow> diff_area" where
  "diff_area_get a = a\<lparr>da_kref := kref_get (da_kref a)\<rparr>"

definition diff_area_put :: "cow_params \<Rightarrow> cow \<Rightarrow> cow \<times> bool" where
  "diff_area_put P s =
     (case kref_put (da_kref (area s)) of (k, released) \<Rightarrow>
        let s1 = upd_area (\<lambda>a. a\<lparr>da_kref := k\<rparr>) s
        in if released then (fst (diff_area_free P s1), True) else (s1, False))"

section \<open>The caches\<close>

definition first_unlocked :: "cow \<Rightarrow> nat list \<Rightarrow> nat option" where
  "first_unlocked s queue = find (\<lambda>n. \<not> ck_locked (chunk_of s n)) queue"

text \<open>\<^verbatim>\<open>get_chunk_from_cache_and_write_lock\<close> for the read cache and for the write cache.\<close>

definition get_chunk_from_read_cache :: "cow \<Rightarrow> (nat \<times> cow) option" where
  "get_chunk_from_read_cache s =
     (case first_unlocked s (read_cache_queue (area s)) of
        None \<Rightarrow> None
      | Some n \<Rightarrow> Some (n, upd_area (\<lambda>a. a\<lparr>read_cache_count := read_cache_count a - 1,
                                         read_cache_queue := remove1 n (read_cache_queue a)\<rparr>) (down n s)))"

definition get_chunk_from_write_cache :: "cow \<Rightarrow> (nat \<times> cow) option" where
  "get_chunk_from_write_cache s =
     (case first_unlocked s (write_cache_queue (area s)) of
        None \<Rightarrow> None
      | Some n \<Rightarrow> Some (n, upd_area (\<lambda>a. a\<lparr>write_cache_count := write_cache_count a - 1,
                                         write_cache_queue := remove1 n (write_cache_queue a)\<rparr>) (down n s)))"

definition diff_area_get_chunk_from_cache_and_write_lock :: "cow_params \<Rightarrow> cow \<Rightarrow> (nat \<times> cow) option" where
  "diff_area_get_chunk_from_cache_and_write_lock P s =
     (case (if read_cache_count (area s) > chunk_maximum_in_cache P
            then get_chunk_from_read_cache s else None) of
        Some res \<Rightarrow> Some res
      | None \<Rightarrow>
          if write_cache_count (area s) > chunk_maximum_in_cache P
          then get_chunk_from_write_cache s else None)"

text \<open>One turn of the loop of \<^verbatim>\<open>diff_area_cache_release\<close>, for the chunk that was taken.\<close>

definition cache_release_chunk :: "cow_params \<Rightarrow> answers \<Rightarrow> nat \<Rightarrow> cow \<Rightarrow> cow outcome" where
  "cache_release_chunk P ans n s =
     (if \<not> chunk_state_check CHUNK_ST_BUFFER_READY (chunk_of s n) then Ok (up n s)
      else if chunk_state_check CHUNK_ST_DIRTY (chunk_of s n) then
        bind_outcome (chunk_schedule_storing P ans n False s) (\<lambda>(ret, s1).
          if ret \<noteq> None then chunk_store_failed P ans n ret s1 else Ok s1)
      else Ok (up n (chunk_diff_buffer_release P n s)))"

text \<open>The whole loop; each turn has its own answers.  The fuel bounds the turns: every turn takes one
  chunk out of a cache, so the number of cached chunks is enough.\<close>

fun diff_area_cache_release :: "cow_params \<Rightarrow> (nat \<Rightarrow> answers) \<Rightarrow> nat \<Rightarrow> cow \<Rightarrow> cow outcome" where
  "diff_area_cache_release P ans fuel s =
     (if diff_area_is_corrupted (area s) then Ok s
      else case diff_area_get_chunk_from_cache_and_write_lock P s of
        None \<Rightarrow> Ok s
      | Some (n, s1) \<Rightarrow>
          (case fuel of
             0 \<Rightarrow> Fault
           | Suc fuel' \<Rightarrow> bind_outcome (cache_release_chunk P (ans fuel) n s1)
                            (diff_area_cache_release P ans fuel')))"

declare diff_area_cache_release.simps [simp del]

definition diff_area_take_chunk_from_cache :: "nat \<Rightarrow> cow \<Rightarrow> cow" where
  "diff_area_take_chunk_from_cache n s =
     (if chunk_in_cache s n
      then let s1 = upd_area (\<lambda>a. a\<lparr>read_cache_queue := remove1 n (read_cache_queue a),
                                    write_cache_queue := remove1 n (write_cache_queue a)\<rparr>) s
           in if chunk_state_check CHUNK_ST_DIRTY (chunk_of s n)
              then upd_area (\<lambda>a. a\<lparr>write_cache_count := write_cache_count a - 1\<rparr>) s1
              else upd_area (\<lambda>a. a\<lparr>read_cache_count := read_cache_count a - 1\<rparr>) s1
      else s)"

section \<open>Copy-on-write\<close>

text \<open>What a function that takes chunk semaphores does: it returns, or it sleeps on a chunk.\<close>

datatype 'a lock_result = Blocked nat | Returned 'a

text \<open>One turn of the loop of \<^verbatim>\<open>diff_area_copy\<close>, from the point where the semaphore of chunk \<open>n\<close> is
  taken; \<open>Some e\<close> makes the function return.\<close>

definition copy_locked_chunk ::
  "cow_params \<Rightarrow> answers \<Rightarrow> nat \<Rightarrow> bool \<Rightarrow> cow \<Rightarrow> (ret \<times> cow) outcome" where
  "copy_locked_chunk P ans n is_nowait s =
     (let c = chunk_of s n;
          fail = (\<lambda>(ret, s'). if ret \<noteq> None
                   then bind_outcome (chunk_store_failed P ans n ret s') (\<lambda>s''. Ok (ret, s''))
                   else Ok (None, s'))
      in if chunk_state_check (CHUNK_ST_FAILED OR CHUNK_ST_DIRTY OR CHUNK_ST_STORE_READY) c
         then Ok (None, up n s)
         else if chunk_state_check (CHUNK_ST_LOADING OR CHUNK_ST_STORING) c
         then fail (Some EFAULT, s)
         else if chunk_state_check CHUNK_ST_BUFFER_READY c
         then bind_outcome
                (chunk_schedule_storing P ans n is_nowait (diff_area_take_chunk_from_cache n s)) fail
         else case diff_buffer_take (area s) (diff_area_chunk_sectors (area s)) is_nowait
                     (ans_buffer ans) (ans_page ans) of
                (Inl e, a) \<Rightarrow> fail (Some e, s\<lparr>area := a\<rparr>)
              | (Inr b, a) \<Rightarrow>
                  bind_outcome
                    (chunk_async_load_orig ans n is_nowait
                       (upd_chunk n (\<lambda>c. c\<lparr>ck_buffer := Some b\<rparr>) (s\<lparr>area := a\<rparr>))) fail)"

text \<open>Taking the semaphore: \<open>killed\<close> says whether a fatal signal ends the sleep.\<close>

definition take_lock :: "bool \<Rightarrow> bool \<Rightarrow> nat \<Rightarrow> cow \<Rightarrow> ret lock_result \<times> cow" where
  "take_lock is_nowait killed n s =
     (if \<not> ck_locked (chunk_of s n) then (Returned None, down n s)
      else if is_nowait then (Returned (Some EAGAIN), s)
      else if killed then (Returned (Some EINTR), s)
      else (Blocked n, s))"

text \<open>The loop over the chunks of a range: from chunk \<open>n\<close>, \<open>left\<close> chunks.  Each chunk has its own
  answers.\<close>

fun copy_loop ::
  "cow_params \<Rightarrow> (nat \<Rightarrow> answers) \<Rightarrow> (nat \<Rightarrow> bool) \<Rightarrow> bool \<Rightarrow> nat \<Rightarrow> nat \<Rightarrow> cow \<Rightarrow>
     (ret lock_result \<times> cow) outcome" where
  "copy_loop P ans killed is_nowait n 0 s = Ok (Returned None, s)"
| "copy_loop P ans killed is_nowait n (Suc left) s =
     (if length (chunk_map (area s)) \<le> n
      then bind_outcome (diff_area_set_corrupted (ans n) EINVAL s) (\<lambda>s'. Ok (Returned (Some EINVAL), s'))
      else case take_lock is_nowait (killed n) n s of
        (Blocked m, s1) \<Rightarrow> Ok (Blocked m, s1)
      | (Returned (Some e), s1) \<Rightarrow> Ok (Returned (Some e), s1)
      | (Returned None, s1) \<Rightarrow>
          bind_outcome (copy_locked_chunk P (ans n) n is_nowait s1) (\<lambda>(ret, s2).
            if ret \<noteq> None then Ok (Returned ret, s2)
            else copy_loop P ans killed is_nowait (Suc n) left s2))"

text \<open>The number of turns of the loop over the offsets from the first chunk boundary below
  \<open>sector\<close> while they are less than \<open>sector + cnt\<close>.\<close>

definition range_chunks :: "diff_area \<Rightarrow> nat \<Rightarrow> nat \<Rightarrow> nat" where
  "range_chunks a sector cnt =
     (let cs = diff_area_chunk_sectors a; first = sector div cs * cs
      in ceil_div (sector + cnt - first) cs)"

definition diff_area_copy ::
  "cow_params \<Rightarrow> (nat \<Rightarrow> answers) \<Rightarrow> (nat \<Rightarrow> bool) \<Rightarrow> nat \<Rightarrow> nat \<Rightarrow> bool \<Rightarrow> cow \<Rightarrow>
     (ret lock_result \<times> cow) outcome" where
  "diff_area_copy P ans killed sector cnt is_nowait s =
     copy_loop P ans killed is_nowait (chunk_number (area s) sector)
       (range_chunks (area s) sector cnt) s"

text \<open>\<^verbatim>\<open>diff_area_wait\<close>.  A chunk in a state without any of the bits tested keeps its semaphore.\<close>

fun wait_loop ::
  "(nat \<Rightarrow> answers) \<Rightarrow> (nat \<Rightarrow> bool) \<Rightarrow> bool \<Rightarrow> nat \<Rightarrow> nat \<Rightarrow> cow \<Rightarrow> (ret lock_result \<times> cow) outcome" where
  "wait_loop ans killed is_nowait n 0 s = Ok (Returned None, s)"
| "wait_loop ans killed is_nowait n (Suc left) s =
     (if length (chunk_map (area s)) \<le> n
      then bind_outcome (diff_area_set_corrupted (ans n) EINVAL s) (\<lambda>s'. Ok (Returned (Some EINVAL), s'))
      else case take_lock is_nowait (killed n) n s of
        (Blocked m, s1) \<Rightarrow> Ok (Blocked m, s1)
      | (Returned (Some e), s1) \<Rightarrow> Ok (Returned (Some e), s1)
      | (Returned None, s1) \<Rightarrow>
          if chunk_state_check CHUNK_ST_FAILED (chunk_of s1 n) then Ok (Returned (Some EFAULT), up n s1)
          else if chunk_state_check (CHUNK_ST_BUFFER_READY OR CHUNK_ST_DIRTY OR CHUNK_ST_STORE_READY)
                    (chunk_of s1 n)
          then wait_loop ans killed is_nowait (Suc n) left (up n s1)
          else wait_loop ans killed is_nowait (Suc n) left s1)"

definition diff_area_wait ::
  "(nat \<Rightarrow> answers) \<Rightarrow> (nat \<Rightarrow> bool) \<Rightarrow> nat \<Rightarrow> nat \<Rightarrow> bool \<Rightarrow> cow \<Rightarrow> (ret lock_result \<times> cow) outcome" where
  "diff_area_wait ans killed sector cnt is_nowait s =
     wait_loop ans killed is_nowait (chunk_number (area s) sector) (range_chunks (area s) sector cnt) s"

section \<open>I/O of the snapshot image\<close>

record diff_area_image_ctx =
  ctx_is_write :: bool
  ctx_chunk :: "nat option"

definition diff_area_image_ctx_init :: "bool \<Rightarrow> diff_area_image_ctx" where
  "diff_area_image_ctx_init is_write = \<lparr>ctx_is_write = is_write, ctx_chunk = None\<rparr>"

definition diff_area_image_put_chunk :: "cow_params \<Rightarrow> answers \<Rightarrow> nat \<Rightarrow> bool \<Rightarrow> cow \<Rightarrow> cow outcome" where
  "diff_area_image_put_chunk P ans n is_write s =
     chunk_schedule_caching P ans n
       (if is_write then upd_chunk n (chunk_state_set CHUNK_ST_DIRTY) s else s)"

definition diff_area_image_ctx_done ::
  "cow_params \<Rightarrow> answers \<Rightarrow> diff_area_image_ctx \<Rightarrow> cow \<Rightarrow> cow outcome" where
  "diff_area_image_ctx_done P ans ctx s =
     (case ctx_chunk ctx of
        None \<Rightarrow> Ok s
      | Some n \<Rightarrow> diff_area_image_put_chunk P ans n (ctx_is_write ctx) s)"

definition diff_area_load_chunk_from_storage :: "answers \<Rightarrow> nat \<Rightarrow> cow \<Rightarrow> (ret \<times> cow) outcome" where
  "diff_area_load_chunk_from_storage ans n s =
     (case diff_buffer_take (area s) (diff_area_chunk_sectors (area s)) False
             (ans_buffer ans) (ans_page ans) of
        (Inl e, a) \<Rightarrow> Ok (Some e, s\<lparr>area := a\<rparr>)
      | (Inr b, a) \<Rightarrow>
          let s1 = upd_chunk n (\<lambda>c. c\<lparr>ck_buffer := Some b\<rparr>) (s\<lparr>area := a\<rparr>)
          in if chunk_state_check CHUNK_ST_STORE_READY (chunk_of s1 n)
             then chunk_load_diff ans n s1
             else chunk_load_orig ans n s1)"

text \<open>\<^verbatim>\<open>diff_area_image_context_get_chunk\<close> from the point where the semaphore of the new chunk is taken.\<close>

definition get_locked_chunk :: "answers \<Rightarrow> nat \<Rightarrow> cow \<Rightarrow> (ret \<times> cow) outcome" where
  "get_locked_chunk ans n s =
     (if chunk_state_check CHUNK_ST_FAILED (chunk_of s n) then Ok (Some EIO, up n s)
      else if \<not> chunk_state_check CHUNK_ST_BUFFER_READY (chunk_of s n)
      then bind_outcome (diff_area_load_chunk_from_storage ans n s) (\<lambda>(ret, s1).
             if ret \<noteq> None then Ok (ret, up n s1)
             else Ok (None, upd_chunk n (chunk_state_set CHUNK_ST_BUFFER_READY) s1))
      else Ok (None, diff_area_take_chunk_from_cache n s))"

definition diff_area_image_context_get_chunk ::
  "cow_params \<Rightarrow> answers \<Rightarrow> bool \<Rightarrow> diff_area_image_ctx \<Rightarrow> nat \<Rightarrow> cow \<Rightarrow>
     (nat result lock_result \<times> diff_area_image_ctx \<times> cow) outcome" where
  "diff_area_image_context_get_chunk P ans killed ctx sector s =
     (let new = chunk_number (area s) sector in
      if ctx_chunk ctx = Some new then Ok (Returned (Inr new), ctx, s)
      else bind_outcome
        (case ctx_chunk ctx of
           None \<Rightarrow> Ok s
         | Some old \<Rightarrow> diff_area_image_put_chunk P ans old (ctx_is_write ctx) s)
        (\<lambda>s1. let ctx1 = ctx\<lparr>ctx_chunk := None\<rparr> in
           if length (chunk_map (area s1)) \<le> new then Ok (Returned (Inl EINVAL), ctx1, s1)
           else case take_lock False killed new s1 of
             (Blocked m, s2) \<Rightarrow> Ok (Blocked m, ctx1, s2)
           | (Returned (Some e), s2) \<Rightarrow> Ok (Returned (Inl e), ctx1, s2)
           | (Returned None, s2) \<Rightarrow>
               bind_outcome (get_locked_chunk ans new s2) (\<lambda>(ret, s3).
                 case ret of
                   Some e \<Rightarrow> Ok (Returned (Inl e), ctx1, s3)
                 | None \<Rightarrow> Ok (Returned (Inr new), ctx1\<lparr>ctx_chunk := Some new\<rparr>, s3))))"

text \<open>The inner loop of \<^verbatim>\<open>diff_area_image_io\<close>: copying between the pages of the buffer and the segment.
  \<open>data\<close> is what is left to write, \<open>out\<close> what has been read; \<open>ok\<close> is false when nothing could be
  copied.\<close>

record image_copy =
  ic_ok :: bool
  ic_pos :: nat
  ic_left :: nat
  ic_data :: "u8 list"
  ic_out :: "u8 list"
  ic_buffer :: diff_buffer

definition page_write :: "nat \<Rightarrow> u8 list \<Rightarrow> page \<Rightarrow> page" where
  "page_write off bytes p = (\<lambda>o'. if off \<le> o' \<and> o' < off + length bytes then bytes ! (o' - off) else p o')"

function image_copy_loop :: "bool \<Rightarrow> nat \<Rightarrow> image_copy \<Rightarrow> image_copy outcome" where
  "image_copy_loop is_write buff_offset ic =
     (if ic_left ic = 0 then Ok ic
      else case diff_buffer_iter_get (ic_buffer ic) buff_offset of
        None \<Rightarrow> Ok ic
      | Some it \<Rightarrow>
          (case pages (ic_buffer ic) ! iter_page it of
             None \<Rightarrow> Fault
           | Some p \<Rightarrow>
               let sz = min (iter_bytes it) (ic_left ic)
               in if sz = 0 then Ok (ic\<lparr>ic_ok := False\<rparr>)
                  else image_copy_loop is_write (buff_offset + sz)
                    (if is_write
                     then ic\<lparr>ic_pos := ic_pos ic + sz div SECTOR_SIZE, ic_left := ic_left ic - sz,
                             ic_data := drop sz (ic_data ic),
                             ic_buffer := (ic_buffer ic)\<lparr>pages := (pages (ic_buffer ic))
                               [iter_page it := Some (page_write (iter_offset it) (take sz (ic_data ic)) p)]\<rparr>\<rparr>
                     else ic\<lparr>ic_pos := ic_pos ic + sz div SECTOR_SIZE, ic_left := ic_left ic - sz,
                             ic_out := ic_out ic @ map (\<lambda>i. p (iter_offset it + i)) [0..<sz]\<rparr>)))"
  by pat_completeness auto
termination
  by (relation "measure (\<lambda>(_, _, ic). ic_left ic)") auto

declare image_copy_loop.simps [simp del]

text \<open>The outer loop.  A turn that copies nothing would repeat forever in the code; the fuel bounds
  the turns, and the length of the segment is enough.\<close>

record image_io =
  ii_ok :: bool
  ii_pos :: nat
  ii_data :: "u8 list"
  ii_out :: "u8 list"

fun image_io_loop ::
  "cow_params \<Rightarrow> (nat \<Rightarrow> answers) \<Rightarrow> (nat \<Rightarrow> bool) \<Rightarrow> nat \<Rightarrow> nat \<Rightarrow> image_io \<Rightarrow> diff_area_image_ctx \<Rightarrow> cow \<Rightarrow>
     (image_io lock_result \<times> diff_area_image_ctx \<times> cow) outcome" where
  "image_io_loop P ans killed fuel left ii ctx s =
     (if left = 0 then Ok (Returned ii, ctx, s)
      else case fuel of
        0 \<Rightarrow> Fault
      | Suc fuel' \<Rightarrow>
          bind_outcome
            (diff_area_image_context_get_chunk P (ans (chunk_number (area s) (ii_pos ii)))
               (killed (chunk_number (area s) (ii_pos ii))) ctx (ii_pos ii) s)
            (\<lambda>(res, ctx1, s1).
               case res of
                 Blocked m \<Rightarrow> Ok (Blocked m, ctx1, s1)
               | Returned (Inl e) \<Rightarrow> Ok (Returned (ii\<lparr>ii_ok := False\<rparr>), ctx1, s1)
               | Returned (Inr n) \<Rightarrow>
                   (case ck_buffer (chunk_of s1 n) of
                      None \<Rightarrow> Fault
                    | Some b \<Rightarrow>
                        bind_outcome
                          (image_copy_loop (ctx_is_write ctx)
                             ((ii_pos ii - chunk_sector (area s1) (chunk_of s1 n)) * SECTOR_SIZE)
                             \<lparr>ic_ok = True, ic_pos = ii_pos ii, ic_left = left, ic_data = ii_data ii,
                              ic_out = ii_out ii, ic_buffer = b\<rparr>)
                          (\<lambda>ic.
                             let s2 = upd_chunk n (\<lambda>c. c\<lparr>ck_buffer := Some (ic_buffer ic)\<rparr>) s1;
                                 ii1 = \<lparr>ii_ok = ic_ok ic, ii_pos = ic_pos ic, ii_data = ic_data ic,
                                        ii_out = ic_out ic\<rparr>
                             in if \<not> ic_ok ic then Ok (Returned ii1, ctx1, s2)
                                else image_io_loop P ans killed fuel' (ic_left ic) ii1 ctx1 s2))))"

declare image_io_loop.simps [simp del]

definition diff_area_image_io ::
  "cow_params \<Rightarrow> (nat \<Rightarrow> answers) \<Rightarrow> (nat \<Rightarrow> bool) \<Rightarrow> diff_area_image_ctx \<Rightarrow> nat \<Rightarrow> u8 list \<Rightarrow> nat \<Rightarrow> cow \<Rightarrow>
     (image_io lock_result \<times> diff_area_image_ctx \<times> cow) outcome" where
  "diff_area_image_io P ans killed ctx bv_len data pos s =
     image_io_loop P ans killed bv_len bv_len
       \<lparr>ii_ok = True, ii_pos = pos, ii_data = data, ii_out = []\<rparr> ctx s"

section \<open>Debugging interface\<close>

text \<open>\<^verbatim>\<open>diff_area_get_sector_state\<close> when the semaphore is free, and \<^verbatim>\<open>diff_area_get_sector_image\<close>, which
  hands the position to the buffer iterator in sectors.\<close>

definition diff_area_get_sector_state :: "nat \<Rightarrow> cow \<Rightarrow> u32 result" where
  "diff_area_get_sector_state sector s =
     (let n = chunk_number (area s) (sector div diff_area_chunk_sectors (area s) * diff_area_chunk_sectors (area s))
      in if length (chunk_map (area s)) \<le> n then Inl EINVAL else Inr (ck_state (chunk_of s n)))"

definition sector_image_bytes :: "diff_area \<Rightarrow> chunk \<Rightarrow> nat \<Rightarrow> u8 list outcome" where
  "sector_image_bytes a c pos =
     (case ck_buffer c of
        None \<Rightarrow> Fault
      | Some b \<Rightarrow>
          (case diff_buffer_iter_get b (pos - chunk_sector a c) of
             None \<Rightarrow> Fault
           | Some it \<Rightarrow>
               (case pages b ! iter_page it of
                  None \<Rightarrow> Fault
                | Some p \<Rightarrow>
                    if PAGE_SIZE < iter_offset it + SECTOR_SIZE then Fault
                    else Ok (map (\<lambda>i. p (iter_offset it + i)) [0..<SECTOR_SIZE]))))"

definition diff_area_get_sector_image ::
  "cow_params \<Rightarrow> answers \<Rightarrow> bool \<Rightarrow> nat \<Rightarrow> cow \<Rightarrow> (u8 list result lock_result \<times> cow) outcome" where
  "diff_area_get_sector_image P ans killed pos s =
     bind_outcome
       (diff_area_image_context_get_chunk P ans killed (diff_area_image_ctx_init False) pos s)
       (\<lambda>(res, ctx, s1).
          case res of
            Blocked m \<Rightarrow> Ok (Blocked m, s1)
          | Returned (Inl e) \<Rightarrow> Ok (Returned (Inl e), s1)
          | Returned (Inr n) \<Rightarrow>
              bind_outcome (sector_image_bytes (area s1) (chunk_of s1 n) pos) (\<lambda>bytes.
                bind_outcome (diff_area_image_ctx_done P ans ctx s1) (\<lambda>s2. Ok (Returned (Inr bytes), s2))))"

section \<open>The search for the chunk size\<close>

definition size_fits :: "u64 \<Rightarrow> sector_t \<Rightarrow> sector_t \<Rightarrow> nat \<Rightarrow> bool" where
  "size_fits max_count cap min_io_sect shift \<longleftrightarrow>
     \<not> max_count < count_by_shift cap shift \<and> \<not> push_bit (shift - SECTOR_SHIFT) 1 < min_io_sect"

lemma chunk_size_loop_least:
  assumes "shift_defined shift" "shift \<le> t" "shift_defined t" "size_fits max_count cap mio t"
    "\<And>u. shift \<le> u \<Longrightarrow> u < t \<Longrightarrow> \<not> size_fits max_count cap mio u"
  shows "chunk_size_loop max_count cap mio shift = Some (t, count_by_shift cap t)"
  using assms
proof (induction "t - shift" arbitrary: shift)
  case 0
  then have "shift = t" by simp
  with 0 show ?case by (simp add: chunk_size_loop.simps [of max_count cap mio t] size_fits_def Let_def)
next
  case (Suc k)
  then have lt: "shift < t" by simp
  have "\<not> size_fits max_count cap mio shift" using Suc.prems(5) lt by simp
  moreover have "shift_defined (Suc shift)" using Suc.prems(1,3) lt by (auto simp: shift_defined_def)
  moreover have "chunk_size_loop max_count cap mio (Suc shift) = Some (t, count_by_shift cap t)"
    using Suc lt calculation(2) by (intro Suc.hyps(1)) simp_all
  ultimately show ?case
    using Suc.prems(1) by (auto simp: chunk_size_loop.simps [of _ _ _ shift] size_fits_def Let_def)
qed

lemma count_by_shift_eq:
  assumes "shift_defined shift" "unat cap + 2 ^ (shift - SECTOR_SHIFT) \<le> 2 ^ 64 - 1"
  shows "unat (count_by_shift cap shift) = ceil_div (unat cap) (2 ^ (shift - SECTOR_SHIFT))"
proof -
  have k: "shift - SECTOR_SHIFT < 64" using assms(1) by (auto simp: shift_defined_def)
  have "unat (drop_bit (shift - SECTOR_SHIFT) (round_up_u64 cap (2 ^ (shift - SECTOR_SHIFT)))) =
      ceil_div (unat cap) (2 ^ (shift - SECTOR_SHIFT))"
    using unat_round_up_div [OF k assms(2)] by (simp only: unat_drop_bit_div) simp
  then show ?thesis by (simp add: count_by_shift_def Let_def push_bit_eq_mult)
qed

text \<open>With the default parameters the search ends, for every capacity a block device can have and every
  minimal I/O size.\<close>

lemma chunk_size_default:
  assumes cap: "unat cap < 2 ^ 55"
  obtains t where "18 \<le> t" "t \<le> 43"
    "chunk_size_loop 2097152 cap (ucast (drop_bit SECTOR_SHIFT (io_min :: u32))) 18 = Some (t, count_by_shift cap t)"
    "unat (count_by_shift cap t) = ceil_div (unat cap) (2 ^ (t - SECTOR_SHIFT))"
    "unat (count_by_shift cap t) \<le> 2097152" "unat io_min div SECTOR_SIZE \<le> 2 ^ (t - SECTOR_SHIFT)"
proof -
  let ?m = "ucast (drop_bit SECTOR_SHIFT io_min) :: u64"
  have d: "shift_defined u" if "18 \<le> u" "u \<le> 43" for u using that by (simp add: shift_defined_def)
  have eq: "unat (count_by_shift cap u) = ceil_div (unat cap) (2 ^ (u - SECTOR_SHIFT))" if "18 \<le> u" "u \<le> 43" for u
  proof (rule count_by_shift_eq [OF d [OF that]])
    have "(2::nat) ^ (u - SECTOR_SHIFT) \<le> 2 ^ 34" using that by (intro power_increasing) simp_all
    then show "unat cap + 2 ^ (u - SECTOR_SHIFT) \<le> 2 ^ 64 - 1" using cap by simp
  qed
  have pw: "unat (push_bit (u - SECTOR_SHIFT) 1 :: u64) = 2 ^ (u - SECTOR_SHIFT)" if "u \<le> 43" for u
    using that by (simp add: push_bit_eq_mult unat_two_power)
  have mio: "unat ?m = unat io_min div SECTOR_SIZE"
  proof -
    have "unat (drop_bit SECTOR_SHIFT io_min) < 2 ^ 64"
      using unsigned_less [of "drop_bit SECTOR_SHIFT io_min", where ?'a = nat] by simp
    then have "unat ?m = unat (drop_bit SECTOR_SHIFT io_min)"
      by (simp add: unsigned_ucast_eq take_bit_nat_eq_self)
    then show ?thesis by (simp add: unat_drop_bit_div)
  qed
  have "size_fits 2097152 cap ?m 43"
  proof -
    have "ceil_div (unat cap) (2 ^ 34) \<le> ceil_div (2 ^ 55) (2 ^ 34)" using cap by (intro ceil_div_mono) simp
    then have "unat (count_by_shift cap 43) \<le> 2097152" using eq [of 43] by (simp add: ceil_div_def)
    moreover have "unat io_min div SECTOR_SIZE \<le> 2 ^ 34" using unsigned_less [of io_min, where ?'a = nat] by simp
    ultimately show ?thesis using pw [of 43] mio by (simp add: size_fits_def word_less_nat_alt not_less)
  qed
  then have ex: "\<exists>u. 18 \<le> u \<and> size_fits 2097152 cap ?m u" by (intro exI [of _ 43]) simp
  define t where "t = (LEAST u. 18 \<le> u \<and> size_fits 2097152 cap ?m u)"
  have t: "18 \<le> t" "size_fits 2097152 cap ?m t" using LeastI_ex [OF ex] unfolding t_def by blast+
  have "t \<le> 43" unfolding t_def by (rule Least_le) (use \<open>size_fits 2097152 cap ?m 43\<close> in simp)
  have "chunk_size_loop 2097152 cap ?m 18 = Some (t, count_by_shift cap t)"
  proof (rule chunk_size_loop_least)
    show "\<not> size_fits 2097152 cap ?m u" if "18 \<le> u" "u < t" for u
      using that not_less_Least [of u "\<lambda>u. 18 \<le> u \<and> size_fits 2097152 cap ?m u"] unfolding t_def by blast
  qed (use t \<open>t \<le> 43\<close> d in simp_all)
  then show thesis
    using that [OF t(1) \<open>t \<le> 43\<close>] eq [OF t(1) \<open>t \<le> 43\<close>] t(2) pw [OF \<open>t \<le> 43\<close>] mio
    by (simp add: size_fits_def word_less_nat_alt not_less)
qed

section \<open>The chunks of a new area\<close>

definition fresh_chunk :: "nat \<Rightarrow> nat \<Rightarrow> chunk" where
  "fresh_chunk sectors n =
     \<lparr>ck_number = n, ck_sector_count = sectors, ck_locked = False, ck_state = 0, ck_buffer = None,
      ck_region = None, ck_io = None\<rparr>"

lemma alloc_chunks_spec:
  "alloc_chunks alloc xa sectors k left cs = (ret, cs') \<Longrightarrow>
     (case ret of
        None \<Rightarrow> cs' = cs @ map (fresh_chunk sectors) [k..<k + left]
      | Some e \<Rightarrow> \<exists>i. \<not> alloc i \<and> e = ENOMEM \<or> xa i = Some e)"
proof (induction left arbitrary: k cs)
  case (Suc left)
  have up: "[k..<k + Suc left] = k # [Suc k..<Suc k + left]" by (simp add: upt_conv_Cons)
  show ?case
  proof (cases "alloc k \<and> xa k = None")
    case True
    then have "alloc_chunks alloc xa sectors (Suc k) left (cs @ [fresh_chunk sectors k]) = (ret, cs')"
      using Suc.prems by (simp add: chunk_alloc_def fresh_chunk_def)
    from Suc.IH [OF this] show ?thesis unfolding up by (simp split: option.splits)
  next
    case False
    with Suc.prems show ?thesis by (cases "alloc k"; cases "xa k") (auto simp: chunk_alloc_def)
  qed
qed simp

definition last_sectors :: "nat \<Rightarrow> nat \<Rightarrow> nat" where
  "last_sectors cap sectors = (if cap mod sectors = 0 then sectors else cap mod sectors)"

lemma last_sectors:
  assumes "0 < cap" "0 < cs"
  shows "(ceil_div cap cs - 1) * cs + last_sectors cap cs = cap" "0 < last_sectors cap cs" "last_sectors cap cs \<le> cs"
    "0 < ceil_div cap cs"
proof -
  have e: "ceil_div cap cs = (cap - 1) div cs + 1" by (rule ceil_div_pos [OF assms])
  show "0 < ceil_div cap cs" by (simp add: e)
  show "0 < last_sectors cap cs" "last_sectors cap cs \<le> cs" using assms(2) by (auto simp: last_sectors_def)
  define q r where qr: "q = (cap - 1) div cs" "r = (cap - 1) mod cs"
  have cap: "cap = q * cs + (r + 1)" "r < cs" using assms by (simp_all add: qr)
  have "last_sectors cap cs = r + 1"
  proof (cases "r + 1 = cs")
    case True
    have "(q * cs + cs) mod cs = 0" by simp
    with True cap(1) have "cap mod cs = 0" by (simp only: True)
    with True show ?thesis by (simp add: last_sectors_def)
  next
    case False
    then have "r + 1 < cs" using cap(2) by simp
    then have "(q * cs + (r + 1)) mod cs = r + 1" by (simp only: mod_mult_self3 mod_less)
    then have "cap mod cs = r + 1" by (simp only: cap(1) [symmetric])
    then show ?thesis by (simp add: last_sectors_def)
  qed
  moreover have "ceil_div cap cs - 1 = q" by (simp add: e qr)
  ultimately show "(ceil_div cap cs - 1) * cs + last_sectors cap cs = cap" by (simp only: cap(1) [symmetric])
qed

lemma recalculate_fresh:
  assumes "k < 64" "unat cap < 2 ^ 64"
  shows "recalculate_last_chunk_size cap (fresh_chunk (2 ^ k) n) = fresh_chunk (last_sectors (unat cap) (2 ^ k)) n"
proof -
  have w: "(of_nat (2 ^ k) :: u64) = 2 ^ k" by simp
  have r: "unat (round_down_u64 cap (2 ^ k)) = unat cap div 2 ^ k * 2 ^ k" using unat_round_down assms(1) by simp
  have le: "round_down_u64 cap (2 ^ k) \<le> cap" unfolding word_le_nat_alt r by simp
  have sub: "unat (cap - round_down_u64 cap (2 ^ k)) = unat cap mod 2 ^ k"
    unfolding unat_sub [OF le] r by (simp add: minus_div_mult_eq_mod)
  have "round_down_u64 cap (2 ^ k) < cap \<longleftrightarrow> unat cap mod 2 ^ k \<noteq> 0"
    unfolding word_less_nat_alt r by (metis add_cancel_right_right div_mult_mod_eq div_times_less_eq_dividend le_neq_implies_less less_irrefl)
  with sub w show ?thesis
    by (simp add: recalculate_last_chunk_size_def fresh_chunk_def last_sectors_def)
qed

text \<open>The chunks of an area for \<open>cap\<close> sectors.\<close>

definition area_chunks :: "nat \<Rightarrow> nat \<Rightarrow> chunk list" where
  "area_chunks cap cs =
     map (fresh_chunk cs) [0..<ceil_div cap cs - 1] @ [fresh_chunk (last_sectors cap cs) (ceil_div cap cs - 1)]"

lemma diff_area_new_default:
  assumes cap: "0 < unat (bi_nr_sectors info)" "unat (bi_nr_sectors info) < 2 ^ 55"
  obtains (failed) e opened where "diff_area_new area_default_params (Inr info) kz alloc xa ds =
        Ok \<lparr>na_result = Inl e, na_bdev_open = opened, na_allocated = opened\<rparr>"
      "\<not> kz \<or> capacity ds = 0 \<or> (\<exists>i. \<not> alloc i \<or> xa i \<noteq> None)" "opened \<longleftrightarrow> kz \<and> capacity ds = 0"
  | (created) t a where "18 \<le> t" "t \<le> 43" "unat (bi_io_min info) div SECTOR_SIZE \<le> 2 ^ (t - SECTOR_SHIFT)"
      "diff_area_new area_default_params (Inr info) kz alloc xa ds =
        Ok \<lparr>na_result = Inr a, na_bdev_open = True, na_allocated = True\<rparr>"
      "a = diff_area_zero\<lparr>orig_bdev := bi_bdev info, orig_dev_id := bi_dev_id info, chunk_shift := t,
             chunk_count := ceil_div (unat (bi_nr_sectors info)) (2 ^ (t - SECTOR_SHIFT)), da_kref := 1,
             chunk_map := area_chunks (unat (bi_nr_sectors info)) (2 ^ (t - SECTOR_SHIFT))\<rparr>"
      "ceil_div (unat (bi_nr_sectors info)) (2 ^ (t - SECTOR_SHIFT)) \<le> 2097152" "capacity ds \<noteq> 0"
proof -
  let ?cap = "unat (bi_nr_sectors info)"
  have params: "scast (2097152 :: u32) = (2097152 :: u64)" "unat (scast (18 :: u32) :: u64) = 18" by simp_all
  obtain t where t: "18 \<le> t" "t \<le> 43"
    "chunk_size_loop 2097152 (bi_nr_sectors info) (ucast (drop_bit SECTOR_SHIFT (bi_io_min info))) 18 =
       Some (t, count_by_shift (bi_nr_sectors info) t)"
    "unat (count_by_shift (bi_nr_sectors info) t) = ceil_div ?cap (2 ^ (t - SECTOR_SHIFT))"
    "unat (count_by_shift (bi_nr_sectors info) t) \<le> 2097152"
    "unat (bi_io_min info) div SECTOR_SIZE \<le> 2 ^ (t - SECTOR_SHIFT)"
    by (rule chunk_size_default [OF cap(2), of "bi_io_min info"])
  let ?cs = "2 ^ (t - SECTOR_SHIFT) :: nat"
  let ?z = "diff_area_zero\<lparr>orig_bdev := bi_bdev info, orig_dev_id := bi_dev_id info\<rparr>"
  let ?a = "?z\<lparr>chunk_shift := t, chunk_count := ceil_div ?cap ?cs\<rparr>"
  have calc: "diff_area_calculate_chunk_size area_default_params info ?z = Ok ?a"
    using t(3,4) by (simp add: diff_area_calculate_chunk_size_def area_default_params_def params)
  have cs: "diff_area_chunk_sectors ?a = ?cs" by (simp add: diff_area_chunk_sectors_def)
  obtain ret chunks where al: "alloc_chunks alloc xa ?cs 0 (ceil_div ?cap ?cs) [] = (ret, chunks)" by fastforce
  note sp = alloc_chunks_spec [OF al]
  consider "\<not> kz" | "kz" "capacity ds = 0" | e where "kz" "capacity ds \<noteq> 0" "ret = Some e"
    | "kz" "capacity ds \<noteq> 0" "ret = None" by blast
  then show thesis
  proof cases
    case 1
    then show ?thesis using failed [of ENOMEM False] by (simp add: diff_area_new_def)
  next
    case 2
    then show ?thesis using failed [of EFAULT True] calc by (simp add: diff_area_new_def)
  next
    case (3 e)
    then show ?thesis using failed [of e False] calc cs al sp by (auto simp: diff_area_new_def)
  next
    case 4
    let ?N = "ceil_div ?cap ?cs"
    have N: "0 < ?N" using last_sectors(4) [OF cap(1), of ?cs] by simp
    then have up: "[0..<?N] = [0..<?N - 1] @ [?N - 1]" by (metis Suc_pred' upt_Suc_append zero_le diff_Suc_1)
    have ch: "chunks = map (fresh_chunk ?cs) [0..<?N - 1] @ [fresh_chunk ?cs (?N - 1)]"
      using sp 4(3) up by simp
    have "recalculate_last_chunk_size (bi_nr_sectors info) (fresh_chunk ?cs (?N - 1)) =
        fresh_chunk (last_sectors ?cap ?cs) (?N - 1)"
      using t(2) cap(2) by (intro recalculate_fresh) simp_all
    then have last: "butlast chunks @ [recalculate_last_chunk_size (bi_nr_sectors info) (last chunks)] = area_chunks ?cap ?cs"
      by (simp add: ch area_chunks_def)
    have "chunks \<noteq> []" by (simp add: ch)
    with 4 calc cs al last t(4,5) show ?thesis
      using created [OF t(1,2,6), of "?a\<lparr>da_kref := 1, chunk_map := area_chunks ?cap ?cs\<rparr>"]
      by (simp add: diff_area_new_def)
  qed
qed

lemma area_chunks_nth:
  assumes "n < ceil_div cap cs"
  shows "area_chunks cap cs ! n = fresh_chunk (if n = ceil_div cap cs - 1 then last_sectors cap cs else cs) n"
  using assms by (auto simp: area_chunks_def nth_append)

lemma area_chunks_length: "0 < ceil_div cap cs \<Longrightarrow> length (area_chunks cap cs) = ceil_div cap cs"
  by (simp add: area_chunks_def)

lemma sum_area_chunks:
  assumes "0 < cap" "0 < cs"
  shows "(\<Sum>c\<leftarrow>area_chunks cap cs. ck_sector_count c) = cap"
proof -
  have "(\<Sum>c\<leftarrow>map (fresh_chunk cs) [0..<k]. ck_sector_count c) = k * cs" for k
    by (induction k) (simp_all add: fresh_chunk_def)
  with last_sectors(1) [OF assms] show ?thesis by (simp add: area_chunks_def fresh_chunk_def)
qed

lemma sector_in_chunk:
  assumes "0 < cs" "x < cap"
  shows "x div cs < ceil_div cap cs \<and> x div cs * cs \<le> x \<and>
    x < x div cs * cs + ck_sector_count (area_chunks cap cs ! (x div cs))"
proof -
  have cap: "0 < cap" using assms(2) by simp
  have q: "x div cs < ceil_div cap cs" by (rule div_less_ceil_div [OF assms(2,1)])
  have r: "x < x div cs * cs + cs" using dividend_less_div_times [OF assms(1), of x] by (simp add: add.commute)
  have "x < x div cs * cs + last_sectors cap cs" if "x div cs = ceil_div cap cs - 1"
    unfolding that last_sectors(1) [OF cap assms(1)] by (rule assms(2))
  then have "x < x div cs * cs + ck_sector_count (area_chunks cap cs ! (x div cs))"
    using r unfolding area_chunks_nth [OF q] fresh_chunk_def by (cases "x div cs = ceil_div cap cs - 1") simp_all
  with q show ?thesis by simp
qed

section \<open>Properties\<close>





end
