(* ===== verification/Cow_Invariant.thy ===== *)
theory Cow_Invariant
  imports Diff_Area
begin

text \<open>
  The invariant of copy-on-write over the model of \<^verbatim>\<open>module/chunk.c\<close> and \<^verbatim>\<open>module/diff_area.c\<close>, and the lemmas
  that let an operation on one chunk be verified by looking at that chunk only.

  \<open>control_ok\<close> relates the state bits of a chunk to its semaphore, its request, its bios and
  notifications and the caches; \<open>data_ok\<close> says where the bytes of the snapshot image are: in the buffer
  when it is ready, in the region of the storage when it is stored, on the original device when the
  chunk has not been copied.  \<open>regions_ok\<close> keeps the regions apart.  \<open>others_ok n\<close> is the invariant
  without the two conditions on chunk \<open>n\<close>, and \<open>working n\<close> describes the moments at which an operation
  holds the semaphore of chunk \<open>n\<close>.
\<close>

section \<open>State bits and projections\<close>

abbreviation failed :: "chunk \<Rightarrow> bool" where "failed c \<equiv> bit (ck_state c) 0"
abbreviation dirty :: "chunk \<Rightarrow> bool" where "dirty c \<equiv> bit (ck_state c) 1"
abbreviation buffer_ready :: "chunk \<Rightarrow> bool" where "buffer_ready c \<equiv> bit (ck_state c) 2"
abbreviation store_ready :: "chunk \<Rightarrow> bool" where "store_ready c \<equiv> bit (ck_state c) 3"
abbreviation loading :: "chunk \<Rightarrow> bool" where "loading c \<equiv> bit (ck_state c) 4"
abbreviation storing :: "chunk \<Rightarrow> bool" where "storing c \<equiv> bit (ck_state c) 5"

lemma chunk_state_check_bit [simp]: "chunk_state_check (st_bit k) c \<longleftrightarrow> bit (ck_state c) k"
  by (simp add: chunk_state_check_def st_bit_def push_bit_eq_mult and_exp_eq_0_iff_not_bit)

lemma chunk_state_check_or [simp]:
  "chunk_state_check (a OR b) c \<longleftrightarrow> chunk_state_check a c \<or> chunk_state_check b c"
  by (simp add: chunk_state_check_def bit.conj_disj_distrib or_eq_0_iff)

lemma bit_chunk_state_set [simp]:
  "bit (ck_state (chunk_state_set (st_bit k) c)) i \<longleftrightarrow> bit (ck_state c) i \<or> i = k \<and> k < 32"
  by (auto simp: chunk_state_set_def st_bit_def bit_or_iff bit_exp_iff)

lemma bit_chunk_state_unset [simp]:
  "bit (ck_state (chunk_state_unset (st_bit k) c)) i \<longleftrightarrow> bit (ck_state c) i \<and> i \<noteq> k"
  by (auto simp: chunk_state_unset_def st_bit_def bit_and_iff bit_not_iff bit_exp_iff dest: bit_imp_le_length)

lemma chunk_state_fields [simp]:
  "ck_number (chunk_state_set st c) = ck_number c" "ck_number (chunk_state_unset st c) = ck_number c"
  "ck_sector_count (chunk_state_set st c) = ck_sector_count c"
  "ck_sector_count (chunk_state_unset st c) = ck_sector_count c"
  "ck_locked (chunk_state_set st c) = ck_locked c" "ck_locked (chunk_state_unset st c) = ck_locked c"
  "ck_buffer (chunk_state_set st c) = ck_buffer c" "ck_buffer (chunk_state_unset st c) = ck_buffer c"
  "ck_region (chunk_state_set st c) = ck_region c" "ck_region (chunk_state_unset st c) = ck_region c"
  "ck_io (chunk_state_set st c) = ck_io c" "ck_io (chunk_state_unset st c) = ck_io c"
  by (simp_all add: chunk_state_set_def chunk_state_unset_def)

lemma chunk_of_upd_chunk [simp]:
  "n < length (chunk_map (area s)) \<Longrightarrow>
     chunk_map (area (upd_chunk n f s)) ! m = (if m = n then f (chunk_map (area s) ! n) else chunk_map (area s) ! m)"
  by (simp add: upd_chunk_def nth_list_update)

lemma upd_chunk_area [simp]:
  "length (chunk_map (area (upd_chunk n f s))) = length (chunk_map (area s))"
  "free_diff_buffers (area (upd_chunk n f s)) = free_diff_buffers (area s)"
  "free_diff_buffers_count (area (upd_chunk n f s)) = free_diff_buffers_count (area s)"
  "orig_bdev (area (upd_chunk n f s)) = orig_bdev (area s)"
  "orig_dev_id (area (upd_chunk n f s)) = orig_dev_id (area s)"
  "chunk_shift (area (upd_chunk n f s)) = chunk_shift (area s)"
  "read_cache_queue (area (upd_chunk n f s)) = read_cache_queue (area s)"
  "read_cache_count (area (upd_chunk n f s)) = read_cache_count (area s)"
  "write_cache_queue (area (upd_chunk n f s)) = write_cache_queue (area s)"
  "write_cache_count (area (upd_chunk n f s)) = write_cache_count (area s)"
  "corrupt_flag (area (upd_chunk n f s)) = corrupt_flag (area s)"
  "storage (upd_chunk n f s) = storage s" "disks (upd_chunk n f s) = disks s"
  "inflight (upd_chunk n f s) = inflight s" "notify (upd_chunk n f s) = notify s"
  by (simp_all add: upd_chunk_def)

lemma upd_area_fields [simp]:
  "area (upd_area f s) = f (area s)" "storage (upd_area f s) = storage s" "disks (upd_area f s) = disks s"
  "inflight (upd_area f s) = inflight s" "notify (upd_area f s) = notify s"
  by (simp_all add: upd_area_def)

lemma release_area [simp]:
  "chunk_map (snd (diff_buffer_release k a b)) = chunk_map a"
  "orig_bdev (snd (diff_buffer_release k a b)) = orig_bdev a"
  "orig_dev_id (snd (diff_buffer_release k a b)) = orig_dev_id a"
  "chunk_shift (snd (diff_buffer_release k a b)) = chunk_shift a"
  "read_cache_queue (snd (diff_buffer_release k a b)) = read_cache_queue a"
  "read_cache_count (snd (diff_buffer_release k a b)) = read_cache_count a"
  "write_cache_queue (snd (diff_buffer_release k a b)) = write_cache_queue a"
  "write_cache_count (snd (diff_buffer_release k a b)) = write_cache_count a"
  "corrupt_flag (snd (diff_buffer_release k a b)) = corrupt_flag a"
  by (simp_all add: diff_buffer_release_def pool_push_def)

lemma diff_buffer_take_area:
  assumes "diff_buffer_take a cs nowait kz alloc = (res, a')"
  shows "chunk_map a' = chunk_map a" "orig_bdev a' = orig_bdev a" "orig_dev_id a' = orig_dev_id a"
    "chunk_shift a' = chunk_shift a" "read_cache_queue a' = read_cache_queue a"
    "read_cache_count a' = read_cache_count a" "write_cache_queue a' = write_cache_queue a"
    "write_cache_count a' = write_cache_count a" "corrupt_flag a' = corrupt_flag a"
  using assms by (auto simp: diff_buffer_take_def pool_pop_def split: list.splits prod.splits option.splits)

section \<open>The invariant\<close>

definition bios_of :: "cow \<Rightarrow> nat \<Rightarrow> bio list" where
  "bios_of s n = map snd (filter (\<lambda>x. fst x = n) (inflight s))"

definition notes_of :: "cow \<Rightarrow> nat \<Rightarrow> notify_cb list" where
  "notes_of s n = map snd (filter (\<lambda>x. fst x = n) (notify s))"

abbreviation nchunks :: "cow \<Rightarrow> nat" where "nchunks s \<equiv> length (chunk_map (area s))"

definition chunk_base :: "diff_area \<Rightarrow> nat \<Rightarrow> nat" where
  "chunk_base a n = n * diff_area_chunk_sectors a * SECTOR_SIZE"

abbreviation chunk_len :: "chunk \<Rightarrow> nat" where "chunk_len c \<equiv> ck_sector_count c * SECTOR_SIZE"

definition area_ok :: "diff_area \<Rightarrow> bool" where
  "area_ok a \<longleftrightarrow>
     PAGE_SHIFT \<le> chunk_shift a \<and> chunk_shift a < 28 \<and>
     length (chunk_map a) * diff_area_chunk_sectors a < 2 ^ 64 \<and>
     pool_ok (diff_area_chunk_sectors a) a \<and>
     distinct (read_cache_queue a) \<and> distinct (write_cache_queue a) \<and>
     set (read_cache_queue a) \<subseteq> {..<length (chunk_map a)} \<and>
     set (write_cache_queue a) \<subseteq> {..<length (chunk_map a)} \<and>
     read_cache_count a = int (length (read_cache_queue a)) \<and>
     write_cache_count a = int (length (write_cache_queue a))"

definition regions_ok :: "cow \<Rightarrow> bool" where
  "regions_ok s \<longleftrightarrow>
     ds_wf (storage s) \<and> (\<forall>x. (orig_bdev (area s), x) \<notin> ds_avail (storage s)) \<and>
     (\<forall>n r. n < nchunks s \<longrightarrow> ck_region (chunk_of s n) = Some r \<longrightarrow>
        unat (reg_count r) = diff_area_chunk_sectors (area s) \<and> reg_bdev r \<noteq> orig_bdev (area s) \<and>
        region_locs r \<inter> ds_avail (storage s) = {} \<and>
        (\<forall>m r'. m < nchunks s \<longrightarrow> m \<noteq> n \<longrightarrow> ck_region (chunk_of s m) = Some r' \<longrightarrow>
           region_locs r \<inter> region_locs r' = {}))"

definition cached :: "cow \<Rightarrow> nat \<Rightarrow> bool" where
  "cached s n \<longleftrightarrow> n \<in> set (read_cache_queue (area s)) \<or> n \<in> set (write_cache_queue (area s))"

definition io_ok :: "diff_area \<Rightarrow> chunk \<Rightarrow> diff_io \<Rightarrow> bio list \<Rightarrow> notify_cb list \<Rightarrow> bool" where
  "io_ok a c io bios notes \<longleftrightarrow>
     io_bio_count io = int (length bios) \<and>
     notes = (if bios = [] then [if io_is_write io then NotifyStore else NotifyLoad] else []) \<and>
     (if io_is_write io
      then storing c \<and> \<not> loading c \<and> buffer_ready c \<and> (store_ready c \<longrightarrow> dirty c) \<and>
           (\<exists>r. ck_region c = Some r \<and> (\<forall>bio\<in>set bios. io_bio r True bio))
      else loading c \<and> \<not> storing c \<and> \<not> dirty c \<and> \<not> store_ready c \<and> \<not> buffer_ready c \<and>
           (\<forall>bio\<in>set bios. io_bio (chunk_orig_region a c) False bio))"

definition control_ok :: "diff_area_image_ctx \<Rightarrow> cow \<Rightarrow> nat \<Rightarrow> bool" where
  "control_ok ctx s n \<longleftrightarrow>
     (let c = chunk_of s n; held = (ctx_chunk ctx = Some n)
      in ck_number c = n \<and> 0 < ck_sector_count c \<and> ck_sector_count c \<le> diff_area_chunk_sectors (area s) \<and>
         (\<forall>b. ck_buffer c = Some b \<longrightarrow> buffer_for (diff_area_chunk_sectors (area s)) b) \<and>
         (buffer_ready c \<longrightarrow> ck_buffer c \<noteq> None) \<and>
         (store_ready c \<and> \<not> failed c \<longrightarrow> ck_region c \<noteq> None) \<and>
         (dirty c \<and> \<not> failed c \<longrightarrow> buffer_ready c) \<and>
         (failed c \<longrightarrow> corrupt_flag (area s) \<and> \<not> buffer_ready c \<and> ck_io c = None) \<and>
         (n \<in> set (read_cache_queue (area s)) \<longrightarrow> \<not> ck_locked c \<and> buffer_ready c \<and> \<not> dirty c) \<and>
         (n \<in> set (write_cache_queue (area s)) \<longrightarrow> \<not> ck_locked c \<and> buffer_ready c \<and> dirty c) \<and>
         (case ck_io c of
            None \<Rightarrow> bios_of s n = [] \<and> notes_of s n = [] \<and> (\<not> failed c \<longrightarrow> \<not> loading c \<and> \<not> storing c) \<and>
              (ck_locked c \<longleftrightarrow> held) \<and> (held \<longrightarrow> buffer_ready c) \<and> (buffer_ready c \<longrightarrow> held \<or> cached s n)
          | Some io \<Rightarrow> ck_locked c \<and> \<not> held \<and> ck_buffer c \<noteq> None \<and>
              io_ok (area s) c io (bios_of s n) (notes_of s n)))"

definition data_ok :: "(nat \<Rightarrow> u8) \<Rightarrow> diff_area_image_ctx \<Rightarrow> cow \<Rightarrow> nat \<Rightarrow> bool" where
  "data_ok img ctx s n \<longleftrightarrow>
     (let c = chunk_of s n; base = chunk_base (area s) n; err = (\<exists>io. ck_io c = Some io \<and> io_error io \<noteq> None)
      in (\<forall>i<chunk_len c.
            (\<forall>b. buffer_ready c \<longrightarrow> ck_buffer c = Some b \<longrightarrow> buf_byte b i = img (base + i)) \<and>
            (\<not> dirty c \<longrightarrow> \<not> (ctx_chunk ctx = Some n \<and> ctx_is_write ctx) \<longrightarrow>
               (if store_ready c
                then \<forall>r. ck_region c = Some r \<longrightarrow> disks s (reg_bdev r) (reg_base r + i) = img (base + i)
                else disks s (orig_bdev (area s)) (base + i) = img (base + i))) \<and>
            (loading c \<longrightarrow> \<not> err \<longrightarrow> (\<forall>bio\<in>set (bios_of s n). i \<notin> bio_span bio) \<longrightarrow>
               (\<forall>b. ck_buffer c = Some b \<longrightarrow> buf_byte b i = img (base + i))) \<and>
            (storing c \<longrightarrow> \<not> err \<longrightarrow> (\<forall>bio\<in>set (bios_of s n). i \<notin> bio_span bio) \<longrightarrow>
               (\<forall>r b. ck_region c = Some r \<longrightarrow> ck_buffer c = Some b \<longrightarrow>
                  disks s (reg_bdev r) (reg_base r + i) = buf_byte b i))))"

definition queues_ok :: "cow \<Rightarrow> bool" where
  "queues_ok s \<longleftrightarrow> (\<forall>x\<in>set (inflight s). fst x < nchunks s) \<and> (\<forall>x\<in>set (notify s). fst x < nchunks s)"

definition cow_inv :: "(nat \<Rightarrow> u8) \<Rightarrow> diff_area_image_ctx \<Rightarrow> cow \<Rightarrow> bool" where
  "cow_inv img ctx s \<longleftrightarrow>
     area_ok (area s) \<and> regions_ok s \<and> queues_ok s \<and>
     (\<forall>n. ctx_chunk ctx = Some n \<longrightarrow> n < nchunks s) \<and>
     (\<forall>n<nchunks s. control_ok ctx s n \<and> (\<not> corrupt_flag (area s) \<longrightarrow> data_ok img ctx s n))"

section \<open>Framing\<close>

text \<open>What an operation on chunk \<open>n\<close> leaves alone.\<close>

definition frame :: "nat \<Rightarrow> cow \<Rightarrow> cow \<Rightarrow> bool" where
  "frame n s s' \<longleftrightarrow>
     nchunks s' = nchunks s \<and> orig_bdev (area s') = orig_bdev (area s) \<and>
     chunk_shift (area s') = chunk_shift (area s) \<and> (corrupt_flag (area s) \<longrightarrow> corrupt_flag (area s')) \<and>
     disks s' = disks s \<and>
     (\<forall>m. m \<noteq> n \<longrightarrow> chunk_of s' m = chunk_of s m \<and>
        (m \<in> set (read_cache_queue (area s')) \<longleftrightarrow> m \<in> set (read_cache_queue (area s))) \<and>
        (m \<in> set (write_cache_queue (area s')) \<longleftrightarrow> m \<in> set (write_cache_queue (area s))) \<and>
        bios_of s' m = bios_of s m \<and> notes_of s' m = notes_of s m)"

lemma frame_refl [simp, intro]: "frame n s s"
  by (simp add: frame_def)

lemma frame_trans: "frame n s s' \<Longrightarrow> frame n s' s'' \<Longrightarrow> frame n s s''"
  by (simp add: frame_def)

lemma frame_upd_chunk: "n < nchunks s \<Longrightarrow> frame n s (upd_chunk n f s)"
  by (simp add: frame_def bios_of_def notes_of_def)

lemma frame_sectors: "frame n s s' \<Longrightarrow> diff_area_chunk_sectors (area s') = diff_area_chunk_sectors (area s)"
  by (simp add: frame_def diff_area_chunk_sectors_def)

lemma chunk_orig_region_cong:
  "orig_bdev a' = orig_bdev a \<Longrightarrow> chunk_shift a' = chunk_shift a \<Longrightarrow> chunk_orig_region a' c = chunk_orig_region a c"
  by (simp add: chunk_orig_region_def diff_area_chunk_sectors_def)

lemma frameD:
  assumes "frame n s s'"
  shows "nchunks s' = nchunks s" "orig_bdev (area s') = orig_bdev (area s)"
    "chunk_shift (area s') = chunk_shift (area s)" "disks s' = disks s"
    "corrupt_flag (area s) \<Longrightarrow> corrupt_flag (area s')"
    "m \<noteq> n \<Longrightarrow> chunk_of s' m = chunk_of s m"
    "m \<noteq> n \<Longrightarrow> m \<in> set (read_cache_queue (area s')) \<longleftrightarrow> m \<in> set (read_cache_queue (area s))"
    "m \<noteq> n \<Longrightarrow> m \<in> set (write_cache_queue (area s')) \<longleftrightarrow> m \<in> set (write_cache_queue (area s))"
    "m \<noteq> n \<Longrightarrow> bios_of s' m = bios_of s m" "m \<noteq> n \<Longrightarrow> notes_of s' m = notes_of s m"
  using assms by (simp_all add: frame_def)

lemma io_ok_cong:
  "orig_bdev a' = orig_bdev a \<Longrightarrow> chunk_shift a' = chunk_shift a \<Longrightarrow> io_ok a' c = io_ok a c"
  by (intro ext) (simp add: io_ok_def chunk_orig_region_cong [of a' a])

lemma control_ok_frame:
  assumes "frame n s s'" "m \<noteq> n" "ctx_chunk ctx' = Some m \<longleftrightarrow> ctx_chunk ctx = Some m" "control_ok ctx s m"
  shows "control_ok ctx' s' m"
proof -
  note f = frameD [OF assms(1)]
  have e: "io_ok (area s') = io_ok (area s)" by (intro ext) (simp add: io_ok_cong [OF f(2,3)])
  show ?thesis
    using assms(4) f(5)
    unfolding control_ok_def Let_def cached_def f(6-) [OF assms(2)] frame_sectors [OF assms(1)] e assms(3)
    by blast
qed

lemma data_ok_frame:
  assumes "frame n s s'" "m \<noteq> n"
    "ctx_chunk ctx' = Some m \<and> ctx_is_write ctx' \<longleftrightarrow> ctx_chunk ctx = Some m \<and> ctx_is_write ctx" "data_ok img ctx s m"
  shows "data_ok img ctx' s' m"
proof -
  note f = frameD [OF assms(1)]
  have e: "chunk_base (area s') m = chunk_base (area s) m"
    using frame_sectors [OF assms(1)] by (simp add: chunk_base_def)
  show ?thesis
    using assms(4) unfolding data_ok_def Let_def f(2,4) f(6-) [OF assms(2)] e assms(3) .
qed

definition others_ok :: "nat \<Rightarrow> (nat \<Rightarrow> u8) \<Rightarrow> diff_area_image_ctx \<Rightarrow> cow \<Rightarrow> bool" where
  "others_ok n img ctx s \<longleftrightarrow>
     n < nchunks s \<and> area_ok (area s) \<and> regions_ok s \<and> queues_ok s \<and>
     (\<forall>m. ctx_chunk ctx = Some m \<longrightarrow> m < nchunks s) \<and>
     (\<forall>m<nchunks s. m \<noteq> n \<longrightarrow> control_ok ctx s m \<and> (\<not> corrupt_flag (area s) \<longrightarrow> data_ok img ctx s m))"

lemma others_ok_frame:
  assumes "others_ok n img ctx s" "frame n s s'" "area_ok (area s')" "regions_ok s'" "queues_ok s'"
  shows "others_ok n img ctx s'"
  unfolding others_ok_def
proof (intro conjI allI impI)
  note f = frameD [OF assms(2)]
  fix m assume m: "m < nchunks s'" "m \<noteq> n"
  have ok: "control_ok ctx s m" "\<not> corrupt_flag (area s) \<Longrightarrow> data_ok img ctx s m"
    using assms(1) m f(1) by (simp_all add: others_ok_def)
  show "control_ok ctx s' m" by (rule control_ok_frame [OF assms(2) m(2) refl ok(1)])
  show "data_ok img ctx s' m" if "\<not> corrupt_flag (area s')"
    by (rule data_ok_frame [OF assms(2) m(2) refl ok(2)]) (use that f(5) in blast)
qed (use assms frameD(1) [OF assms(2)] in \<open>simp_all add: others_ok_def\<close>)

lemma cow_inv_iff:
  "cow_inv img ctx s \<and> n < nchunks s \<longleftrightarrow>
     others_ok n img ctx s \<and> control_ok ctx s n \<and> (\<not> corrupt_flag (area s) \<longrightarrow> data_ok img ctx s n)"
  unfolding cow_inv_def others_ok_def by metis

section \<open>Primitive updates\<close>

lemma area_ok_cong:
  assumes "area_ok a" "chunk_shift a' = chunk_shift a" "length (chunk_map a') = length (chunk_map a)"
    "free_diff_buffers a' = free_diff_buffers a" "free_diff_buffers_count a' = free_diff_buffers_count a"
    "read_cache_queue a' = read_cache_queue a" "write_cache_queue a' = write_cache_queue a"
    "read_cache_count a' = read_cache_count a" "write_cache_count a' = write_cache_count a"
  shows "area_ok a'"
  using assms by (simp add: area_ok_def pool_ok_def diff_area_chunk_sectors_def)

text \<open>Changing chunk \<open>n\<close> itself; its region may be dropped.\<close>

lemma regions_ok_sub:
  assumes "regions_ok s" "nchunks s' = nchunks s" "ds_wf (storage s')" "ds_avail (storage s') \<subseteq> ds_avail (storage s)"
    "orig_bdev (area s') = orig_bdev (area s)" "chunk_shift (area s') = chunk_shift (area s)"
    "\<And>m. m < nchunks s \<Longrightarrow> ck_region (chunk_of s' m) = ck_region (chunk_of s m) \<or> ck_region (chunk_of s' m) = None"
  shows "regions_ok s'"
  unfolding regions_ok_def
proof (intro conjI allI impI)
  have cs: "diff_area_chunk_sectors (area s') = diff_area_chunk_sectors (area s)"
    using assms(6) by (simp add: diff_area_chunk_sectors_def)
  fix n r assume n: "n < nchunks s'" "ck_region (chunk_of s' n) = Some r"
  then have r: "n < nchunks s" "ck_region (chunk_of s n) = Some r" using assms(2) assms(7) [of n] by auto
  from assms(1) r show "unat (reg_count r) = diff_area_chunk_sectors (area s')" "reg_bdev r \<noteq> orig_bdev (area s')"
    unfolding cs assms(5) regions_ok_def by blast+
  from assms(1,4) r show "region_locs r \<inter> ds_avail (storage s') = {}" unfolding regions_ok_def by blast
  fix m r' assume m: "m < nchunks s'" "m \<noteq> n" "ck_region (chunk_of s' m) = Some r'"
  then have "m < nchunks s" "ck_region (chunk_of s m) = Some r'" using assms(2) assms(7) [of m] by auto
  with assms(1) r m(2) show "region_locs r \<inter> region_locs r' = {}" unfolding regions_ok_def by blast
next
  show "ds_wf (storage s')" by (fact assms(3))
  show "(orig_bdev (area s'), x) \<notin> ds_avail (storage s')" for x
    using assms(1,4,5) unfolding regions_ok_def by auto
qed

lemma regions_ok_wf: "regions_ok s \<Longrightarrow> ds_wf (storage s)"
  by (simp add: regions_ok_def)

lemma others_okD:
  "others_ok n img ctx s \<Longrightarrow> n < nchunks s" "others_ok n img ctx s \<Longrightarrow> area_ok (area s)"
  "others_ok n img ctx s \<Longrightarrow> regions_ok s" "others_ok n img ctx s \<Longrightarrow> queues_ok s"
  "others_ok n img ctx s \<Longrightarrow> ds_wf (storage s)"
  by (simp_all add: others_ok_def regions_ok_wf)

lemma others_ok_upd_chunk:
  assumes "others_ok n img ctx s" "ck_region (f (chunk_of s n)) = ck_region (chunk_of s n) \<or> ck_region (f (chunk_of s n)) = None"
  shows "others_ok n img ctx (upd_chunk n f s)"
proof (rule others_ok_frame [OF assms(1)])
  have n: "n < nchunks s" by (rule others_okD(1) [OF assms(1)])
  show "frame n s (upd_chunk n f s)" by (rule frame_upd_chunk [OF n])
  show "area_ok (area (upd_chunk n f s))"
    by (rule area_ok_cong [OF others_okD(2) [OF assms(1)]]) simp_all
  show "regions_ok (upd_chunk n f s)"
  proof (rule regions_ok_sub)
    show "regions_ok s" "ds_wf (storage (upd_chunk n f s))" using others_okD [OF assms(1)] by simp_all
    show "ck_region (chunk_of (upd_chunk n f s) m) = ck_region (chunk_of s m) \<or>
        ck_region (chunk_of (upd_chunk n f s) m) = None" for m
      unfolding chunk_of_upd_chunk [OF n] using assms(2) by (cases "m = n") simp_all
  qed simp_all
  show "queues_ok (upd_chunk n f s)" using others_okD(4) [OF assms(1)] by (simp add: queues_ok_def)
qed

text \<open>Changing the area outside its chunks.\<close>

lemma others_ok_upd_area:
  assumes "others_ok n img ctx s" "area_ok (f (area s))"
    "chunk_map (f (area s)) = chunk_map (area s)" "orig_bdev (f (area s)) = orig_bdev (area s)"
    "chunk_shift (f (area s)) = chunk_shift (area s)"
    "corrupt_flag (area s) \<Longrightarrow> corrupt_flag (f (area s))"
    "\<And>m. m \<noteq> n \<Longrightarrow> m \<in> set (read_cache_queue (f (area s))) \<longleftrightarrow> m \<in> set (read_cache_queue (area s))"
    "\<And>m. m \<noteq> n \<Longrightarrow> m \<in> set (write_cache_queue (f (area s))) \<longleftrightarrow> m \<in> set (write_cache_queue (area s))"
  shows "others_ok n img ctx (upd_area f s)"
proof (rule others_ok_frame [OF assms(1)])
  show "frame n s (upd_area f s)" using assms(2-) by (simp add: frame_def bios_of_def notes_of_def)
  show "area_ok (area (upd_area f s))" using assms(2) by simp
  show "regions_ok (upd_area f s)"
    using others_okD [OF assms(1)] by - (rule regions_ok_sub [of s], simp_all add: assms(2-))
  show "queues_ok (upd_area f s)" using others_okD(4) [OF assms(1)] assms(3) by (simp add: queues_ok_def)
qed

lemma others_ok_area_fields:
  assumes "others_ok n img ctx s"
    "free_diff_buffers (f (area s)) = free_diff_buffers (area s)"
    "free_diff_buffers_count (f (area s)) = free_diff_buffers_count (area s)"
    "read_cache_queue (f (area s)) = read_cache_queue (area s)" "write_cache_queue (f (area s)) = write_cache_queue (area s)"
    "read_cache_count (f (area s)) = read_cache_count (area s)" "write_cache_count (f (area s)) = write_cache_count (area s)"
    "chunk_map (f (area s)) = chunk_map (area s)" "orig_bdev (f (area s)) = orig_bdev (area s)"
    "chunk_shift (f (area s)) = chunk_shift (area s)"
    "corrupt_flag (area s) \<Longrightarrow> corrupt_flag (f (area s))"
  shows "others_ok n img ctx (upd_area f s)"
proof (rule others_ok_upd_area [OF assms(1)])
  show "area_ok (f (area s))"
    by (rule area_ok_cong [OF others_okD(2) [OF assms(1)]]) (simp_all add: assms(2-))
qed (simp_all add: assms(2-))

lemma others_ok_pending [simp, intro]:
  "others_ok n img ctx s \<Longrightarrow> others_ok n img ctx (upd_area (\<lambda>a. a\<lparr>pending_io_count := k a\<rparr>) s)"
  by (erule others_ok_area_fields) simp_all

lemma others_ok_release_queued [simp, intro]:
  "others_ok n img ctx s \<Longrightarrow> others_ok n img ctx (upd_area (\<lambda>a. a\<lparr>cache_release_queued := q\<rparr>) s)"
  by (erule others_ok_area_fields) simp_all

lemma others_ok_corrupt [simp, intro]:
  "others_ok n img ctx s \<Longrightarrow> others_ok n img ctx (upd_area (\<lambda>a. a\<lparr>corrupt_flag := True\<rparr>) s)"
  by (erule others_ok_area_fields) simp_all

text \<open>Changing the storage so that nothing of the chunks is available in it.\<close>

lemma others_ok_storage:
  assumes "others_ok n img ctx s" "ds_wf ds" "ds_avail ds \<subseteq> ds_avail (storage s)"
  shows "others_ok n img ctx (s\<lparr>storage := ds\<rparr>)"
proof (rule others_ok_frame [OF assms(1)])
  show "frame n s (s\<lparr>storage := ds\<rparr>)" by (simp add: frame_def bios_of_def notes_of_def)
  show "regions_ok (s\<lparr>storage := ds\<rparr>)"
    using assms(2,3) others_okD [OF assms(1)] by - (rule regions_ok_sub [of s], simp_all)
qed (use others_okD(2,4) [OF assms(1)] in \<open>simp_all add: queues_ok_def\<close>)

lemma others_ok_inflight:
  assumes "others_ok n img ctx s"
  shows "others_ok n img ctx (s\<lparr>inflight := inflight s @ map (Pair n) bios\<rparr>)"
proof (rule others_ok_frame [OF assms])
  have "filter (\<lambda>x. fst x = m) (map (Pair n) bios) = []" if "m \<noteq> n" for m :: nat
    using that by (induction bios) auto
  then show "frame n s (s\<lparr>inflight := inflight s @ map (Pair n) bios\<rparr>)"
    by (simp add: frame_def bios_of_def notes_of_def)
  show "regions_ok (s\<lparr>inflight := inflight s @ map (Pair n) bios\<rparr>)"
    using others_okD [OF assms] by - (rule regions_ok_sub [of s], simp_all)
  show "queues_ok (s\<lparr>inflight := inflight s @ map (Pair n) bios\<rparr>)"
    using others_okD(1,4) [OF assms] by (auto simp: queues_ok_def)
qed (use others_okD(2) [OF assms] in simp)

lemma bios_of_append_same:
  "bios_of (s\<lparr>inflight := inflight s @ map (Pair n) bios\<rparr>) n = bios_of s n @ bios"
  by (simp add: bios_of_def filter_map comp_def)

section \<open>The chunk an operation works on\<close>

text \<open>An operation works on a chunk whose semaphore it has taken: the chunk is in no queue, and the
  rest of the area satisfies the invariant.\<close>

definition chunk_shape :: "diff_area \<Rightarrow> nat \<Rightarrow> chunk \<Rightarrow> bool" where
  "chunk_shape a n c \<longleftrightarrow>
     ck_number c = n \<and> 0 < ck_sector_count c \<and> ck_sector_count c \<le> diff_area_chunk_sectors a \<and>
     (\<forall>b. ck_buffer c = Some b \<longrightarrow> buffer_for (diff_area_chunk_sectors a) b) \<and>
     (buffer_ready c \<longrightarrow> ck_buffer c \<noteq> None)"

definition working :: "nat \<Rightarrow> (nat \<Rightarrow> u8) \<Rightarrow> diff_area_image_ctx \<Rightarrow> cow \<Rightarrow> bool" where
  "working n img ctx s \<longleftrightarrow>
     others_ok n img ctx s \<and> chunk_shape (area s) n (chunk_of s n) \<and> ck_io (chunk_of s n) = None \<and>
     bios_of s n = [] \<and> notes_of s n = [] \<and> \<not> cached s n \<and> ctx_chunk ctx \<noteq> Some n"

text \<open>What stays the same around chunk \<open>n\<close>.\<close>

definition same_env :: "cow \<Rightarrow> cow \<Rightarrow> bool" where
  "same_env s s' \<longleftrightarrow>
     nchunks s' = nchunks s \<and> orig_bdev (area s') = orig_bdev (area s) \<and>
     chunk_shift (area s') = chunk_shift (area s) \<and> disks s' = disks s \<and>
     read_cache_queue (area s') = read_cache_queue (area s) \<and>
     write_cache_queue (area s') = write_cache_queue (area s) \<and>
     inflight s' = inflight s \<and> notify s' = notify s"

lemma same_env_refl [simp, intro]: "same_env s s"
  by (simp add: same_env_def)

lemma same_env_trans: "same_env s s' \<Longrightarrow> same_env s' s'' \<Longrightarrow> same_env s s''"
  by (simp add: same_env_def)

lemma same_env_upd_chunk [simp]:
  "same_env s (upd_chunk n f s') \<longleftrightarrow> same_env s s'" "same_env (upd_chunk n f s) s' \<longleftrightarrow> same_env s s'"
  by (simp_all add: same_env_def)

lemma same_env_upd_area [simp]:
  "same_env s (upd_area (\<lambda>a. a\<lparr>pending_io_count := k a\<rparr>) s') \<longleftrightarrow> same_env s s'"
  "same_env s (upd_area (\<lambda>a. a\<lparr>corrupt_flag := x\<rparr>) s') \<longleftrightarrow> same_env s s'"
  "same_env s (upd_area (\<lambda>a. a\<lparr>cache_release_queued := x\<rparr>) s') \<longleftrightarrow> same_env s s'"
  "same_env s (upd_area (\<lambda>a. snd (diff_buffer_release k1 a b)) s') \<longleftrightarrow> same_env s s'"
  "same_env s (s'\<lparr>storage := ds\<rparr>) \<longleftrightarrow> same_env s s'"
  by (simp_all add: same_env_def)

lemma frame_env:
  assumes "same_env s s'" "\<And>m. m \<noteq> n \<Longrightarrow> chunk_of s' m = chunk_of s m" "corrupt_flag (area s) \<Longrightarrow> corrupt_flag (area s')"
  shows "frame n s s'"
  using assms by (simp add: frame_def same_env_def bios_of_def notes_of_def)

lemma same_env_sectors: "same_env s s' \<Longrightarrow> diff_area_chunk_sectors (area s') = diff_area_chunk_sectors (area s)"
  by (simp add: same_env_def diff_area_chunk_sectors_def)

lemma chunk_shape_env: "same_env s s' \<Longrightarrow> chunk_shape (area s') n c \<longleftrightarrow> chunk_shape (area s) n c"
  by (simp add: chunk_shape_def same_env_sectors)

lemma workingI:
  assumes "working n img ctx s" "same_env s s'" "others_ok n img ctx s'"
    "chunk_shape (area s) n (chunk_of s' n)" "ck_io (chunk_of s' n) = None"
  shows "working n img ctx s'"
  using assms
  by (simp add: working_def chunk_shape_env [OF assms(2)]) (simp add: same_env_def bios_of_def notes_of_def cached_def)

lemma workingD:
  assumes "working n img ctx s"
  shows "others_ok n img ctx s" "n < nchunks s" "chunk_shape (area s) n (chunk_of s n)"
    "ck_io (chunk_of s n) = None" "bios_of s n = []" "notes_of s n = []" "\<not> cached s n" "ctx_chunk ctx \<noteq> Some n"
  using assms others_okD(1) by (auto simp: working_def)

lemma chunk_in_cache_iff: "chunk_in_cache s n \<longleftrightarrow> cached s n"
  by (simp add: chunk_in_cache_def cached_def)

lemma working_upd_chunk:
  assumes "working n img ctx s" "ck_io (f (chunk_of s n)) = None" "chunk_shape (area s) n (f (chunk_of s n))"
    "ck_region (f (chunk_of s n)) = ck_region (chunk_of s n) \<or> ck_region (f (chunk_of s n)) = None"
  shows "working n img ctx (upd_chunk n f s)"
  using workingD(1,2) [OF assms(1)] assms(2,3)
  by - (rule workingI [OF assms(1)], simp_all add: others_ok_upd_chunk assms(4))

section \<open>Releasing a buffer and failing\<close>

lemma others_ok_release:
  assumes "others_ok n img ctx s" "buffer_for (diff_area_chunk_sectors (area s)) b"
  shows "others_ok n img ctx (upd_area (\<lambda>a. snd (diff_buffer_release k a b)) s)"
proof (rule others_ok_upd_area [OF assms(1)])
  have "pool_ok (diff_area_chunk_sectors (area s)) (area s)"
    using others_okD(2) [OF assms(1)] by (simp add: area_ok_def)
  from diff_buffer_release_ok [OF this assms(2)] others_okD(2) [OF assms(1)]
  show "area_ok (snd (diff_buffer_release k (area s) b))"
    by (simp add: area_ok_def diff_area_chunk_sectors_def)
qed simp_all

lemma release_working:
  fixes P n s
  defines "s' \<equiv> chunk_diff_buffer_release P n s"
  assumes "working n img ctx s"
  shows "working n img ctx s' \<and> same_env s s' \<and> frame n s s' \<and>
    corrupt_flag (area s') = corrupt_flag (area s) \<and>
    chunk_of s' n = (case ck_buffer (chunk_of s n) of None \<Rightarrow> chunk_of s n
      | Some b \<Rightarrow> chunk_state_unset CHUNK_ST_BUFFER_READY (chunk_of s n)\<lparr>ck_buffer := None\<rparr>)"
proof (cases "ck_buffer (chunk_of s n)")
  case None
  with assms show ?thesis by (simp add: chunk_diff_buffer_release_def)
next
  case (Some b)
  note w = workingD [OF assms(2)]
  let ?s1 = "upd_chunk n (chunk_state_unset CHUNK_ST_BUFFER_READY) s"
  let ?s2 = "upd_area (\<lambda>a. snd (diff_buffer_release (free_diff_buffer_pool_size P) a b)) ?s1"
  have s': "s' = upd_chunk n (\<lambda>c. c\<lparr>ck_buffer := None\<rparr>) ?s2"
    using Some by (simp add: s'_def chunk_diff_buffer_release_def)
  have b: "buffer_for (diff_area_chunk_sectors (area s)) b" using w(3) Some by (simp add: chunk_shape_def)
  have "others_ok n img ctx ?s1" using w(1) by (simp add: others_ok_upd_chunk)
  then have "others_ok n img ctx ?s2"
    using b by (intro others_ok_release) (simp_all add: diff_area_chunk_sectors_def)
  then have o: "others_ok n img ctx s'" unfolding s' by (rule others_ok_upd_chunk) simp
  have c: "chunk_of s' n = chunk_state_unset CHUNK_ST_BUFFER_READY (chunk_of s n)\<lparr>ck_buffer := None\<rparr>"
    using w(2) by (simp add: s')
  have e: "same_env s s'" by (simp add: s')
  have "frame n s s'" using w(2) by (intro frame_env [OF e]) (simp_all add: s')
  moreover have "working n img ctx s'"
    using w(3,4) by (intro workingI [OF assms(2) e o]) (simp_all add: c chunk_shape_def)
  ultimately show ?thesis using c e Some by (simp add: s')
qed

lemma set_corrupted_spec:
  assumes "others_ok n img ctx s"
  shows "\<exists>s'. diff_area_set_corrupted ans e s = Ok s' \<and> others_ok n img ctx s' \<and> same_env s s' \<and>
    corrupt_flag (area s') \<and> chunk_map (area s') = chunk_map (area s)"
proof (cases "corrupt_flag (area s)")
  case True
  with assms show ?thesis by (simp add: diff_area_set_corrupted_def)
next
  case False
  let ?s1 = "upd_area (\<lambda>a. a\<lparr>corrupt_flag := True\<rparr>) s"
  obtain q where q: "diff_area_event_corrupted ans e ?s1 = Ok (?s1\<lparr>storage := (storage s)\<lparr>ds_event_queue := q\<rparr>\<rparr>)"
  proof (cases "fst (ans_bad_event ans)")
    case True
    with that show ?thesis by (simp add: diff_area_event_corrupted_def event_gen_def corrupted_event_data_def)
  next
    case False
    with that [of "ds_event_queue (storage s)"] show ?thesis
      by (simp add: diff_area_event_corrupted_def event_gen_def)
  qed
  have "others_ok n img ctx (?s1\<lparr>storage := (storage s)\<lparr>ds_event_queue := q\<rparr>\<rparr>)"
    using others_okD(5) [OF assms] assms
    by (intro others_ok_storage) (simp_all add: ds_wf_def ds_avail_def)
  with q False show ?thesis by (simp add: diff_area_set_corrupted_def)
qed

text \<open>A chunk that failed is unlocked, outside the caches, and the snapshot is corrupted.\<close>

lemma store_failed_inv:
  assumes "working n img ctx s"
  shows "\<exists>s'. chunk_store_failed P ans n (Some e) s = Ok s' \<and> cow_inv img ctx s' \<and> frame n s s' \<and>
    corrupt_flag (area s') \<and> failed (chunk_of s' n)"
proof -
  let ?s1 = "upd_chunk n (chunk_state_set CHUNK_ST_FAILED) s"
  let ?s2 = "chunk_diff_buffer_release P n ?s1"
  let ?s3 = "up n (upd_chunk n (\<lambda>c. c\<lparr>ck_region := None\<rparr>) ?s2)"
  note w = workingD [OF assms]
  have w1: "working n img ctx ?s1"
    using w(3,4) by (intro working_upd_chunk assms) (simp_all add: chunk_shape_def)
  note r = release_working [OF w1, of P]
  have w2: "working n img ctx ?s2" using r by blast
  note n = workingD(2) [OF w2]
  have o3: "others_ok n img ctx ?s3"
    unfolding up_def using workingD(1) [OF w2] by (intro others_ok_upd_chunk) (simp_all add: n)
  have e3: "same_env s ?s3" using r by (auto simp: up_def intro: same_env_trans)
  obtain s' where s': "diff_area_set_corrupted ans e ?s3 = Ok s'" "others_ok n img ctx s'" "same_env ?s3 s'"
    "corrupt_flag (area s')" "chunk_map (area s') = chunk_map (area ?s3)"
    using set_corrupted_spec [OF o3, of ans e] by blast
  have env: "same_env s s'" using e3 s'(3) by (rule same_env_trans)
  have c: "chunk_of s' n = (chunk_of ?s2 n)\<lparr>ck_region := None, ck_locked := False\<rparr>"
    using n s'(5) by (simp add: up_def)
  have c2: "chunk_of ?s2 n = (case ck_buffer (chunk_of s n) of None \<Rightarrow> chunk_state_set CHUNK_ST_FAILED (chunk_of s n)
      | Some b \<Rightarrow> chunk_state_unset CHUNK_ST_BUFFER_READY (chunk_state_set CHUNK_ST_FAILED (chunk_of s n))\<lparr>ck_buffer := None\<rparr>)"
    using r w(2) by (simp split: option.split)
  have "ck_buffer (chunk_of s n) = None \<Longrightarrow> \<not> buffer_ready (chunk_of s n)" using w(3) by (auto simp: chunk_shape_def)
  then have bits: "failed (chunk_of s' n)" "\<not> buffer_ready (chunk_of s' n)"
    unfolding c c2 by (simp_all split: option.split)
  have ws: "chunk_shape (area s) n (chunk_of s' n)" "ck_io (chunk_of s' n) = None" "\<not> ck_locked (chunk_of s' n)"
    using w(3,4) workingD(3) [OF w2] unfolding c c2 by (auto simp: chunk_shape_def split: option.splits)
  note w' = workingD [OF workingI [OF assms env s'(2) ws(1,2)]]
  have "control_ok ctx s' n"
    using bits ws(2,3) w'(3,5-8) s'(4) by (auto simp: control_ok_def Let_def chunk_shape_def cached_def)
  then have "cow_inv img ctx s'" using cow_inv_iff [of img ctx s' n] s'(2,4) by blast
  moreover have "frame n s s'"
  proof (rule frame_env [OF env])
    fix m assume "m \<noteq> n"
    then have "chunk_of ?s2 m = chunk_of s m"
      using r w(2) frameD(6) [of n ?s1 ?s2 m] by simp
    with \<open>m \<noteq> n\<close> n s'(5) show "chunk_of s' m = chunk_of s m" by (simp add: up_def)
  qed (use s'(4) in simp)
  ultimately show ?thesis using s' bits by (simp add: chunk_store_failed_def Let_def)
qed

section \<open>Starting a request\<close>

lemma new_async: "diff_io_new_async w ok =
  (if ok then Some \<lparr>io_error = None, io_bio_count = 0, io_is_write = w, io_is_sync = False\<rparr> else None)"
  by (simp add: diff_io_new_async_def diff_io_new_def)

text \<open>Either an error, after which the chunk is still the one worked on, or a request whose bios are in
  flight.\<close>

lemma start_io_spec:
  assumes w: "working n img ctx s" and b: "ck_buffer (chunk_of s n) = Some b"
    and fits: "check_page_aligned (reg_sector r) \<Longrightarrow> io_fits r b"
  shows "\<exists>ret s'. chunk_start_io ans n wr st (Some r) nowait s = Ok (ret, s') \<and> frame n s s' \<and>
    (ret \<noteq> None \<longrightarrow> working n img ctx s') \<and>
    (ret = None \<longrightarrow> (\<exists>bios. io_covers r wr bios \<and> others_ok n img ctx s' \<and>
       chunk_of s' n = chunk_state_set st (chunk_of s n)\<lparr>ck_io := Some \<lparr>io_error = None,
         io_bio_count = int (length bios), io_is_write = wr, io_is_sync = False\<rparr>\<rparr> \<and>
       bios_of s' n = bios \<and> notes_of s' n = [] \<and> same_env s (s'\<lparr>inflight := inflight s\<rparr>) \<and>
       corrupt_flag (area s') = corrupt_flag (area s)))"
proof (cases "ans_io ans")
  case False
  with w show ?thesis by (simp add: chunk_start_io_def new_async)
next
  case True
  let ?io = "\<lparr>io_error = None, io_bio_count = 0, io_is_write = wr, io_is_sync = False\<rparr>"
  let ?s0 = "upd_chunk n (\<lambda>c. chunk_state_set st (c\<lparr>ck_io := Some ?io\<rparr>)) s"
  let ?s1 = "upd_area (\<lambda>a. a\<lparr>pending_io_count := pending_io_count a + 1\<rparr>) ?s0"
  let ?fail = "upd_chunk n (\<lambda>c. c\<lparr>ck_io := None\<rparr>) (upd_area (\<lambda>a. a\<lparr>pending_io_count := pending_io_count a - 1\<rparr>) ?s1)"
  note w' = workingD [OF w]
  have o1: "others_ok n img ctx ?s1"
    using w'(1) by (intro others_ok_pending others_ok_upd_chunk) simp_all
  have run: "chunk_start_io ans n wr st (Some r) nowait s =
      bind_outcome (diff_io_do ?io r b (ans_bio ans)) (\<lambda>(ret, io', bios).
        if ret \<noteq> None then Ok (ret, ?fail)
        else Ok (None, (upd_chunk n (\<lambda>c. c\<lparr>ck_io := Some io'\<rparr>) ?s1)\<lparr>inflight := inflight ?s1 @ map (Pair n) bios\<rparr>))"
    using True b w'(2) by (simp add: chunk_start_io_def new_async Let_def)
  have o2: "others_ok n img ctx ?fail"
    by (rule others_ok_upd_chunk [OF others_ok_pending [OF o1]]) simp
  have wf: "working n img ctx ?fail"
    using w'(2,3) b by (intro workingI [OF w _ o2]) (simp_all add: chunk_shape_def)
  have ff: "frame n s ?fail" using w'(2) by (intro frame_env) simp_all
  show ?thesis
  proof (cases "check_page_aligned (reg_sector r)")
    case False
    then have "diff_io_do ?io r b (ans_bio ans) = Ok (Some EINVAL, ?io, [])" by (simp add: diff_io_do_def)
    with run wf ff show ?thesis by simp
  next
    case al: True
    show ?thesis
    proof (rule diff_io_do_fits [OF fits [OF al], of ?io "ans_bio ans"], goal_cases)
      case (1 k io')
      with run wf ff show ?case by simp
    next
      case (2 bios)
      let ?io' = "\<lparr>io_error = None, io_bio_count = int (length bios), io_is_write = wr, io_is_sync = False\<rparr>"
      let ?s2 = "upd_chunk n (\<lambda>c. c\<lparr>ck_io := Some ?io'\<rparr>) ?s1"
      let ?s' = "?s2\<lparr>inflight := inflight ?s2 @ map (Pair n) bios\<rparr>"
      have o3: "others_ok n img ctx ?s2" using o1 by (intro others_ok_upd_chunk) simp_all
      have "chunk_start_io ans n wr st (Some r) nowait s = Ok (None, ?s')"
        using run 2(2) by simp
      moreover have "others_ok n img ctx ?s'" by (rule others_ok_inflight [OF o3])
      moreover have "frame n s ?s'"
        using w'(2) by (auto simp: frame_def bios_of_def notes_of_def filter_map comp_def)
      moreover have "bios_of ?s' n = bios"
        using w'(5) by (simp only: bios_of_append_same) (simp add: bios_of_def)
      moreover have "notes_of ?s' n = []" using w'(6) by (simp add: notes_of_def)
      moreover have "same_env s (?s'\<lparr>inflight := inflight s\<rparr>)" by (simp add: same_env_def)
      moreover have "chunk_of ?s' n = chunk_state_set st (chunk_of s n)\<lparr>ck_io := Some ?io'\<rparr>"
        using w'(2) by (simp add: chunk_state_set_def)
      ultimately show ?case using 2(1) by auto
    qed
  qed
qed

lemma area_ok_sectors:
  assumes "area_ok a"
  shows "PAGE_SECTORS dvd diff_area_chunk_sectors a" "0 < diff_area_chunk_sectors a"
    "diff_area_chunk_sectors a \<le> 2 ^ 18" "unat (of_nat (diff_area_chunk_sectors a) :: u64) = diff_area_chunk_sectors a"
    "ceil_div (diff_area_chunk_sectors a) PAGE_SECTORS < 2 ^ 16"
proof -
  have k: "3 \<le> chunk_shift a - SECTOR_SHIFT" "chunk_shift a - SECTOR_SHIFT \<le> 18"
    using assms by (auto simp: area_ok_def)
  have "(2::nat) ^ 3 dvd diff_area_chunk_sectors a" unfolding diff_area_chunk_sectors_def by (rule le_imp_power_dvd [OF k(1)])
  then show "PAGE_SECTORS dvd diff_area_chunk_sectors a" by simp
  show "0 < diff_area_chunk_sectors a" by (simp add: diff_area_chunk_sectors_def)
  show le: "diff_area_chunk_sectors a \<le> 2 ^ 18"
    unfolding diff_area_chunk_sectors_def by (rule power_increasing [OF k(2)]) simp
  then have "diff_area_chunk_sectors a < 2 ^ 64" by simp
  then show "unat (of_nat (diff_area_chunk_sectors a) :: u64) = diff_area_chunk_sectors a"
    by (simp add: unat_of_nat)
  show "ceil_div (diff_area_chunk_sectors a) PAGE_SECTORS < 2 ^ 16" using le by (simp add: ceil_div_def)
qed

lemma new_region_spec:
  assumes "ds_wf ds"
  shows "\<exists>res ds'. diff_storage_new_region dmin kz ev ds cnt = Ok (res, ds') \<and> ds_wf ds' \<and>
    ds_avail ds' \<subseteq> ds_avail ds \<and>
    (\<forall>r. res = Inr r \<longrightarrow> reg_count r = cnt \<and> region_locs r \<subseteq> ds_avail ds \<and> region_locs r \<inter> ds_avail ds' = {})"
proof (cases rule: new_region_cases [of dmin kz ev ds cnt])
  case (refused e)
  with assms show ?thesis by simp
next
  case (full emp fill n)
  with new_region_loop_free [OF full(3)] assms show ?thesis by (simp add: ds_wf_def ds_avail_def)
next
  case (found r emp fill n)
  with new_region_loop_free [OF found(3)] assms show ?thesis by (auto simp: ds_wf_def ds_avail_def)
qed

lemma others_ok_new_region:
  assumes o: "others_ok n img ctx s" and ds: "ds_wf ds" "ds_avail ds \<subseteq> ds_avail (storage s)"
    and r: "unat (reg_count r) = diff_area_chunk_sectors (area s)" "region_locs r \<subseteq> ds_avail (storage s)"
      "region_locs r \<inter> ds_avail ds = {}"
  shows "others_ok n img ctx (upd_chunk n (\<lambda>c. c\<lparr>ck_region := Some r\<rparr>) (s\<lparr>storage := ds\<rparr>))" (is "others_ok _ _ _ ?s")
proof (rule others_ok_frame [OF o])
  note od = others_okD [OF o]
  have c: "ck_region (chunk_of ?s m) = (if m = n then Some r else ck_region (chunk_of s m))" for m
    using od(1) by simp
  have e: "diff_area_chunk_sectors (area ?s) = diff_area_chunk_sectors (area s)" "orig_bdev (area ?s) = orig_bdev (area s)"
    "storage ?s = ds" "nchunks ?s = nchunks s" by (simp_all add: diff_area_chunk_sectors_def)
  have orig: "(orig_bdev (area s), x) \<notin> ds_avail (storage s)" for x using od(3) by (simp add: regions_ok_def)
  have "(reg_bdev r, unat (reg_sector r)) \<in> region_locs r"
    using r(1) area_ok_sectors(2) [OF od(2)] by (simp add: region_locs_def)
  then have bd: "reg_bdev r \<noteq> orig_bdev (area s)" using r(2) orig by auto
  have old: "unat (reg_count r') = diff_area_chunk_sectors (area s) \<and> reg_bdev r' \<noteq> orig_bdev (area s) \<and>
      region_locs r' \<inter> ds_avail (storage s) = {}" if "m < nchunks s" "ck_region (chunk_of s m) = Some r'" for m r'
    using od(3) that unfolding regions_ok_def by blast
  have dis: "region_locs r1 \<inter> region_locs r2 = {}" if "m1 < nchunks s" "m2 < nchunks s" "m2 \<noteq> m1"
    "ck_region (chunk_of s m1) = Some r1" "ck_region (chunk_of s m2) = Some r2" for m1 m2 r1 r2
    using od(3) that unfolding regions_ok_def by blast
  show "regions_ok ?s"
    unfolding regions_ok_def c e
  proof (intro conjI allI impI)
    show "ds_wf ds" by (fact ds(1))
    show "(orig_bdev (area s), x) \<notin> ds_avail ds" for x using orig ds(2) by blast
    fix m r' assume m: "m < nchunks s" "(if m = n then Some r else ck_region (chunk_of s m)) = Some r'"
    show "unat (reg_count r') = diff_area_chunk_sectors (area s)" "reg_bdev r' \<noteq> orig_bdev (area s)"
      using m bd r(1) old [of m r'] by (auto split: if_splits)
    show "region_locs r' \<inter> ds_avail ds = {}" using m r(3) ds(2) old [of m r'] by (auto split: if_splits)
    fix m2 r2 assume m2: "m2 < nchunks s" "m2 \<noteq> m" "(if m2 = n then Some r else ck_region (chunk_of s m2)) = Some r2"
    show "region_locs r' \<inter> region_locs r2 = {}"
      using m m2 r(2) old [of m r'] old [of m2 r2] dis [of m m2 r' r2] by (auto split: if_splits)
  qed
  show "frame n s ?s" using od(1) by (simp add: frame_def bios_of_def notes_of_def)
  show "area_ok (area ?s)" by (rule area_ok_cong [OF od(2)]) simp_all
  show "queues_ok ?s" using od(4) by (simp add: queues_ok_def)
qed

end
