(* ===== verification/Cow_Steps.thy ===== *)
theory Cow_Steps
  imports Cow_Invariant
begin

text \<open>
  Every operation on a chunk preserves the invariant of copy-on-write: storing and caching a chunk,
  the two notifications of \<^verbatim>\<open>module/chunk.c\<close>, the completion of a bio (\<^verbatim>\<open>diff_io_endio\<close> of
  \<^verbatim>\<open>module/diff_io.c\<close>) and one turn of the loop of \<^verbatim>\<open>diff_area_copy\<close>.  Each lemma also says that the
  operation does not fault and what it leaves alone (\<open>frame\<close>); \<open>claimed\<close> are the chunks that are
  preserved already or on the way to it.
\<close>

section \<open>Storing\<close>

lemma same_env_inflight: "same_env s (s'\<lparr>inflight := inflight s\<rparr>) \<Longrightarrow>
  nchunks s' = nchunks s \<and> orig_bdev (area s') = orig_bdev (area s) \<and> chunk_shift (area s') = chunk_shift (area s) \<and>
  disks s' = disks s \<and> read_cache_queue (area s') = read_cache_queue (area s) \<and>
  write_cache_queue (area s') = write_cache_queue (area s)"
  by (simp add: same_env_def)

lemma io_fits_storage:
  assumes "area_ok a" "unat (reg_count r) = diff_area_chunk_sectors a" "buffer_for (diff_area_chunk_sectors a) b"
    "check_page_aligned (reg_sector r)"
  shows "io_fits r b"
  using area_ok_sectors [OF assms(1)] assms(2-) by (simp add: io_fits_def buffer_for_def)

text \<open>What must hold of the chunk before its buffer is written to the storage.\<close>

definition storable :: "(nat \<Rightarrow> u8) \<Rightarrow> cow \<Rightarrow> nat \<Rightarrow> diff_buffer \<Rightarrow> bool" where
  "storable img s n b \<longleftrightarrow>
     (let c = chunk_of s n; base = chunk_base (area s) n
      in ck_locked c \<and> ck_buffer c = Some b \<and> buffer_ready c \<and> \<not> failed c \<and> \<not> loading c \<and> \<not> storing c \<and>
         (store_ready c \<longrightarrow> dirty c) \<and>
         (\<not> corrupt_flag (area s) \<longrightarrow>
            (\<forall>i<chunk_len c. buf_byte b i = img (base + i) \<and>
               (\<not> dirty c \<longrightarrow> disks s (orig_bdev (area s)) (base + i) = img (base + i)))))"

lemma async_store_spec:
  assumes w: "working n img ctx s" and st: "storable img s n b" and r: "ck_region (chunk_of s n) = Some r"
  shows "\<exists>ret s'. chunk_async_store_diff ans n nowait s = Ok (ret, s') \<and> frame n s s' \<and>
    (ret \<noteq> None \<longrightarrow> working n img ctx s') \<and>
    (ret = None \<longrightarrow> cow_inv img ctx s' \<and> ck_io (chunk_of s' n) \<noteq> None)"
proof -
  note w' = workingD [OF w]
  let ?c = "chunk_of s n"
  have c: "ck_buffer ?c = Some b" using st by (simp add: storable_def Let_def)
  have reg: "unat (reg_count r) = diff_area_chunk_sectors (area s)"
    using others_okD(3) [OF w'(1)] w'(2) r by (simp add: regions_ok_def)
  have fits: "io_fits r b" if "check_page_aligned (reg_sector r)"
    using io_fits_storage [OF others_okD(2) [OF w'(1)] reg _ that] w'(3) c by (simp add: chunk_shape_def)
  obtain ret s' where s': "chunk_start_io ans n True CHUNK_ST_STORING (Some r) nowait s = Ok (ret, s')"
    "ret \<noteq> None \<Longrightarrow> working n img ctx s'" "frame n s s'"
    "ret = None \<Longrightarrow> \<exists>bios. io_covers r True bios \<and> others_ok n img ctx s' \<and>
       chunk_of s' n = chunk_state_set CHUNK_ST_STORING ?c\<lparr>ck_io := Some \<lparr>io_error = None,
         io_bio_count = int (length bios), io_is_write = True, io_is_sync = False\<rparr>\<rparr> \<and>
       bios_of s' n = bios \<and> notes_of s' n = [] \<and> same_env s (s'\<lparr>inflight := inflight s\<rparr>) \<and>
       corrupt_flag (area s') = corrupt_flag (area s)"
    using start_io_spec [OF w c fits, of ans True CHUNK_ST_STORING nowait] by blast
  have run: "chunk_async_store_diff ans n nowait s = Ok (ret, s')"
    using s'(1) r w'(7) by (simp add: chunk_async_store_diff_def chunk_in_cache_iff)
  show ?thesis
  proof (cases ret)
    case (Some e)
    with run s'(2,3) show ?thesis by auto
  next
    case None
    then obtain bios where b: "io_covers r True bios" "others_ok n img ctx s'"
      "chunk_of s' n = chunk_state_set CHUNK_ST_STORING ?c\<lparr>ck_io := Some \<lparr>io_error = None,
         io_bio_count = int (length bios), io_is_write = True, io_is_sync = False\<rparr>\<rparr>"
      "bios_of s' n = bios" "notes_of s' n = []" "same_env s (s'\<lparr>inflight := inflight s\<rparr>)"
      "corrupt_flag (area s') = corrupt_flag (area s)"
      using s'(4) by blast
    note e = same_env_inflight [OF b(6)]
    have cs: "diff_area_chunk_sectors (area s') = diff_area_chunk_sectors (area s)"
      using e by (simp add: diff_area_chunk_sectors_def)
    have "control_ok ctx s' n"
      using w'(3,7,8) st e b(1,3-5) r
      by (simp add: control_ok_def Let_def chunk_shape_def storable_def cs cached_def io_ok_def io_covers_def)
    moreover have "data_ok img ctx s' n" if "\<not> corrupt_flag (area s')"
    proof -
      have base: "chunk_base (area s') n = chunk_base (area s) n" by (simp add: chunk_base_def cs)
      have "\<exists>bio\<in>set bios. i \<in> bio_span bio" if "i < chunk_len ?c" for i
      proof -
        have "i < SECTOR_SIZE * unat (reg_count r)" using that w'(3) reg by (simp add: chunk_shape_def)
        with b(1) show ?thesis by (simp add: io_covers_def)
      qed
      with st that b(7) e show ?thesis
        unfolding data_ok_def Let_def base b(3,4) storable_def by (auto simp: c)
    qed
    ultimately have "cow_inv img ctx s'" using cow_inv_iff [of img ctx s' n] b(2) by blast
    with None run b(3) s'(3) show ?thesis by simp
  qed
qed

lemma storable_cong:
  assumes "storable img s n b" "area s' = area s" "disks s' = disks s"
  shows "storable img s' n b"
  using assms by (simp add: storable_def)

lemma schedule_storing_spec:
  assumes w: "working n img ctx s" and st: "storable img s n b"
  shows "\<exists>ret s'. chunk_schedule_storing P ans n nowait s = Ok (ret, s') \<and> frame n s s' \<and>
    (ret \<noteq> None \<longrightarrow> working n img ctx s') \<and>
    (ret = None \<longrightarrow> cow_inv img ctx s' \<and> ck_io (chunk_of s' n) \<noteq> None)"
proof (cases "ck_region (chunk_of s n)")
  case (Some r)
  with async_store_spec [OF w st Some, of ans nowait] workingD(7) [OF w] show ?thesis
    by (simp add: chunk_schedule_storing_def chunk_in_cache_iff)
next
  case None
  note w' = workingD [OF w] and od = others_okD [OF workingD(1) [OF w]]
  obtain res ds where new: "diff_storage_new_region (diff_storage_minimum P) (ans_region ans) (ans_low_event ans)
        (storage s) (of_nat (diff_area_chunk_sectors (area s))) = Ok (res, ds)" "ds_wf ds"
    "ds_avail ds \<subseteq> ds_avail (storage s)"
    "\<And>r. res = Inr r \<Longrightarrow> reg_count r = of_nat (diff_area_chunk_sectors (area s)) \<and>
       region_locs r \<subseteq> ds_avail (storage s) \<and> region_locs r \<inter> ds_avail ds = {}"
    using new_region_spec [OF od(5)] by blast
  let ?s1 = "s\<lparr>storage := ds\<rparr>"
  show ?thesis
  proof (cases res)
    case (Inl e)
    have "working n img ctx ?s1"
      using w'(3,4) by (intro workingI [OF w] others_ok_storage w'(1) new(2,3)) simp_all
    moreover have "frame n s ?s1" by (intro frame_env) simp_all
    moreover have "chunk_schedule_storing P ans n nowait s = Ok (Some e, ?s1)"
      using None new(1) Inl w'(7) by (simp add: chunk_schedule_storing_def chunk_in_cache_iff)
    ultimately show ?thesis by simp
  next
    case (Inr r)
    let ?s2 = "upd_chunk n (\<lambda>c. c\<lparr>ck_region := Some r\<rparr>) ?s1"
    have o2: "others_ok n img ctx ?s2"
      using new(4) [OF Inr] area_ok_sectors(4) [OF od(2)]
      by (intro others_ok_new_region w'(1) new(2,3)) simp_all
    have w2: "working n img ctx ?s2"
      using w'(2-4) by (intro workingI [OF w _ o2]) (simp_all add: chunk_shape_def)
    have f2: "frame n s ?s2" using w'(2) by (intro frame_env) simp_all
    have st2: "storable img ?s2 n b"
      using st w'(2) by (simp add: storable_def Let_def chunk_base_def diff_area_chunk_sectors_def)
    have "ck_region (chunk_of ?s2 n) = Some r" using w'(2) by simp
    from async_store_spec [OF w2 st2 this, of ans nowait] obtain ret s' where
      s': "chunk_async_store_diff ans n nowait ?s2 = Ok (ret, s')" "frame n ?s2 s'"
      "ret \<noteq> None \<longrightarrow> working n img ctx s'"
      "ret = None \<longrightarrow> cow_inv img ctx s' \<and> ck_io (chunk_of s' n) \<noteq> None"
      by blast
    have "chunk_schedule_storing P ans n nowait s = Ok (ret, s')"
      using None new(1) Inr w'(7) s'(1) by (simp add: chunk_schedule_storing_def chunk_in_cache_iff)
    with s'(3,4) frame_trans [OF f2 s'(2)] show ?thesis by blast
  qed
qed

definition claimed :: "cow \<Rightarrow> nat \<Rightarrow> bool" where
  "claimed s n \<longleftrightarrow>
     failed (chunk_of s n) \<or> dirty (chunk_of s n) \<or> store_ready (chunk_of s n) \<or> ck_io (chunk_of s n) \<noteq> None"

text \<open>Storing, with the chunk given up when that fails.\<close>

lemma store_or_fail:
  assumes "working n img ctx s" "storable img s n b"
  shows "\<exists>ret s'. bind_outcome (chunk_schedule_storing P ans n nowait s) (\<lambda>(ret, s1).
      if ret \<noteq> None then bind_outcome (chunk_store_failed P ans n ret s1) (\<lambda>s2. Ok (ret, s2)) else Ok (None, s1)) =
      Ok (ret, s') \<and> cow_inv img ctx s' \<and> frame n s s' \<and> claimed s' n"
proof -
  obtain ret s1 where s1: "chunk_schedule_storing P ans n nowait s = Ok (ret, s1)" "frame n s s1"
    "ret \<noteq> None \<longrightarrow> working n img ctx s1"
    "ret = None \<longrightarrow> cow_inv img ctx s1 \<and> ck_io (chunk_of s1 n) \<noteq> None"
    using schedule_storing_spec [OF assms, of P ans nowait] by blast
  show ?thesis
  proof (cases ret)
    case None
    with s1 show ?thesis by (simp add: claimed_def)
  next
    case (Some e)
    with s1(3) have "working n img ctx s1" by simp
    from store_failed_inv [OF this, of P ans e] obtain s' where
      s': "chunk_store_failed P ans n (Some e) s1 = Ok s'" "cow_inv img ctx s'" "frame n s1 s'" "failed (chunk_of s' n)"
      by blast
    with Some s1(1) frame_trans [OF s1(2) s'(3)] show ?thesis by (simp add: claimed_def)
  qed
qed

lemma store_or_fail':
  assumes "working n img ctx s" "storable img s n b"
  shows "\<exists>s'. bind_outcome (chunk_schedule_storing P ans n nowait s) (\<lambda>(ret, s1).
      if ret \<noteq> None then chunk_store_failed P ans n ret s1 else Ok s1) =
      Ok s' \<and> cow_inv img ctx s' \<and> frame n s s' \<and> claimed s' n"
  using store_or_fail [OF assms, of P ans nowait]
  by (cases "chunk_schedule_storing P ans n nowait s")
     (auto simp: bind_outcome_assoc split: if_splits dest!: bind_outcome_eq_OkD)

section \<open>Caching\<close>

lemma others_ok_cache_add:
  assumes "others_ok n img ctx s" "\<not> cached s n"
  shows "others_ok n img ctx (upd_area (\<lambda>a. if d
      then a\<lparr>write_cache_queue := write_cache_queue a @ [n], write_cache_count := write_cache_count a + 1\<rparr>
      else a\<lparr>read_cache_queue := read_cache_queue a @ [n], read_cache_count := read_cache_count a + 1\<rparr>) s)"
proof (rule others_ok_upd_area [OF assms(1)])
  note od = others_okD [OF assms(1)]
  show "area_ok (if d
      then (area s)\<lparr>write_cache_queue := write_cache_queue (area s) @ [n], write_cache_count := write_cache_count (area s) + 1\<rparr>
      else (area s)\<lparr>read_cache_queue := read_cache_queue (area s) @ [n], read_cache_count := read_cache_count (area s) + 1\<rparr>)"
    using od(1,2) assms(2) by (simp add: area_ok_def cached_def pool_ok_def diff_area_chunk_sectors_def)
qed simp_all

lemma data_ok_cong:
  assumes "data_ok img ctx s n" "orig_bdev (area s') = orig_bdev (area s)" "chunk_shift (area s') = chunk_shift (area s)"
    "disks s' = disks s" "bios_of s' n = bios_of s n" "ck_state (chunk_of s' n) = ck_state (chunk_of s n)"
    "ck_buffer (chunk_of s' n) = ck_buffer (chunk_of s n)" "ck_region (chunk_of s' n) = ck_region (chunk_of s n)"
    "ck_io (chunk_of s' n) = ck_io (chunk_of s n)" "ck_sector_count (chunk_of s' n) = ck_sector_count (chunk_of s n)"
  shows "data_ok img ctx s' n"
proof -
  have "chunk_base (area s') n = chunk_base (area s) n"
    using assms(3) by (simp add: chunk_base_def diff_area_chunk_sectors_def)
  with assms show ?thesis by (simp add: data_ok_def Let_def)
qed

lemma schedule_caching_spec:
  assumes w: "working n img ctx s"
    and c: "buffer_ready (chunk_of s n)" "\<not> failed (chunk_of s n)" "\<not> loading (chunk_of s n)"
      "\<not> storing (chunk_of s n)" "store_ready (chunk_of s n) \<Longrightarrow> ck_region (chunk_of s n) \<noteq> None"
    and d: "\<not> corrupt_flag (area s) \<Longrightarrow> data_ok img ctx s n"
  shows "\<exists>s'. chunk_schedule_caching P ans n s = Ok s' \<and> cow_inv img ctx s' \<and> frame n s s' \<and>
    chunk_of s' n = (chunk_of s n)\<lparr>ck_locked := False\<rparr>"
proof -
  note w' = workingD [OF w]
  let ?d = "dirty (chunk_of s n)"
  let ?s1 = "upd_area (\<lambda>a. if ?d
      then a\<lparr>write_cache_queue := write_cache_queue a @ [n], write_cache_count := write_cache_count a + 1\<rparr>
      else a\<lparr>read_cache_queue := read_cache_queue a @ [n], read_cache_count := read_cache_count a + 1\<rparr>) s"
  let ?s2 = "up n ?s1"
  define over where "over = ((if ?d then write_cache_count (area ?s1) else read_cache_count (area ?s1)) > chunk_maximum_in_cache P)"
  define s' where "s' = (if over then upd_area (\<lambda>a. a\<lparr>cache_release_queued := True\<rparr>) ?s2 else ?s2)"
  have run: "chunk_schedule_caching P ans n s = Ok s'"
    using w'(7) by (simp add: chunk_schedule_caching_def chunk_in_cache_iff Let_def s'_def over_def)
  have o1: "others_ok n img ctx ?s1" by (rule others_ok_cache_add [OF w'(1,7)])
  then have "others_ok n img ctx ?s2" unfolding up_def by (rule others_ok_upd_chunk) simp
  then have o: "others_ok n img ctx s'" by (simp add: s'_def others_ok_release_queued)
  have ch: "chunk_of s' m = (if m = n then (chunk_of s n)\<lparr>ck_locked := False\<rparr> else chunk_of s m)" for m
    using w'(2) by (simp add: s'_def up_def)
  have e: "orig_bdev (area s') = orig_bdev (area s)" "chunk_shift (area s') = chunk_shift (area s)"
    "disks s' = disks s" "inflight s' = inflight s" "notify s' = notify s" "nchunks s' = nchunks s"
    "corrupt_flag (area s') = corrupt_flag (area s)"
    "read_cache_queue (area s') = read_cache_queue (area s) @ (if ?d then [] else [n])"
    "write_cache_queue (area s') = write_cache_queue (area s) @ (if ?d then [n] else [])"
    by (simp_all add: s'_def up_def)
  have b: "bios_of s' m = bios_of s m" "notes_of s' m = notes_of s m" for m
    by (simp_all add: bios_of_def notes_of_def e)
  have cs: "diff_area_chunk_sectors (area s') = diff_area_chunk_sectors (area s)"
    by (simp add: diff_area_chunk_sectors_def e)
  have "frame n s s'" by (simp add: frame_def e ch b)
  moreover have "control_ok ctx s' n"
    using w'(3-8) c by (auto simp: control_ok_def Let_def ch cs e b chunk_shape_def cached_def)
  moreover have "data_ok img ctx s' n" if "\<not> corrupt_flag (area s')"
    by (rule data_ok_cong [OF d]) (use that in \<open>simp_all add: e ch b\<close>)
  ultimately show ?thesis using run o cow_inv_iff [of img ctx s' n] by (auto simp: ch)
qed

section \<open>Notifications\<close>

lemma cow_invD:
  assumes "cow_inv img ctx s" "n < nchunks s"
  shows "others_ok n img ctx s" "control_ok ctx s n" "\<not> corrupt_flag (area s) \<Longrightarrow> data_ok img ctx s n"
  using assms cow_inv_iff [of img ctx s n] by blast+

lemma cow_invI:
  assumes "others_ok n img ctx s" "control_ok ctx s n" "\<not> corrupt_flag (area s) \<Longrightarrow> data_ok img ctx s n"
  shows "cow_inv img ctx s"
  using assms cow_inv_iff [of img ctx s n] by blast

lemma control_ok_shape: "control_ok ctx s n \<Longrightarrow> chunk_shape (area s) n (chunk_of s n)"
  by (simp add: control_ok_def Let_def chunk_shape_def)

lemma frame_inv_pending:
  assumes "cow_inv img ctx s" "n < nchunks s"
  shows "cow_inv img ctx (pending_dec s)"
proof (rule cow_invI)
  note i = cow_invD [OF assms]
  have f: "frame (nchunks s) s (pending_dec s)"
    by (intro frame_env) (simp_all add: pending_dec_def)
  show "others_ok n img ctx (pending_dec s)" using i(1) by (simp add: pending_dec_def others_ok_pending)
  show "control_ok ctx (pending_dec s) n" by (rule control_ok_frame [OF f _ refl i(2)]) (use assms(2) in simp)
  show "data_ok img ctx (pending_dec s) n" if "\<not> corrupt_flag (area (pending_dec s))"
    by (rule data_ok_frame [OF f _ refl i(3)]) (use assms(2) that in \<open>simp_all add: pending_dec_def\<close>)
qed

lemma pending_dec_simps [simp]:
  "chunk_map (area (pending_dec s)) = chunk_map (area s)" "claimed (pending_dec s) n = claimed s n"
  "frame n s (pending_dec s') = frame n s s'"
  by (simp_all add: pending_dec_def claimed_def frame_def bios_of_def notes_of_def)

lemma filter_remove1_other: "fst x \<noteq> m \<Longrightarrow> filter (\<lambda>y. fst y = m) (remove1 x xs) = filter (\<lambda>y. fst y = m) xs"
  by (induction xs) auto

text \<open>Taking a notification off the queue and the request off its chunk.\<close>

lemma notify_taken:
  assumes inv: "cow_inv img ctx s" and nt: "(n, cb) \<in> set (notify s)"
  defines "s0 \<equiv> s\<lparr>notify := remove1 (n, cb) (notify s)\<rparr>"
  defines "s1 \<equiv> upd_chunk n (\<lambda>c. c\<lparr>ck_io := None\<rparr>) s0"
  obtains io b where "ck_io (chunk_of s0 n) = Some io" "n < nchunks s" "ck_buffer (chunk_of s n) = Some b"
    "ck_locked (chunk_of s n)" "\<not> failed (chunk_of s n)"
    "cb = (if io_is_write io then NotifyStore else NotifyLoad)" "bios_of s n = []"
    "io_ok (area s) (chunk_of s n) io [] [cb]" "working n img ctx s1" "frame n s s1"
    "chunk_of s1 n = (chunk_of s n)\<lparr>ck_io := None\<rparr>" "ctx_chunk ctx \<noteq> Some n"
proof -
  have n: "n < nchunks s" using inv nt by (force simp: cow_inv_def queues_ok_def)
  note i = cow_invD [OF inv n]
  have mem: "cb \<in> set (notes_of s n)" using nt by (force simp: notes_of_def)
  then obtain io where io: "ck_io (chunk_of s n) = Some io"
    using i(2) by (cases "ck_io (chunk_of s n)") (auto simp: control_ok_def Let_def)
  with i(2) have c: "ck_locked (chunk_of s n)" "ctx_chunk ctx \<noteq> Some n" "ck_buffer (chunk_of s n) \<noteq> None"
    "io_ok (area s) (chunk_of s n) io (bios_of s n) (notes_of s n)" "\<not> failed (chunk_of s n)"
    by (auto simp: control_ok_def Let_def)
  have nb: "bios_of s n = []" "notes_of s n = [cb]" "cb = (if io_is_write io then NotifyStore else NotifyLoad)"
    using c(4) mem by (auto simp: io_ok_def split: if_splits)
  have nc: "\<not> cached s n" using i(2) c(1) by (auto simp: control_ok_def Let_def cached_def)
  obtain b where b: "ck_buffer (chunk_of s n) = Some b" using c(3) by blast
  have one: "filter (\<lambda>y. fst y = n) (remove1 (n, cb) xs) = remove1 (n, cb) (filter (\<lambda>y. fst y = n) xs)"
    for xs :: "(nat \<times> notify_cb) list" by (induction xs) auto
  have "filter (\<lambda>y. fst y = n) (notify s) = [(n, cb)]"
    using nb(2) by (auto simp: notes_of_def map_eq_Cons_conv filter_eq_Cons_iff)
  then have nn: "notes_of s0 n = []" by (simp add: notes_of_def s0_def one)
  have f0: "frame n s s0" by (simp add: frame_def s0_def bios_of_def notes_of_def filter_remove1_other)
  have "regions_ok s0" using others_okD [OF i(1)] by - (rule regions_ok_sub [of s], simp_all add: s0_def)
  moreover have "queues_ok s0"
    using others_okD(4) [OF i(1)] set_remove1_subset [of "(n, cb)" "notify s"] by (auto simp: queues_ok_def s0_def)
  ultimately have o0: "others_ok n img ctx s0"
    using others_okD(2) [OF i(1)] by (intro others_ok_frame [OF i(1) f0]) (simp_all add: s0_def)
  then have o1: "others_ok n img ctx s1" unfolding s1_def by (rule others_ok_upd_chunk) simp
  have c1: "chunk_of s1 n = (chunk_of s n)\<lparr>ck_io := None\<rparr>" using n by (simp add: s1_def s0_def)
  have f1: "frame n s s1" using frame_trans [OF f0 frame_upd_chunk] n unfolding s1_def by (simp add: s0_def)
  have e: "diff_area_chunk_sectors (area s1) = diff_area_chunk_sectors (area s)" by (rule frame_sectors [OF f1])
  have b1: "bios_of s1 n = bios_of s n" "notes_of s1 n = notes_of s0 n" "cached s1 n = cached s n"
    by (simp_all add: bios_of_def notes_of_def cached_def s1_def s0_def)
  have "working n img ctx s1"
    unfolding working_def c1 b1 using o1 control_ok_shape [OF i(2)] nb(1) nn nc c(2) e by (simp add: chunk_shape_def)
  with that [of io b] io n b c nb f1 c1 show thesis by (simp add: s0_def)
qed

lemma notify_load_inv:
  assumes inv: "cow_inv img ctx s" and nt: "(n, NotifyLoad) \<in> set (notify s)"
  shows "\<exists>s'. chunk_notify_load P ans n (s\<lparr>notify := remove1 (n, NotifyLoad) (notify s)\<rparr>) = Ok s' \<and>
    cow_inv img ctx s' \<and> frame n s s' \<and> claimed s' n"
proof (rule notify_taken [OF inv nt], goal_cases)
  case (1 io b)
  let ?s0 = "s\<lparr>notify := remove1 (n, NotifyLoad) (notify s)\<rparr>"
  let ?s1 = "upd_chunk n (\<lambda>c. c\<lparr>ck_io := None\<rparr>) ?s0"
  have ld: "loading (chunk_of s n)" "\<not> storing (chunk_of s n)" "\<not> dirty (chunk_of s n)" "\<not> store_ready (chunk_of s n)"
    "\<not> buffer_ready (chunk_of s n)" "\<not> io_is_write io"
    using 1(6,8) by (auto simp: io_ok_def split: if_splits)
  note n = \<open>n < nchunks s\<close>
  have io: "ck_io (chunk_of s n) = Some io" using 1(1) by simp
  have "\<exists>s'. (case io_error io of
                  Some e \<Rightarrow> chunk_store_failed P ans n (Some e) ?s1
                | None \<Rightarrow>
                    if chunk_state_check CHUNK_ST_FAILED (chunk_of ?s1 n) then Ok (up n ?s1)
                    else if chunk_state_check CHUNK_ST_LOADING (chunk_of ?s1 n) then
                      (let s2 = upd_chunk n (\<lambda>c. chunk_state_set CHUNK_ST_BUFFER_READY
                                               (chunk_state_unset CHUNK_ST_LOADING c)) ?s1
                       in bind_outcome (chunk_schedule_storing P ans n False s2) (\<lambda>(ret, s3).
                            if ret \<noteq> None then chunk_store_failed P ans n ret s3 else Ok s3))
                    else Ok (up n ?s1)) = Ok s' \<and> cow_inv img ctx s' \<and> frame n s s' \<and> claimed s' n"
  proof (cases "io_error io")
    case (Some e)
    from store_failed_inv [OF 1(9), of P ans e] Some frame_trans [OF 1(10)] show ?thesis
      by (auto simp: claimed_def)
  next
    case None
    let ?s2 = "upd_chunk n (\<lambda>c. chunk_state_set CHUNK_ST_BUFFER_READY (chunk_state_unset CHUNK_ST_LOADING c)) ?s1"
    have w2: "working n img ctx ?s2"
      using workingD(3,4) [OF 1(9)] 1(3,11) by (intro working_upd_chunk [OF 1(9)]) (simp_all add: chunk_shape_def)
    have c2: "chunk_of ?s2 n = chunk_state_set CHUNK_ST_BUFFER_READY (chunk_state_unset CHUNK_ST_LOADING ((chunk_of s n)\<lparr>ck_io := None\<rparr>))"
      using n by simp
    have f2: "frame n s ?s2" using frame_trans [OF 1(10) frame_upd_chunk] n by simp
    have base: "chunk_base (area ?s2) n = chunk_base (area s) n" by (simp add: chunk_base_def diff_area_chunk_sectors_def)
    have "storable img ?s2 n b"
      unfolding storable_def Let_def c2 base
    proof (intro conjI impI allI)
      fix i assume nc: "\<not> corrupt_flag (area ?s2)" and "i < chunk_len (chunk_state_set CHUNK_ST_BUFFER_READY
          (chunk_state_unset CHUNK_ST_LOADING ((chunk_of s n)\<lparr>ck_io := None\<rparr>)))"
      then have i: "i < chunk_len (chunk_of s n)" by simp
      have d: "data_ok img ctx s n" using cow_invD(3) [OF inv n] nc by simp
      have "buf_byte b i = img (chunk_base (area s) n + i) \<and>
          disks s (orig_bdev (area s)) (chunk_base (area s) n + i) = img (chunk_base (area s) n + i)"
        using d i ld io None 1(3,7,12) by (simp add: data_ok_def Let_def)
      then show "buf_byte b i = img (chunk_base (area s) n + i)"
        "disks ?s2 (orig_bdev (area ?s2)) (chunk_base (area s) n + i) = img (chunk_base (area s) n + i)" by simp_all
    qed (use 1(3-5) ld in simp_all)
    from store_or_fail' [OF w2 this, of P ans False] None frame_trans [OF f2] ld 1(5,11) show ?thesis
      by auto
  qed
  then obtain s' where s': "chunk_notify_load P ans n ?s0 = Ok (pending_dec s')" "cow_inv img ctx s'" "frame n s s'" "claimed s' n"
    using 1(1) by (auto simp: chunk_notify_load_def)
  have "cow_inv img ctx (pending_dec s')"
    by (rule frame_inv_pending [OF s'(2)]) (use n frameD(1) [OF s'(3)] in simp)
  with s' show ?case by simp
qed

lemma notify_store_inv:
  assumes inv: "cow_inv img ctx s" and nt: "(n, NotifyStore) \<in> set (notify s)"
  shows "\<exists>s'. chunk_notify_store P ans n (s\<lparr>notify := remove1 (n, NotifyStore) (notify s)\<rparr>) = Ok s' \<and>
    cow_inv img ctx s' \<and> frame n s s' \<and> claimed s' n"
proof (rule notify_taken [OF inv nt], goal_cases)
  case (1 io b)
  let ?s0 = "s\<lparr>notify := remove1 (n, NotifyStore) (notify s)\<rparr>"
  let ?s1 = "upd_chunk n (\<lambda>c. c\<lparr>ck_io := None\<rparr>) ?s0"
  have wr: "io_is_write io" using 1(6) by (auto split: if_splits)
  with 1(8) obtain r where st: "storing (chunk_of s n)" "\<not> loading (chunk_of s n)" "buffer_ready (chunk_of s n)"
    "store_ready (chunk_of s n) \<longrightarrow> dirty (chunk_of s n)" "ck_region (chunk_of s n) = Some r"
    by (auto simp: io_ok_def)
  note n = \<open>n < nchunks s\<close> and w1 = 1(9)
  have io: "ck_io (chunk_of s n) = Some io" using 1(1) by simp
  let ?s2 = "upd_chunk n (\<lambda>c. chunk_state_set CHUNK_ST_STORE_READY (chunk_state_unset CHUNK_ST_STORING c)) ?s1"
  have w2: "working n img ctx ?s2"
    using workingD(3,4) [OF w1] 1(3,11) by (intro working_upd_chunk [OF w1]) (simp_all add: chunk_shape_def)
  have c2: "chunk_of ?s2 n = chunk_state_set CHUNK_ST_STORE_READY (chunk_state_unset CHUNK_ST_STORING ((chunk_of s n)\<lparr>ck_io := None\<rparr>))"
    using n by simp
  have f2: "frame n s ?s2" using frame_trans [OF 1(10) frame_upd_chunk] n by simp
  have base: "chunk_base (area ?s2) n = chunk_base (area s) n" by (simp add: chunk_base_def diff_area_chunk_sectors_def)
  have stored: "disks s (reg_bdev r) (reg_base r + i) = img (chunk_base (area s) n + i) \<and>
      buf_byte b i = img (chunk_base (area s) n + i)"
    if "\<not> corrupt_flag (area s)" "io_error io = None" "i < chunk_len (chunk_of s n)" for i
    using cow_invD(3) [OF inv n that(1)] that(2,3) st io 1(3,7) by (simp add: data_ok_def Let_def)
  have "\<exists>s'. (case io_error io of
                  Some e \<Rightarrow> chunk_store_failed P ans n (Some e) ?s1
                | None \<Rightarrow>
                    if chunk_state_check CHUNK_ST_FAILED (chunk_of ?s1 n) then chunk_store_failed P ans n None ?s1
                    else if chunk_state_check CHUNK_ST_STORING (chunk_of ?s1 n) then
                      (let s2 = upd_chunk n (\<lambda>c. chunk_state_set CHUNK_ST_STORE_READY
                                               (chunk_state_unset CHUNK_ST_STORING c)) ?s1
                       in if chunk_state_check CHUNK_ST_DIRTY (chunk_of s2 n)
                          then Ok (up n (chunk_diff_buffer_release P n
                                 (upd_chunk n (chunk_state_unset CHUNK_ST_DIRTY) s2)))
                          else chunk_schedule_caching P ans n s2)
                    else Ok (up n ?s1)) = Ok s' \<and> cow_inv img ctx s' \<and> frame n s s' \<and> claimed s' n"
  proof (cases "io_error io")
    case (Some e)
    from store_failed_inv [OF w1, of P ans e] Some frame_trans [OF 1(10)] show ?thesis
      by (auto simp: claimed_def)
  next
    case None
    show ?thesis
    proof (cases "dirty (chunk_of s n)")
      case False
      have "\<exists>s'. chunk_schedule_caching P ans n ?s2 = Ok s' \<and> cow_inv img ctx s' \<and> frame n ?s2 s' \<and>
        chunk_of s' n = (chunk_of ?s2 n)\<lparr>ck_locked := False\<rparr>"
      proof (rule schedule_caching_spec [OF w2])
        show "data_ok img ctx ?s2 n" if "\<not> corrupt_flag (area ?s2)"
          unfolding data_ok_def Let_def base c2
          using that stored [OF _ None] 1(3,12) st False by simp
      qed (unfold c2, use st 1(5) in simp_all)
      then obtain s' where s': "chunk_schedule_caching P ans n ?s2 = Ok s'" "cow_inv img ctx s'" "frame n ?s2 s'"
        "chunk_of s' n = (chunk_of ?s2 n)\<lparr>ck_locked := False\<rparr>" by blast
      have "claimed s' n" unfolding claimed_def s'(4) c2 by simp
      with s'(1,2) frame_trans [OF f2 s'(3)] None False st 1(5) n show ?thesis by (simp add: Let_def)
    next
      case True
      let ?s3 = "upd_chunk n (chunk_state_unset CHUNK_ST_DIRTY) ?s2"
      let ?s4 = "chunk_diff_buffer_release P n ?s3"
      let ?s' = "up n ?s4"
      have w3: "working n img ctx ?s3"
        using workingD(2-4) [OF w2] st 1(3) by (intro working_upd_chunk [OF w2]) (simp_all add: chunk_shape_def)
      note r4 = release_working [OF w3, of P]
      have w4: "working n img ctx ?s4" using r4 by blast
      note n4 = workingD(2) [OF w4]
      have o: "others_ok n img ctx ?s'" unfolding up_def by (rule others_ok_upd_chunk [OF workingD(1) [OF w4]]) simp
      have f3: "frame n s ?s3" using frame_trans [OF f2 frame_upd_chunk] n by simp
      have f4: "frame n s ?s4" using f3 r4 by (blast intro: frame_trans)
      have f: "frame n s ?s'" unfolding up_def by (rule frame_trans [OF f4 frame_upd_chunk [OF n4]])
      have c3: "chunk_of ?s3 n = chunk_state_unset CHUNK_ST_DIRTY (chunk_of ?s2 n)" using n by simp
      have c: "chunk_of ?s' n = (chunk_state_unset CHUNK_ST_BUFFER_READY (chunk_of ?s3 n))\<lparr>ck_buffer := None, ck_locked := False\<rparr>"
        using r4 n4 1(3) n by (simp add: up_def)
      have bits: "store_ready (chunk_of ?s' n)" "\<not> dirty (chunk_of ?s' n)" "\<not> buffer_ready (chunk_of ?s' n)"
        "\<not> failed (chunk_of ?s' n)" "\<not> loading (chunk_of ?s' n)" "\<not> storing (chunk_of ?s' n)"
        "ck_region (chunk_of ?s' n) = Some r" "ck_io (chunk_of ?s' n) = None" "\<not> ck_locked (chunk_of ?s' n)"
        "chunk_len (chunk_of ?s' n) = chunk_len (chunk_of s n)"
        unfolding c c3 c2 using st 1(5) by simp_all
      have q: "bios_of ?s' n = []" "notes_of ?s' n = []" "\<not> cached ?s' n"
        using workingD(5-7) [OF w4] by (simp_all add: up_def bios_of_def notes_of_def cached_def)
      have sh: "chunk_shape (area ?s') n (chunk_of ?s' n)"
        using workingD(3) [OF w2] frame_sectors [OF f] frame_sectors [OF f2] bits(3)
        unfolding c c3 by (simp add: chunk_shape_def)
      have "control_ok ctx ?s' n"
        using bits q sh 1(12) by (auto simp: control_ok_def Let_def chunk_shape_def cached_def)
      moreover have "data_ok img ctx ?s' n" if "\<not> corrupt_flag (area ?s')"
      proof -
        have nc: "\<not> corrupt_flag (area s)" using that frameD(5) [OF f] by blast
        have bs: "chunk_base (area ?s') n = chunk_base (area s) n" using frame_sectors [OF f] by (simp add: chunk_base_def)
        show ?thesis
          unfolding data_ok_def Let_def bs using stored [OF nc None] bits frameD(4) [OF f] by simp
      qed
      ultimately have "cow_inv img ctx ?s'" by (rule cow_invI [OF o])
      moreover have "claimed ?s' n" using bits(1) by (simp add: claimed_def)
      ultimately show ?thesis using None True st 1(5) f n by (simp add: Let_def)
    qed
  qed
  then obtain s' where s': "chunk_notify_store P ans n ?s0 = Ok (pending_dec s')" "cow_inv img ctx s'" "frame n s s'" "claimed s' n"
    using 1(1) by (auto simp: chunk_notify_store_def)
  have "cow_inv img ctx (pending_dec s')"
    by (rule frame_inv_pending [OF s'(2)]) (use n frameD(1) [OF s'(3)] in simp)
  with s' show ?case by simp
qed

section \<open>Completion of bios\<close>

text \<open>A bio of chunk \<open>n\<close> ends with a status: the data is transferred, \<^verbatim>\<open>diff_io_endio\<close> runs, and the last
  bio queues the notification.\<close>

definition cow_bio_end :: "nat \<Rightarrow> bio \<Rightarrow> bio_status \<Rightarrow> cow \<Rightarrow> cow outcome" where
  "cow_bio_end n bio st s =
     (case (ck_io (chunk_of s n), ck_buffer (chunk_of s n)) of
        (Some io, Some b) \<Rightarrow>
          bind_outcome (bio_exec bio st (disks s) b) (\<lambda>(dk, b').
            case diff_io_endio (st = None) io of (io', last_bio) \<Rightarrow>
              Ok ((upd_chunk n (\<lambda>c. c\<lparr>ck_io := Some io', ck_buffer := Some b'\<rparr>) s)
                    \<lparr>disks := dk, inflight := remove1 (n, bio) (inflight s),
                     notify := notify s @ (if last_bio then [(n, if io_is_write io then NotifyStore else NotifyLoad)] else [])\<rparr>))
      | _ \<Rightarrow> Fault)"

lemma io_bio_span:
  assumes "io_bio r w bio"
  shows "bio_span bio \<subseteq> {..<SECTOR_SIZE * unat (reg_count r)}"
proof -
  obtain k m where km: "0 < m" "PAGE_SECTORS dvd k" "k + m \<le> unat (reg_count r)" "bio = region_bio r w k m"
    using assms by (auto simp: io_bio_def)
  have "SECTOR_SIZE * (k + m) \<le> SECTOR_SIZE * unat (reg_count r)" using km(3) by (rule mult_le_mono2)
  then show ?thesis unfolding km(4) bio_span_region [OF km(1,2)] by auto
qed

lemma region_byte_loc:
  "i < SECTOR_SIZE * unat (reg_count r) \<Longrightarrow> (reg_bdev r, (reg_base r + i) div SECTOR_SIZE) \<in> region_locs r"
  by (auto simp: region_locs_def)

lemma region_byte_outside:
  assumes "(d, x div SECTOR_SIZE) \<notin> region_locs r" "io_bio r w bio"
  shows "d \<noteq> reg_bdev r \<or> x < reg_base r \<or> x - reg_base r \<notin> bio_span bio"
proof (rule ccontr)
  assume "\<not> ?thesis"
  then have "d = reg_bdev r" "reg_base r \<le> x" "x - reg_base r < SECTOR_SIZE * unat (reg_count r)"
    using io_bio_span [OF assms(2)] by auto
  with region_byte_loc [of "x - reg_base r" r] assms(1) show False by simp
qed

text \<open>Writing to the region of chunk \<open>n\<close> does not disturb the other chunks.\<close>

lemma others_ok_disks:
  assumes o: "others_ok n img ctx s" and r: "ck_region (chunk_of s n) = Some r"
    and dk: "\<And>d x. (d, x div SECTOR_SIZE) \<notin> region_locs r \<Longrightarrow> dk d x = disks s d x"
  shows "others_ok n img ctx (s\<lparr>disks := dk\<rparr>)" (is "others_ok _ _ _ ?s")
proof -
  note od = others_okD [OF o]
  have reg: "reg_bdev r \<noteq> orig_bdev (area s)" using od(1,3) r by (simp add: regions_ok_def)
  have orig: "dk (orig_bdev (area s)) x = disks s (orig_bdev (area s)) x" for x
    using reg by (intro dk) (auto simp: region_locs_def)
  have data: "data_ok img ctx ?s m" if m: "m < nchunks s" "m \<noteq> n" "control_ok ctx s m" "data_ok img ctx s m" for m
  proof -
    have same: "dk (reg_bdev r') (reg_base r' + i) = disks s (reg_bdev r') (reg_base r' + i)"
      if "ck_region (chunk_of s m) = Some r'" "i < chunk_len (chunk_of s m)" for r' i
    proof (rule dk)
      have "unat (reg_count r') = diff_area_chunk_sectors (area s)" "region_locs r' \<inter> region_locs r = {}"
        using od(1,3) r m(1,2) that(1) unfolding regions_ok_def by blast+
      moreover have "ck_sector_count (chunk_of s m) \<le> diff_area_chunk_sectors (area s)"
        using m(3) by (simp add: control_ok_def Let_def)
      ultimately have "i < SECTOR_SIZE * unat (reg_count r')" using that(2) by linarith
      from region_byte_loc [OF this] \<open>region_locs r' \<inter> region_locs r = {}\<close>
      show "(reg_bdev r', (reg_base r' + i) div SECTOR_SIZE) \<notin> region_locs r" by blast
    qed
    have b: "bios_of ?s m = bios_of s m" by (simp add: bios_of_def)
    from m(4) show ?thesis
      unfolding data_ok_def Let_def b using same orig by simp
  qed
  have ctl: "control_ok ctx ?s m = control_ok ctx s m" for m
    by (simp add: control_ok_def Let_def bios_of_def notes_of_def cached_def cong: option.case_cong)
  have "regions_ok ?s" using od by - (rule regions_ok_sub [of s], simp_all)
  moreover have "queues_ok ?s" using od(4) by (simp add: queues_ok_def)
  ultimately show ?thesis using o data unfolding others_ok_def ctl by simp
qed

lemma filter_remove1_same:
  "filter (\<lambda>y. fst y = n) (remove1 (n, x) xs) = remove1 (n, x) (filter (\<lambda>y. fst y = n) xs)"
  by (induction xs) auto

lemma map_snd_remove1:
  "(\<forall>y\<in>set xs. fst y = n) \<Longrightarrow> map snd (remove1 (n, x) xs) = remove1 x (map snd xs)"
  by (induction xs) auto

lemma bios_of_remove1:
  assumes "inflight s' = remove1 (n, bio) (inflight s)"
  shows "bios_of s' m = (if m = n then remove1 bio (bios_of s n) else bios_of s m)"
  using assms filter_remove1_other [of "(n, bio)" m "inflight s"]
  by (simp add: bios_of_def filter_remove1_same map_snd_remove1)

text \<open>What is common to both directions: the new state, and the rest of the area in it.\<close>

lemma bio_end_others:
  assumes o: "others_ok n img ctx (s\<lparr>disks := dk\<rparr>)"
    and s': "s' = (upd_chunk n (\<lambda>c. c\<lparr>ck_io := Some io', ck_buffer := Some b'\<rparr>) s)
        \<lparr>disks := dk, inflight := remove1 (n, bio) (inflight s), notify := notify s @ (if l then [(n, cb)] else [])\<rparr>"
  shows "others_ok n img ctx s'"
proof (rule others_ok_frame [OF o])
  note od = others_okD [OF o]
  show "frame n (s\<lparr>disks := dk\<rparr>) s'"
    using od(1) by (simp add: frame_def s' notes_of_def bios_of_remove1 [of s' n bio s, unfolded s'] bios_of_def
        filter_remove1_other)
  show "area_ok (area s')" by (rule area_ok_cong [OF od(2)]) (simp_all add: s')
  show "regions_ok s'" using od by - (rule regions_ok_sub [of "s\<lparr>disks := dk\<rparr>"], simp_all add: s')
  show "queues_ok s'" using od(1,4) set_remove1_subset [of "(n, bio)" "inflight s"] by (auto simp: queues_ok_def s')
qed

lemma orig_region_base:
  assumes "area_ok a" "n < length (chunk_map a)" "chunk_shape a n c"
  shows "reg_base (chunk_orig_region a c) = chunk_base a n" "unat (reg_count (chunk_orig_region a c)) = ck_sector_count c"
    "PAGE_SECTORS dvd unat (reg_sector (chunk_orig_region a c))"
proof -
  have "n * diff_area_chunk_sectors a \<le> length (chunk_map a) * diff_area_chunk_sectors a"
    using assms(2) by (intro mult_le_mono1) simp
  moreover have "length (chunk_map a) * diff_area_chunk_sectors a < 2 ^ 64" using assms(1) unfolding area_ok_def by blast
  ultimately have lt: "n * diff_area_chunk_sectors a < 2 ^ 64" by (rule le_less_trans)
  have "unat (of_nat (n * diff_area_chunk_sectors a) :: u64) = n * diff_area_chunk_sectors a"
    using lt by (simp add: unat_of_nat del: of_nat_mult)
  then have s: "unat (reg_sector (chunk_orig_region a c)) = n * diff_area_chunk_sectors a"
    using assms(3) by (simp add: chunk_orig_region_def chunk_shape_def)
  then show "reg_base (chunk_orig_region a c) = chunk_base a n" by (simp add: chunk_base_def)
  show "PAGE_SECTORS dvd unat (reg_sector (chunk_orig_region a c))"
    unfolding s using area_ok_sectors(1) [OF assms(1)] by simp
  have "ck_sector_count c < 2 ^ 64"
    using assms(3) area_ok_sectors(3) [OF assms(1)] by (simp add: chunk_shape_def)
  then show "unat (reg_count (chunk_orig_region a c)) = ck_sector_count c"
    by (simp add: chunk_orig_region_def unat_of_nat)
qed

lemma set_remove1_cases: "x \<in> set xs \<Longrightarrow> x \<noteq> y \<Longrightarrow> x \<in> set (remove1 y xs)"
  by simp

lemma bio_end_inv:
  assumes inv: "cow_inv img ctx s" and fl: "(n, bio) \<in> set (inflight s)"
  shows "\<exists>s'. cow_bio_end n bio st s = Ok s' \<and> cow_inv img ctx s' \<and> nchunks s' = nchunks s \<and>
    area s' = (area s)\<lparr>chunk_map := (chunk_map (area s))[n := chunk_of s' n]\<rparr> \<and>
    ck_state (chunk_of s' n) = ck_state (chunk_of s n) \<and> ck_io (chunk_of s' n) \<noteq> None"
proof -
  have n: "n < nchunks s" using inv fl by (force simp: cow_inv_def queues_ok_def)
  note i = cow_invD [OF inv n]
  have mem: "bio \<in> set (bios_of s n)" using fl by (force simp: bios_of_def)
  then obtain io where io: "ck_io (chunk_of s n) = Some io"
    using i(2) by (cases "ck_io (chunk_of s n)") (auto simp: control_ok_def Let_def)
  with i(2) have c: "ck_locked (chunk_of s n)" "ctx_chunk ctx \<noteq> Some n" "ck_buffer (chunk_of s n) \<noteq> None"
    "io_ok (area s) (chunk_of s n) io (bios_of s n) (notes_of s n)" "\<not> failed (chunk_of s n)"
    by (auto simp: control_ok_def Let_def)
  obtain b where b: "ck_buffer (chunk_of s n) = Some b" using c(3) by blast
  have sh: "chunk_shape (area s) n (chunk_of s n)" by (rule control_ok_shape [OF i(2)])
  then have bf: "buffer_for (diff_area_chunk_sectors (area s)) b" using b by (simp add: chunk_shape_def)
  have cnt: "io_bio_count io = int (length (bios_of s n))" "notes_of s n = []" using c(4) mem by (auto simp: io_ok_def)
  let ?io = "io\<lparr>io_error := (if st = None then io_error io else Some EIO), io_bio_count := io_bio_count io - 1\<rparr>"
  let ?cb = "if io_is_write io then NotifyStore else NotifyLoad"
  let ?s = "\<lambda>dk b'. (upd_chunk n (\<lambda>c. c\<lparr>ck_io := Some ?io, ck_buffer := Some b'\<rparr>) s)
      \<lparr>disks := dk, inflight := remove1 (n, bio) (inflight s),
       notify := notify s @ (if io_bio_count io = 1 then [(n, ?cb)] else [])\<rparr>"
  have run: "cow_bio_end n bio st s = Ok (?s dk b')" if "bio_exec bio st (disks s) b = Ok (dk, b')" for dk b'
    using that by (simp add: cow_bio_end_def io b diff_io_endio_eq)
  have ch: "chunk_of (?s dk b') n = (chunk_of s n)\<lparr>ck_io := Some ?io, ck_buffer := Some b'\<rparr>" for dk b' using n by simp
  have bios: "bios_of (?s dk b') n = remove1 bio (bios_of s n)" for dk b'
    using bios_of_remove1 [of "?s dk b'" n bio s n] by simp
  have nts: "notes_of (?s dk b') n = (if remove1 bio (bios_of s n) = [] then [?cb] else [])" for dk b'
  proof -
    have "io_bio_count io = 1 \<longleftrightarrow> remove1 bio (bios_of s n) = []"
      using cnt(1) mem length_remove1 [of bio "bios_of s n"] by (cases "bios_of s n") (auto split: if_splits)
    with cnt(2) show ?thesis by (simp add: notes_of_def)
  qed
  have sec: "diff_area_chunk_sectors (area (?s dk b')) = diff_area_chunk_sectors (area s)" for dk b'
    by (simp add: diff_area_chunk_sectors_def)
  have ior: "chunk_orig_region (area (?s dk b')) (chunk_of (?s dk b') n) = chunk_orig_region (area s) (chunk_of s n)" for dk b'
    unfolding ch by (simp add: chunk_orig_region_def diff_area_chunk_sectors_def)
  have "1 \<le> length (bios_of s n)" using mem by (cases "bios_of s n") simp_all
  then have rest: "int (length (remove1 bio (bios_of s n))) = io_bio_count io - 1"
    using mem cnt(1) by (simp only: length_remove1 of_nat_diff if_True of_nat_1)
  have sub: "x \<in> set (bios_of s n)" if "x \<in> set (remove1 bio (bios_of s n))" for x
    using that set_remove1_subset [of bio "bios_of s n"] by blast
  have ctl: "control_ok ctx (?s dk b') n" if "buffer_for (diff_area_chunk_sectors (area s)) b'" for dk b'
  proof -
    have "io_ok (area (?s dk b')) (chunk_of (?s dk b') n) ?io (remove1 bio (bios_of s n))
        (if remove1 bio (bios_of s n) = [] then [?cb] else [])"
      using c(4) sub rest unfolding io_ok_def ior by (auto simp: ch n)
    with i(2) c that io show ?thesis
      unfolding control_ok_def Let_def bios nts sec ch by (simp add: n)
  qed
  have env: "\<exists>s'. cow_bio_end n bio st s = Ok s' \<and> cow_inv img ctx s' \<and> nchunks s' = nchunks s \<and>
      area s' = (area s)\<lparr>chunk_map := (chunk_map (area s))[n := chunk_of s' n]\<rparr> \<and>
      ck_state (chunk_of s' n) = ck_state (chunk_of s n) \<and> ck_io (chunk_of s' n) \<noteq> None"
    if ex: "bio_exec bio st (disks s) b = Ok (dk, b')" and o: "others_ok n img ctx (s\<lparr>disks := dk\<rparr>)"
      and bf': "buffer_for (diff_area_chunk_sectors (area s)) b'"
      and d: "\<not> corrupt_flag (area s) \<Longrightarrow> data_ok img ctx (?s dk b') n" for dk b'
  proof -
    have o': "others_ok n img ctx (?s dk b')" by (rule bio_end_others [OF o refl])
    have "cow_inv img ctx (?s dk b')" by (rule cow_invI [OF o' ctl [OF bf']]) (use d in simp)
    moreover have "area (?s dk b') = (area s)\<lparr>chunk_map := (chunk_map (area s))[n := chunk_of (?s dk b') n]\<rparr>"
      unfolding ch by (simp add: upd_chunk_def)
    ultimately show ?thesis using run [OF ex] by (intro exI [of _ "?s dk b'"]) (simp add: n)
  qed
  have left: "i \<in> bio_span bio" if "\<forall>x\<in>set (remove1 bio (bios_of s n)). i \<notin> bio_span x" "\<not> (\<forall>x\<in>set (bios_of s n). i \<notin> bio_span x)" for i
    using that set_remove1_cases by metis
  have base: "chunk_base (area (?s dk b')) n = chunk_base (area s) n" for dk b' unfolding chunk_base_def sec ..
  show ?thesis
  proof (cases "io_is_write io")
    case False
    let ?r = "chunk_orig_region (area s) (chunk_of s n)"
    have ld: "loading (chunk_of s n)" "\<not> storing (chunk_of s n)" "\<not> dirty (chunk_of s n)" "\<not> store_ready (chunk_of s n)"
      "\<not> buffer_ready (chunk_of s n)" "io_bio ?r False bio"
      using c(4) mem False by (auto simp: io_ok_def)
    note org = orig_region_base [OF others_okD(2) [OF i(1)] n sh]
    have "ceil_div (unat (reg_count ?r)) PAGE_SECTORS \<le> page_count b"
      using bf sh org(2) ceil_div_mono by (simp add: buffer_for_def chunk_shape_def)
    then obtain b' where b': "bio_exec bio st (disks s) b = Ok (disks s, b')" "buffer_ok b'" "buf_size b' = buf_size b"
      "page_count b' = page_count b" "\<And>k. k \<notin> bio_span bio \<Longrightarrow> buf_byte b' k = buf_byte b k"
      "\<And>k. st = None \<Longrightarrow> k \<in> bio_span bio \<Longrightarrow> buf_byte b' k = disks s (orig_bdev (area s)) (chunk_base (area s) n + k)"
      using bio_exec_read [OF _ _ ld(6), of b st "disks s"] bf org(1)
      by (auto simp: buffer_for_def chunk_orig_region_def)
    show ?thesis
    proof (rule env [OF b'(1)])
      show "others_ok n img ctx (s\<lparr>disks := disks s\<rparr>)" using i(1) by simp
      show "buffer_for (diff_area_chunk_sectors (area s)) b'" using bf b'(2-4) by (simp add: buffer_for_def)
      assume nc: "\<not> corrupt_flag (area s)"
      note d = i(3) [OF nc]
      show "data_ok img ctx (?s (disks s) b') n"
        unfolding data_ok_def Let_def bios base ch
      proof (intro allI impI conjI, goal_cases)
        case (3 k bb)
        have k: "k < chunk_len (chunk_of s n)" using 3(1) by simp
        have ne: "st = None" "io_error io = None" using 3(3) by (auto split: if_splits)
        have orig: "disks s (orig_bdev (area s)) (chunk_base (area s) n + k) = img (chunk_base (area s) n + k)"
          using d k ld(3,4) c(2) by (simp add: data_ok_def Let_def)
        show ?case
        proof (cases "k \<in> bio_span bio")
          case True
          with b'(6) ne(1) orig 3(5) show ?thesis by simp
        next
          case F: False
          then have "\<forall>x\<in>set (bios_of s n). k \<notin> bio_span x" using left 3(4) by blast
          then have "buf_byte b k = img (chunk_base (area s) n + k)"
            using d k ld(1) b io ne(2) by (simp add: data_ok_def Let_def)
          with b'(5) [OF F] 3(5) show ?thesis by simp
        qed
      next
        case (2 k)
        with d ld(4) c(2) show ?case by (simp add: data_ok_def Let_def)
      qed (use ld in simp_all)
    qed
  next
    case True
    then obtain r where stg: "storing (chunk_of s n)" "\<not> loading (chunk_of s n)" "buffer_ready (chunk_of s n)"
      "store_ready (chunk_of s n) \<longrightarrow> dirty (chunk_of s n)" "ck_region (chunk_of s n) = Some r" "io_bio r True bio"
      using c(4) mem by (auto simp: io_ok_def)
    have rc: "unat (reg_count r) = diff_area_chunk_sectors (area s)" "reg_bdev r \<noteq> orig_bdev (area s)"
      using others_okD(3) [OF i(1)] n stg(5) by (simp_all add: regions_ok_def)
    obtain dk where dk: "bio_exec bio st (disks s) b = Ok (dk, b)"
      "\<And>d x. d \<noteq> reg_bdev r \<or> x < reg_base r \<or> x - reg_base r \<notin> bio_span bio \<Longrightarrow> dk d x = disks s d x"
      "\<And>k. st = None \<Longrightarrow> k \<in> bio_span bio \<Longrightarrow> dk (reg_bdev r) (reg_base r + k) = buf_byte b k"
      using bio_exec_write [OF _ _ stg(6), of b st "disks s"] bf rc(1) by (auto simp: buffer_for_def)
    show ?thesis
    proof (rule env [OF dk(1) _ bf])
      show "others_ok n img ctx (s\<lparr>disks := dk\<rparr>)"
        by (rule others_ok_disks [OF i(1) stg(5)]) (rule dk(2) [OF region_byte_outside [OF _ stg(6)]])
      assume nc: "\<not> corrupt_flag (area s)"
      note d = i(3) [OF nc]
      have orig: "dk (orig_bdev (area s)) x = disks s (orig_bdev (area s)) x" for x using rc(2) by (intro dk(2)) auto
      show "data_ok img ctx (?s dk b) n"
        unfolding data_ok_def Let_def bios base ch
      proof (intro allI impI conjI, goal_cases)
        case (1 k bb)
        with d b show ?case by (simp add: data_ok_def Let_def)
      next
        case (2 k)
        with d stg(4) c(2) orig show ?case by (simp add: data_ok_def Let_def)
      next
        case (4 k r' bb)
        have k: "k < chunk_len (chunk_of s n)" using 4(1) by simp
        have ne: "st = None" "io_error io = None" using 4(3) by (auto split: if_splits)
        show ?case
        proof (cases "k \<in> bio_span bio")
          case True
          with dk(3) ne(1) 4(5,6) stg(5) show ?thesis by simp
        next
          case F: False
          then have "\<forall>x\<in>set (bios_of s n). k \<notin> bio_span x" using left 4(4) by blast
          then have "disks s (reg_bdev r) (reg_base r + k) = buf_byte b k"
            using d k stg(1,5) b io ne(2) by (simp add: data_ok_def Let_def)
          with dk(2) [of "reg_bdev r" "reg_base r + k"] F 4(5,6) stg(5) show ?thesis by simp
        qed
      qed (use stg in simp_all)
    qed
  qed
qed

section \<open>Taking the semaphore\<close>

lemma up_down:
  assumes "n < nchunks s" "\<not> ck_locked (chunk_of s n)"
  shows "up n (down n s) = s"
proof -
  have "(chunk_of s n)\<lparr>ck_locked := False\<rparr> = chunk_of s n" using assms(2) by simp
  then have "(chunk_map (area s))[n := (chunk_of s n)\<lparr>ck_locked := False\<rparr>] = chunk_map (area s)"
    by (metis list_update_id)
  with assms(1) show ?thesis by (simp add: up_def down_def upd_chunk_def)
qed

lemma frame_down: "n < nchunks s \<Longrightarrow> frame n s (down n s)"
  by (simp add: down_def frame_upd_chunk)

lemma down_simps [simp]:
  "n < nchunks s \<Longrightarrow> chunk_of (down n s) n = (chunk_of s n)\<lparr>ck_locked := True\<rparr>"
  "storage (down n s) = storage s" "disks (down n s) = disks s" "inflight (down n s) = inflight s"
  "notify (down n s) = notify s" "read_cache_queue (area (down n s)) = read_cache_queue (area s)"
  "write_cache_queue (area (down n s)) = write_cache_queue (area s)" "nchunks (down n s) = nchunks s"
  "read_cache_count (area (down n s)) = read_cache_count (area s)"
  "write_cache_count (area (down n s)) = write_cache_count (area s)"
  "corrupt_flag (area (down n s)) = corrupt_flag (area s)" "orig_bdev (area (down n s)) = orig_bdev (area s)"
  "chunk_shift (area (down n s)) = chunk_shift (area s)"
  by (simp_all add: down_def)

lemma unlocked_facts:
  assumes "control_ok ctx s n" "\<not> ck_locked (chunk_of s n)"
  shows "ck_io (chunk_of s n) = None" "ctx_chunk ctx \<noteq> Some n" "bios_of s n = []" "notes_of s n = []"
    "failed (chunk_of s n) \<or> \<not> loading (chunk_of s n) \<and> \<not> storing (chunk_of s n)"
    "buffer_ready (chunk_of s n) \<longleftrightarrow> cached s n"
proof -
  show io: "ck_io (chunk_of s n) = None"
    using assms by (cases "ck_io (chunk_of s n)") (auto simp: control_ok_def Let_def)
  then show "ctx_chunk ctx \<noteq> Some n" "bios_of s n = []" "notes_of s n = []"
    "failed (chunk_of s n) \<or> \<not> loading (chunk_of s n) \<and> \<not> storing (chunk_of s n)"
    "buffer_ready (chunk_of s n) \<longleftrightarrow> cached s n"
    using assms by (auto simp: control_ok_def Let_def cached_def)
qed

lemma enter_working:
  assumes "cow_inv img ctx s" "n < nchunks s" "\<not> ck_locked (chunk_of s n)" "\<not> cached s n"
  shows "working n img ctx (down n s)"
proof -
  note i = cow_invD [OF assms(1,2)]
  note u = unlocked_facts [OF i(2) assms(3)]
  have "others_ok n img ctx (down n s)" unfolding down_def by (rule others_ok_upd_chunk [OF i(1)]) simp
  moreover have "chunk_shape (area (down n s)) n (chunk_of (down n s) n)"
    using control_ok_shape [OF i(2)] assms(2) by (simp add: chunk_shape_def diff_area_chunk_sectors_def)
  ultimately show ?thesis
    using u(1-4) assms(2,4) by (simp add: working_def bios_of_def notes_of_def cached_def)
qed

text \<open>Taking the chunk out of the cache it is in.\<close>

lemma others_ok_uncache:
  assumes o: "others_ok n img ctx s"
    and q: "read_cache_queue (f (area s)) = remove1 n (read_cache_queue (area s))"
      "write_cache_queue (f (area s)) = remove1 n (write_cache_queue (area s))"
      "read_cache_count (f (area s)) = int (length (read_cache_queue (f (area s))))"
      "write_cache_count (f (area s)) = int (length (write_cache_queue (f (area s))))"
      "free_diff_buffers (f (area s)) = free_diff_buffers (area s)"
      "free_diff_buffers_count (f (area s)) = free_diff_buffers_count (area s)"
      "chunk_map (f (area s)) = chunk_map (area s)" "orig_bdev (f (area s)) = orig_bdev (area s)"
      "chunk_shift (f (area s)) = chunk_shift (area s)" "corrupt_flag (f (area s)) = corrupt_flag (area s)"
  shows "others_ok n img ctx (upd_area f s)" "frame n s (upd_area f s)" "\<not> cached (upd_area f s) n"
proof -
  note od = others_okD [OF o]
  have d: "distinct (read_cache_queue (area s))" "distinct (write_cache_queue (area s))"
    using od(2) by (simp_all add: area_ok_def)
  show "others_ok n img ctx (upd_area f s)"
  proof (rule others_ok_upd_area [OF o])
    show "area_ok (f (area s))"
      using od(2) d set_remove1_subset [of n "read_cache_queue (area s)"] set_remove1_subset [of n "write_cache_queue (area s)"]
      unfolding area_ok_def by (auto simp: q pool_ok_def diff_area_chunk_sectors_def)
  qed (simp_all add: q)
  show "frame n s (upd_area f s)" by (simp add: frame_def q bios_of_def notes_of_def)
  show "\<not> cached (upd_area f s) n" using d by (simp add: cached_def q)
qed

lemma count_remove1: "n \<in> set q \<Longrightarrow> int (length (remove1 n q)) = int (length q) - 1"
proof -
  assume a: "n \<in> set q"
  then have "1 \<le> length q" by (cases q) simp_all
  with a show ?thesis by (simp only: length_remove1 of_nat_diff if_True of_nat_1)
qed

lemma uncached_working:
  assumes inv: "cow_inv img ctx s" and n: "n < nchunks s" "\<not> ck_locked (chunk_of s n)" "cached s n"
    and f: "\<And>a. f a = (if dirty (chunk_of s n)
       then a\<lparr>read_cache_queue := remove1 n (read_cache_queue a), write_cache_queue := remove1 n (write_cache_queue a),
              write_cache_count := write_cache_count a - 1\<rparr>
       else a\<lparr>read_cache_queue := remove1 n (read_cache_queue a), write_cache_queue := remove1 n (write_cache_queue a),
              read_cache_count := read_cache_count a - 1\<rparr>)"
  defines "s' \<equiv> upd_area f (down n s)"
  shows "working n img ctx s'" "frame n s s'" "chunk_of s' n = (chunk_of s n)\<lparr>ck_locked := True\<rparr>"
    "corrupt_flag (area s') = corrupt_flag (area s)"
proof -
  note i = cow_invD [OF inv n(1)]
  note u = unlocked_facts [OF i(2) n(2)] and od = others_okD [OF cow_invD(1) [OF inv n(1)]]
  have o: "others_ok n img ctx (down n s)" unfolding down_def by (rule others_ok_upd_chunk [OF i(1)]) simp
  have qs: "if dirty (chunk_of s n)
      then n \<in> set (write_cache_queue (area s)) \<and> n \<notin> set (read_cache_queue (area s))
      else n \<in> set (read_cache_queue (area s)) \<and> n \<notin> set (write_cache_queue (area s))"
    using i(2) n(3) by (auto simp: control_ok_def Let_def cached_def)
  have cn: "read_cache_count (area s) = int (length (read_cache_queue (area s)))"
    "write_cache_count (area s) = int (length (write_cache_queue (area s)))" using od(2) by (simp_all add: area_ok_def)
  have len: "read_cache_count (f (area (down n s))) = int (length (read_cache_queue (f (area (down n s)))))"
    "write_cache_count (f (area (down n s))) = int (length (write_cache_queue (f (area (down n s)))))"
    using qs cn by (auto simp: f count_remove1 remove1_idem split: if_splits)
  have "others_ok n img ctx s'" "frame n (down n s) s'" "\<not> cached s' n"
    unfolding s'_def by (rule others_ok_uncache [where f = f, OF o _ _ len]; simp add: f)+
  moreover show c: "chunk_of s' n = (chunk_of s n)\<lparr>ck_locked := True\<rparr>" using n(1) by (simp add: s'_def f)
  moreover have e: "bios_of s' n = bios_of s n" "notes_of s' n = notes_of s n"
    by (simp_all add: s'_def bios_of_def notes_of_def)
  moreover have "diff_area_chunk_sectors (area s') = diff_area_chunk_sectors (area s)"
    by (simp add: s'_def f diff_area_chunk_sectors_def)
  ultimately show "working n img ctx s'"
    using u control_ok_shape [OF i(2)] by (simp add: working_def chunk_shape_def)
  show "frame n s s'" using frame_trans [OF frame_down [OF n(1)]] \<open>frame n (down n s) s'\<close> by blast
  show "corrupt_flag (area s') = corrupt_flag (area s)" by (simp add: s'_def f)
qed

lemma take_from_cache_working:
  assumes inv: "cow_inv img ctx s" and n: "n < nchunks s" "\<not> ck_locked (chunk_of s n)"
  defines "s' \<equiv> diff_area_take_chunk_from_cache n (down n s)"
  shows "working n img ctx s'" "frame n s s'" "chunk_of s' n = (chunk_of s n)\<lparr>ck_locked := True\<rparr>"
    "corrupt_flag (area s') = corrupt_flag (area s)"
proof -
  have "working n img ctx s' \<and> frame n s s' \<and> chunk_of s' n = (chunk_of s n)\<lparr>ck_locked := True\<rparr> \<and>
    corrupt_flag (area s') = corrupt_flag (area s)"
  proof (cases "cached s n")
    case False
    then have "s' = down n s"
      by (simp add: s'_def diff_area_take_chunk_from_cache_def chunk_in_cache_iff cached_def)
    with enter_working [OF inv n False] frame_down [OF n(1)] n(1) show ?thesis by simp
  next
    case True
    let ?f = "\<lambda>a. if dirty (chunk_of s n)
       then a\<lparr>read_cache_queue := remove1 n (read_cache_queue a), write_cache_queue := remove1 n (write_cache_queue a),
              write_cache_count := write_cache_count a - 1\<rparr>
       else a\<lparr>read_cache_queue := remove1 n (read_cache_queue a), write_cache_queue := remove1 n (write_cache_queue a),
              read_cache_count := read_cache_count a - 1\<rparr>"
    have "s' = upd_area ?f (down n s)"
      using True n(1) by (simp add: s'_def diff_area_take_chunk_from_cache_def chunk_in_cache_iff cached_def Let_def upd_area_def)
    with uncached_working [OF inv n True refl, of] show ?thesis by simp
  qed
  then show "working n img ctx s'" "frame n s s'" "chunk_of s' n = (chunk_of s n)\<lparr>ck_locked := True\<rparr>"
    "corrupt_flag (area s') = corrupt_flag (area s)" by blast+
qed

section \<open>Copy-on-write of a chunk\<close>

lemma others_ok_take:
  assumes o: "others_ok n img ctx s"
    and t: "diff_buffer_take (area s) (diff_area_chunk_sectors (area s)) nowait kz alloc = (res, a)"
  shows "others_ok n img ctx (s\<lparr>area := a\<rparr>)" "frame n s (s\<lparr>area := a\<rparr>)" "same_env s (s\<lparr>area := a\<rparr>)"
    "\<And>b. res = Inr b \<Longrightarrow> buffer_for (diff_area_chunk_sectors (area s)) b"
proof -
  note f = diff_buffer_take_area [OF t] and od = others_okD [OF o]
  have p: "pool_ok (diff_area_chunk_sectors (area s)) (area s)" using od(2) by (simp add: area_ok_def)
  note tk = diff_buffer_take_ok [OF p t]
  show e: "same_env s (s\<lparr>area := a\<rparr>)" by (simp add: same_env_def f)
  show fr: "frame n s (s\<lparr>area := a\<rparr>)" by (rule frame_env [OF e]) (simp_all add: f)
  show "others_ok n img ctx (s\<lparr>area := a\<rparr>)"
  proof (rule others_ok_frame [OF o fr])
    have "diff_area_chunk_sectors a = diff_area_chunk_sectors (area s)" by (simp add: diff_area_chunk_sectors_def f)
    with od(2) tk show "area_ok (area (s\<lparr>area := a\<rparr>))" by (simp add: area_ok_def f)
    show "regions_ok (s\<lparr>area := a\<rparr>)" using od by - (rule regions_ok_sub [of s], simp_all add: f)
    show "queues_ok (s\<lparr>area := a\<rparr>)" using od(4) by (simp add: queues_ok_def f)
  qed
  show "buffer_for (diff_area_chunk_sectors (area s)) b" if "res = Inr b" for b using tk that by simp
qed

lemma working_take:
  assumes w: "working n img ctx s"
    and t: "diff_buffer_take (area s) (diff_area_chunk_sectors (area s)) nowait kz alloc = (res, a)"
  shows "working n img ctx (s\<lparr>area := a\<rparr>)" "frame n s (s\<lparr>area := a\<rparr>)" "chunk_of (s\<lparr>area := a\<rparr>) n = chunk_of s n"
    "corrupt_flag a = corrupt_flag (area s)"
    "\<And>b. res = Inr b \<Longrightarrow> working n img ctx (upd_chunk n (\<lambda>c. c\<lparr>ck_buffer := Some b\<rparr>) (s\<lparr>area := a\<rparr>)) \<and>
      buffer_for (diff_area_chunk_sectors (area s)) b"
proof -
  note w' = workingD [OF w] and ot = others_ok_take [OF workingD(1) [OF w] t] and f = diff_buffer_take_area [OF t]
  show ws: "working n img ctx (s\<lparr>area := a\<rparr>)"
    using w'(3,4) by (intro workingI [OF w ot(3,1)]) (simp_all add: f)
  show "frame n s (s\<lparr>area := a\<rparr>)" by (rule ot(2))
  show "chunk_of (s\<lparr>area := a\<rparr>) n = chunk_of s n" "corrupt_flag a = corrupt_flag (area s)" by (simp_all add: f)
  fix b assume "res = Inr b"
  then have "buffer_for (diff_area_chunk_sectors (area s)) b" by (rule ot(4))
  moreover have "working n img ctx (upd_chunk n (\<lambda>c. c\<lparr>ck_buffer := Some b\<rparr>) (s\<lparr>area := a\<rparr>))"
    using w'(3,4) calculation same_env_sectors [OF ot(3)]
    by (intro working_upd_chunk [OF ws]) (simp_all add: f chunk_shape_def)
  ultimately show "working n img ctx (upd_chunk n (\<lambda>c. c\<lparr>ck_buffer := Some b\<rparr>) (s\<lparr>area := a\<rparr>)) \<and>
      buffer_for (diff_area_chunk_sectors (area s)) b" by blast
qed

lemma async_load_spec:
  assumes w: "working n img ctx s" and b: "ck_buffer (chunk_of s n) = Some b"
    and c: "ck_locked (chunk_of s n)" "\<not> failed (chunk_of s n)" "\<not> dirty (chunk_of s n)" "\<not> store_ready (chunk_of s n)"
      "\<not> buffer_ready (chunk_of s n)" "\<not> storing (chunk_of s n)"
    and d: "\<And>i. \<not> corrupt_flag (area s) \<Longrightarrow> i < chunk_len (chunk_of s n) \<Longrightarrow>
      disks s (orig_bdev (area s)) (chunk_base (area s) n + i) = img (chunk_base (area s) n + i)"
  shows "\<exists>ret s'. chunk_async_load_orig ans n nowait s = Ok (ret, s') \<and> frame n s s' \<and>
    (ret \<noteq> None \<longrightarrow> working n img ctx s') \<and>
    (ret = None \<longrightarrow> cow_inv img ctx s' \<and> ck_io (chunk_of s' n) \<noteq> None)"
proof -
  note w' = workingD [OF w]
  let ?c = "chunk_of s n" and ?r = "chunk_orig_region (area s) (chunk_of s n)"
  note org = orig_region_base [OF others_okD(2) [OF w'(1)] w'(2,3)]
  have fits: "io_fits ?r b" if "check_page_aligned (reg_sector ?r)"
  proof -
    have "ck_sector_count ?c \<le> diff_area_chunk_sectors (area s)" "0 < ck_sector_count ?c"
      "buffer_for (diff_area_chunk_sectors (area s)) b" using w'(3) b by (simp_all add: chunk_shape_def)
    with ceil_div_mono [OF this(1), of PAGE_SECTORS] area_ok_sectors(5) [OF others_okD(2) [OF w'(1)]] org(2) that
    show ?thesis by (simp add: io_fits_def buffer_for_def)
  qed
  obtain ret s' where s': "chunk_start_io ans n False CHUNK_ST_LOADING (Some ?r) nowait s = Ok (ret, s')"
    "ret \<noteq> None \<Longrightarrow> working n img ctx s'" "frame n s s'"
    "ret = None \<Longrightarrow> \<exists>bios. io_covers ?r False bios \<and> others_ok n img ctx s' \<and>
       chunk_of s' n = chunk_state_set CHUNK_ST_LOADING ?c\<lparr>ck_io := Some \<lparr>io_error = None,
         io_bio_count = int (length bios), io_is_write = False, io_is_sync = False\<rparr>\<rparr> \<and>
       bios_of s' n = bios \<and> notes_of s' n = [] \<and> same_env s (s'\<lparr>inflight := inflight s\<rparr>) \<and>
       corrupt_flag (area s') = corrupt_flag (area s)"
    using start_io_spec [OF w b fits, of ans False CHUNK_ST_LOADING nowait] by blast
  have run: "chunk_async_load_orig ans n nowait s = Ok (ret, s')" using s'(1) by (simp add: chunk_async_load_orig_def)
  show ?thesis
  proof (cases ret)
    case (Some e)
    with run s'(2,3) show ?thesis by auto
  next
    case None
    then obtain bios where bs: "io_covers ?r False bios" "others_ok n img ctx s'"
      "chunk_of s' n = chunk_state_set CHUNK_ST_LOADING ?c\<lparr>ck_io := Some \<lparr>io_error = None,
         io_bio_count = int (length bios), io_is_write = False, io_is_sync = False\<rparr>\<rparr>"
      "bios_of s' n = bios" "notes_of s' n = []" "same_env s (s'\<lparr>inflight := inflight s\<rparr>)"
      "corrupt_flag (area s') = corrupt_flag (area s)"
      using s'(4) by blast
    note e = same_env_inflight [OF bs(6)]
    have cs: "diff_area_chunk_sectors (area s') = diff_area_chunk_sectors (area s)" by (rule frame_sectors [OF s'(3)])
    have reg: "chunk_orig_region (area s') (chunk_of s' n) = ?r"
      unfolding bs(3) using e by (simp add: chunk_orig_region_def cs)
    have "io_ok (area s') (chunk_of s' n) \<lparr>io_error = None, io_bio_count = int (length bios), io_is_write = False,
        io_is_sync = False\<rparr> bios []"
      unfolding io_ok_def reg using bs(1,3) c by (simp add: io_covers_def)
    then have "control_ok ctx s' n"
      using w'(3,7,8) c b e
      unfolding control_ok_def Let_def bs(4,5) cs by (simp add: bs(3) chunk_shape_def cached_def)
    moreover have "data_ok img ctx s' n" if "\<not> corrupt_flag (area s')"
    proof -
      have base: "chunk_base (area s') n = chunk_base (area s) n" by (simp add: chunk_base_def cs)
      have "\<exists>bio\<in>set bios. i \<in> bio_span bio" if "i < chunk_len ?c" for i
        using that bs(1) org(2) by (simp add: io_covers_def mult.commute)
      with d that bs(7) e c show ?thesis
        unfolding data_ok_def Let_def base bs(3,4) by auto
    qed
    ultimately have "cow_inv img ctx s'" by (rule cow_invI [OF bs(2)])
    with None run bs(3) s'(3) show ?thesis by simp
  qed
qed

lemma fail_or:
  assumes "ret \<noteq> None \<longrightarrow> working n img ctx s" "ret = None \<longrightarrow> cow_inv img ctx s \<and> ck_io (chunk_of s n) \<noteq> None"
  shows "\<exists>s'. (if ret \<noteq> None then bind_outcome (chunk_store_failed P ans n ret s) (\<lambda>s''. Ok (ret, s'')) else Ok (None, s)) =
      Ok (ret, s') \<and> cow_inv img ctx s' \<and> frame n s s' \<and> claimed s' n"
proof (cases ret)
  case None
  with assms show ?thesis by (simp add: claimed_def)
next
  case (Some e)
  with assms store_failed_inv [of n img ctx s P ans e] show ?thesis by (auto simp: claimed_def)
qed

text \<open>One turn of \<^verbatim>\<open>diff_area_copy\<close>: the chunk is claimed afterwards, whatever happens.\<close>

lemma copy_chunk_inv:
  assumes inv: "cow_inv img ctx s" and n: "n < nchunks s" "\<not> ck_locked (chunk_of s n)"
  shows "\<exists>ret s'. copy_locked_chunk P ans n nowait (down n s) = Ok (ret, s') \<and> cow_inv img ctx s' \<and>
    frame n s s' \<and> claimed s' n"
proof -
  note i = cow_invD [OF inv n(1)]
  note u = unlocked_facts [OF i(2) n(2)]
  let ?c = "chunk_of s n" and ?c' = "(chunk_of s n)\<lparr>ck_locked := True\<rparr>"
  have base: "chunk_base (area s') n = chunk_base (area s) n" if "frame n s s'" for s'
    using frame_sectors [OF that] by (simp add: chunk_base_def)
  show ?thesis
  proof (cases "failed ?c \<or> dirty ?c \<or> store_ready ?c")
    case True
    with up_down [OF n] inv n(1) show ?thesis by (auto simp: copy_locked_chunk_def Let_def claimed_def)
  next
    case fresh: False
    have orig: "disks s (orig_bdev (area s)) (chunk_base (area s) n + k) = img (chunk_base (area s) n + k)"
      if "\<not> corrupt_flag (area s)" "k < chunk_len ?c" for k
      using i(3) [OF that(1)] that(2) fresh u(2) by (simp add: data_ok_def Let_def)
    show ?thesis
    proof (cases "buffer_ready ?c")
      case True
      let ?s1 = "diff_area_take_chunk_from_cache n (down n s)"
      note t = take_from_cache_working [OF inv n]
      obtain b where b: "ck_buffer ?c = Some b" using True control_ok_shape [OF i(2)] by (auto simp: chunk_shape_def)
      have "buf_byte b k = img (chunk_base (area s) n + k)" if "\<not> corrupt_flag (area s)" "k < chunk_len ?c" for k
        using i(3) [OF that(1)] that(2) True b by (simp add: data_ok_def Let_def)
      then have "storable img ?s1 n b"
        unfolding storable_def Let_def t(3,4) base [OF t(2)] frameD(2,4) [OF t(2)]
        using True b fresh u(5) orig by simp
      from schedule_storing_spec [OF t(1) this, of P ans nowait] obtain ret s2 where
        s2: "chunk_schedule_storing P ans n nowait ?s1 = Ok (ret, s2)" "frame n ?s1 s2"
        "ret \<noteq> None \<longrightarrow> working n img ctx s2" "ret = None \<longrightarrow> cow_inv img ctx s2 \<and> ck_io (chunk_of s2 n) \<noteq> None"
        by blast
      from fail_or [OF s2(3,4), of P ans] obtain s' where
        "(if ret \<noteq> None then bind_outcome (chunk_store_failed P ans n ret s2) (\<lambda>s''. Ok (ret, s'')) else Ok (None, s2)) = Ok (ret, s')"
        "cow_inv img ctx s'" "frame n s2 s'" "claimed s' n" by blast
      with s2(1,2) t(2) fresh True u(5) n(1) show ?thesis
        by (auto simp: copy_locked_chunk_def Let_def intro: frame_trans)
    next
      case False
      with u(6) have w: "working n img ctx (down n s)" by (intro enter_working [OF inv n]) simp
      obtain res a where tk: "diff_buffer_take (area (down n s)) (diff_area_chunk_sectors (area (down n s))) nowait
          (ans_buffer ans) (ans_page ans) = (res, a)" by fastforce
      note wt = working_take [OF w tk]
      let ?s1 = "(down n s)\<lparr>area := a\<rparr>"
      have f1: "frame n s ?s1" by (rule frame_trans [OF frame_down [OF n(1)] wt(2)])
      show ?thesis
      proof (cases res)
        case (Inl e)
        from fail_or [of "Some e" n img ctx ?s1 P ans] wt(1) obtain s' where
          "bind_outcome (chunk_store_failed P ans n (Some e) ?s1) (\<lambda>s''. Ok (Some e, s'')) = Ok (Some e, s')"
          "cow_inv img ctx s'" "frame n ?s1 s'" "claimed s' n" by auto
        with Inl tk f1 fresh False u(5) n(1) show ?thesis
          by (auto simp: copy_locked_chunk_def Let_def intro: frame_trans)
      next
        case (Inr b)
        let ?s2 = "upd_chunk n (\<lambda>c. c\<lparr>ck_buffer := Some b\<rparr>) ?s1"
        have w2: "working n img ctx ?s2" using wt(5) [OF Inr] by blast
        have n1: "n < nchunks ?s1" using workingD(2) [OF wt(1)] .
        have f2: "frame n s ?s2" by (rule frame_trans [OF f1 frame_upd_chunk [OF n1]])
        have c2: "chunk_of ?s2 n = ?c'\<lparr>ck_buffer := Some b\<rparr>" using n1 wt(3) n(1) by simp
        have corr: "corrupt_flag (area ?s2) = corrupt_flag (area s)" using wt(4) by simp
        have "\<exists>ret s'. chunk_async_load_orig ans n nowait ?s2 = Ok (ret, s') \<and> frame n ?s2 s' \<and>
            (ret \<noteq> None \<longrightarrow> working n img ctx s') \<and>
            (ret = None \<longrightarrow> cow_inv img ctx s' \<and> ck_io (chunk_of s' n) \<noteq> None)"
          by (rule async_load_spec [OF w2]; unfold c2 corr base [OF f2] frameD(2,4) [OF f2])
             (use fresh False u(5) orig in simp_all)
        then obtain ret s3 where s3: "chunk_async_load_orig ans n nowait ?s2 = Ok (ret, s3)" "frame n ?s2 s3"
          "ret \<noteq> None \<longrightarrow> working n img ctx s3" "ret = None \<longrightarrow> cow_inv img ctx s3 \<and> ck_io (chunk_of s3 n) \<noteq> None"
          by blast
        from fail_or [OF s3(3,4), of P ans] obtain s' where
          "(if ret \<noteq> None then bind_outcome (chunk_store_failed P ans n ret s3) (\<lambda>s''. Ok (ret, s'')) else Ok (None, s3)) = Ok (ret, s')"
          "cow_inv img ctx s'" "frame n s3 s'" "claimed s' n" by blast
        with s3(1,2) Inr tk f2 fresh False u(5) n(1) show ?thesis
          by (auto simp: copy_locked_chunk_def Let_def intro: frame_trans)
      qed
    qed
  qed
qed

end
