(* ===== verification/Cow_Image.thy ===== *)
theory Cow_Image
  imports Cow_Steps
begin

text \<open>
  The operations of the cleaner of the caches and of the snapshot image (\<^verbatim>\<open>module/diff_area.c\<close>) preserve
  the invariant of copy-on-write: releasing a cached chunk, loading a chunk for the image, giving it
  back, and copying between its buffer and the segments of a request.
\<close>

section \<open>Releasing cached chunks\<close>

lemma idle_without_buffer:
  assumes w: "working n img ctx s"
    and c: "\<not> failed (chunk_of s n)" "\<not> dirty (chunk_of s n)" "\<not> loading (chunk_of s n)" "\<not> storing (chunk_of s n)"
      "\<not> buffer_ready (chunk_of s n)" "store_ready (chunk_of s n) \<Longrightarrow> ck_region (chunk_of s n) \<noteq> None"
    and d: "\<And>i. \<not> corrupt_flag (area s) \<Longrightarrow> i < chunk_len (chunk_of s n) \<Longrightarrow>
      (if store_ready (chunk_of s n)
       then \<forall>r. ck_region (chunk_of s n) = Some r \<longrightarrow> disks s (reg_bdev r) (reg_base r + i) = img (chunk_base (area s) n + i)
       else disks s (orig_bdev (area s)) (chunk_base (area s) n + i) = img (chunk_base (area s) n + i))"
  shows "cow_inv img ctx (up n s)"
proof (rule cow_invI)
  note w' = workingD [OF w]
  show "others_ok n img ctx (up n s)" unfolding up_def by (rule others_ok_upd_chunk [OF w'(1)]) simp
  have ch: "chunk_of (up n s) n = (chunk_of s n)\<lparr>ck_locked := False\<rparr>" using w'(2) by (simp add: up_def)
  have e: "bios_of (up n s) n = []" "notes_of (up n s) n = []" "\<not> cached (up n s) n"
    "diff_area_chunk_sectors (area (up n s)) = diff_area_chunk_sectors (area s)"
    using w'(5-7) by (simp_all add: up_def bios_of_def notes_of_def cached_def diff_area_chunk_sectors_def)
  show "control_ok ctx (up n s) n"
    unfolding control_ok_def Let_def ch e(1,2,4) using c w'(3,4,8) e(3) by (simp add: chunk_shape_def cached_def)
  show "data_ok img ctx (up n s) n" if "\<not> corrupt_flag (area (up n s))"
  proof -
    have b: "chunk_base (area (up n s)) n = chunk_base (area s) n" "disks (up n s) = disks s"
      "orig_bdev (area (up n s)) = orig_bdev (area s)" "corrupt_flag (area (up n s)) = corrupt_flag (area s)"
      by (simp_all add: up_def chunk_base_def diff_area_chunk_sectors_def)
    show ?thesis unfolding data_ok_def Let_def ch e(1) b using that b(4) c d by simp
  qed
qed

lemma frame_up: "n < nchunks s \<Longrightarrow> frame n s (up n s)"
  by (simp add: up_def frame_upd_chunk)

text \<open>What the cleaner takes: a chunk of a cache, out of its cache and locked.\<close>

lemma taken_from_caches:
  assumes inv: "cow_inv img ctx s" and t: "diff_area_get_chunk_from_cache_and_write_lock P s = Some (n, s1)"
  shows "n < nchunks s \<and> \<not> ck_locked (chunk_of s n) \<and> cached s n \<and>
    working n img ctx s1 \<and> frame n s s1 \<and> chunk_of s1 n = (chunk_of s n)\<lparr>ck_locked := True\<rparr> \<and>
    corrupt_flag (area s1) = corrupt_flag (area s) \<and>
    length (read_cache_queue (area s1)) + length (write_cache_queue (area s1)) <
      length (read_cache_queue (area s)) + length (write_cache_queue (area s))"
proof -
  let ?f = "\<lambda>a. if dirty (chunk_of s n)
       then a\<lparr>read_cache_queue := remove1 n (read_cache_queue a), write_cache_queue := remove1 n (write_cache_queue a),
              write_cache_count := write_cache_count a - 1\<rparr>
       else a\<lparr>read_cache_queue := remove1 n (read_cache_queue a), write_cache_queue := remove1 n (write_cache_queue a),
              read_cache_count := read_cache_count a - 1\<rparr>"
  let ?rd = "upd_area (\<lambda>a. a\<lparr>read_cache_count := read_cache_count a - 1,
                read_cache_queue := remove1 n (read_cache_queue a)\<rparr>) (down n s)"
  let ?wr = "upd_area (\<lambda>a. a\<lparr>write_cache_count := write_cache_count a - 1,
                write_cache_queue := remove1 n (write_cache_queue a)\<rparr>) (down n s)"
  have cs: "first_unlocked s (read_cache_queue (area s)) = Some n \<and> s1 = ?rd \<or>
      first_unlocked s (write_cache_queue (area s)) = Some n \<and> s1 = ?wr"
    using t by (auto simp: diff_area_get_chunk_from_cache_and_write_lock_def get_chunk_from_read_cache_def
          get_chunk_from_write_cache_def split: if_splits option.splits)
  then have mem: "n \<in> set (read_cache_queue (area s)) \<or> n \<in> set (write_cache_queue (area s))"
      "\<not> ck_locked (chunk_of s n)"
    by (auto simp: first_unlocked_def dest: find_Some_mem)
  have n: "n < nchunks s" using mem(1) inv by (auto simp: cow_inv_def area_ok_def)
  note i = cow_invD [OF inv n]
  have q: "n \<in> set (read_cache_queue (area s)) \<Longrightarrow> \<not> dirty (chunk_of s n)"
    "n \<in> set (write_cache_queue (area s)) \<Longrightarrow> dirty (chunk_of s n)"
    using i(2) by (auto simp: control_ok_def Let_def)
  have s1: "s1 = upd_area ?f (down n s)"
  proof -
    have rd: "remove1 n (write_cache_queue (area (down n s))) = write_cache_queue (area (down n s))" if "\<not> dirty (chunk_of s n)"
      using that q by (intro remove1_idem) auto
    have wd: "remove1 n (read_cache_queue (area (down n s))) = read_cache_queue (area (down n s))" if "dirty (chunk_of s n)"
      using that q by (intro remove1_idem) auto
    from cs show ?thesis
    proof
      assume r: "first_unlocked s (read_cache_queue (area s)) = Some n \<and> s1 = ?rd"
      then have "\<not> dirty (chunk_of s n)" using q by (auto simp: first_unlocked_def dest: find_Some_mem)
      with r show ?thesis by (cases "area (down n s)") (use rd \<open>\<not> dirty (chunk_of s n)\<close> in \<open>simp add: upd_area_def del: down_simps\<close>)
    next
      assume w: "first_unlocked s (write_cache_queue (area s)) = Some n \<and> s1 = ?wr"
      then have "dirty (chunk_of s n)" using q by (auto simp: first_unlocked_def dest: find_Some_mem)
      with w show ?thesis by (cases "area (down n s)") (use wd \<open>dirty (chunk_of s n)\<close> in \<open>simp add: upd_area_def del: down_simps\<close>)
    qed
  qed
  have ca: "cached s n" using mem(1) by (simp add: cached_def)
  note u = uncached_working [OF inv n mem(2) ca, of ?f, OF refl, folded s1]
  have "length (read_cache_queue (area s1)) + length (write_cache_queue (area s1)) <
      length (read_cache_queue (area s)) + length (write_cache_queue (area s))"
  proof -
    have le: "length (remove1 n xs) \<le> length xs" for xs :: "nat list" by (simp add: length_remove1)
    have lt: "length (remove1 n xs) < length xs" if "n \<in> set xs" for xs :: "nat list"
      using that by (simp add: length_remove1) (metis diff_less length_greater_0_conv less_numeral_extra(1) empty_iff empty_set One_nat_def)
    have "read_cache_queue (area s1) = remove1 n (read_cache_queue (area s))"
      "write_cache_queue (area s1) = remove1 n (write_cache_queue (area s))" by (simp_all add: s1)
    with mem(1) lt le show ?thesis by (metis add_less_le_mono add_le_less_mono)
  qed
  with n mem(2) ca u show ?thesis by blast
qed

lemma cache_release_inv:
  assumes inv: "cow_inv img ctx s" and t: "diff_area_get_chunk_from_cache_and_write_lock P s = Some (n, s1)"
  shows "\<exists>s'. cache_release_chunk P ans n s1 = Ok s' \<and> cow_inv img ctx s' \<and> frame n s s' \<and>
    (claimed s n \<longrightarrow> claimed s' n)"
proof -
  note k = taken_from_caches [OF inv t]
  have n: "n < nchunks s" and ul: "\<not> ck_locked (chunk_of s n)" and ca: "cached s n" and w: "working n img ctx s1"
    and f: "frame n s s1" and ch: "chunk_of s1 n = (chunk_of s n)\<lparr>ck_locked := True\<rparr>"
    and co: "corrupt_flag (area s1) = corrupt_flag (area s)" using k by blast+
  note i = cow_invD [OF inv n]
  note u = unlocked_facts [OF i(2) ul]
  have br: "buffer_ready (chunk_of s n)" using u(6) ca by blast
  have nf: "\<not> failed (chunk_of s n)" using i(2) br by (auto simp: control_ok_def Let_def)
  obtain b where b: "ck_buffer (chunk_of s n) = Some b" using br control_ok_shape [OF i(2)] by (auto simp: chunk_shape_def)
  have base: "chunk_base (area s1) n = chunk_base (area s) n" using frame_sectors [OF f] by (simp add: chunk_base_def)
  show ?thesis
  proof (cases "dirty (chunk_of s n)")
    case True
    have "buf_byte b j = img (chunk_base (area s) n + j)" if "\<not> corrupt_flag (area s)" "j < chunk_len (chunk_of s n)" for j
      using i(3) [OF that(1)] that(2) br b by (simp add: data_ok_def Let_def)
    then have "storable img s1 n b"
      unfolding storable_def Let_def ch co base using True br nf b u(5) by simp
    from store_or_fail' [OF w this, of P ans False] True br frame_trans [OF f] ch show ?thesis
      by (auto simp: cache_release_chunk_def)
  next
    case False
    note r = release_working [OF w, of P]
    let ?s2 = "chunk_diff_buffer_release P n s1"
    have ch2: "chunk_of ?s2 n = (chunk_state_unset CHUNK_ST_BUFFER_READY ((chunk_of s n)\<lparr>ck_locked := True\<rparr>))\<lparr>ck_buffer := None\<rparr>"
      using r ch b by simp
    have w2: "working n img ctx ?s2" using r by blast
    have f2: "frame n s ?s2" using r f by (blast intro: frame_trans)
    have base2: "chunk_base (area ?s2) n = chunk_base (area s) n" using frame_sectors [OF f2] by (simp add: chunk_base_def)
    have co2: "corrupt_flag (area ?s2) = corrupt_flag (area s)" using r co by simp
    have "cow_inv img ctx (up n ?s2)"
    proof (rule idle_without_buffer [OF w2]; (unfold ch2 base2 co2 frameD(2,4) [OF f2])?)
      show "ck_region (chunk_state_unset CHUNK_ST_BUFFER_READY ((chunk_of s n)\<lparr>ck_locked := True\<rparr>)\<lparr>ck_buffer := None\<rparr>) \<noteq> None"
        if "store_ready (chunk_state_unset CHUNK_ST_BUFFER_READY ((chunk_of s n)\<lparr>ck_locked := True\<rparr>)\<lparr>ck_buffer := None\<rparr>)"
        using that i(2) nf by (auto simp: control_ok_def Let_def)
    qed (use False nf u(2,5) i(3) in \<open>auto simp: data_ok_def Let_def\<close>)
    moreover have "frame n s (up n ?s2)" by (rule frame_trans [OF f2 frame_up [OF workingD(2) [OF w2]]])
    moreover have "claimed s n \<longrightarrow> claimed (up n ?s2) n"
      using workingD(2) [OF w2] u(1) by (simp add: claimed_def up_def ch2)
    ultimately show ?thesis using False br ch by (simp add: cache_release_chunk_def)
  qed
qed

section \<open>Loading a chunk for the image\<close>

lemma new_sync: "diff_io_new_sync w ok =
  (if ok then Some \<lparr>io_error = None, io_bio_count = 0, io_is_write = w, io_is_sync = True\<rparr> else None)"
  by (simp add: diff_io_new_sync_def diff_io_new_def)

text \<open>The answers with which nothing fails.\<close>

definition good_answers :: "answers \<Rightarrow> bool" where
  "good_answers ans \<longleftrightarrow> ans_io ans \<and> ans_buffer ans \<and> (\<forall>k. ans_bio ans k) \<and> (\<forall>k. ans_page ans k \<noteq> None) \<and>
     (\<forall>k. ans_status ans k = None)"

lemma check_page_aligned_iff: "check_page_aligned sector \<longleftrightarrow> PAGE_SECTORS dvd unat sector"
proof -
  have "push_bit (PAGE_SHIFT - SECTOR_SHIFT) 1 - 1 = (mask 3 :: u64)" by (simp add: mask_eq_decr_exp push_bit_eq_mult)
  then have "check_page_aligned sector \<longleftrightarrow> take_bit 3 sector = 0" by (simp add: check_page_aligned_def take_bit_eq_mask)
  also have "\<dots> \<longleftrightarrow> unat (take_bit 3 sector) = 0" by (rule sym) (rule unsigned_eq_0_iff)
  also have "\<dots> \<longleftrightarrow> PAGE_SECTORS dvd unat sector" unfolding unsigned_take_bit_eq by (simp add: take_bit_eq_mod dvd_eq_mod_eq_0)
  finally show ?thesis .
qed

lemma take_good:
  assumes "good_answers ans" "0 < cs"
  shows "\<exists>b. fst (diff_buffer_take pool cs nowait (ans_buffer ans) (ans_page ans)) = Inr b"
proof -
  have "fst (alloc_pages_loop (ans_page ans) inx n slots)" for inx n slots
    using assms(1) by (induction n arbitrary: inx slots) (auto simp: good_answers_def split: option.split)
  moreover have "0 < ceil_div cs PAGE_SECTORS" using assms(2) by (simp add: ceil_div_pos)
  ultimately have "\<exists>b. fst (diff_buffer_new (ceil_div cs PAGE_SECTORS) sz (ans_buffer ans) (ans_page ans)) = Some b" for sz
    using assms(1)
    by (auto simp: diff_buffer_new_def good_answers_def Let_def split: prod.split) (metis fst_conv)
  then show ?thesis
    by (auto simp: diff_buffer_take_def pool_pop_def split: list.split option.split) (metis option.distinct(1))
qed

lemma sync_read_spec:
  assumes w: "working n img ctx s" and b: "ck_buffer (chunk_of s n) = Some b"
    and fits: "check_page_aligned (reg_sector r) \<Longrightarrow> io_fits r b"
  shows "\<exists>ret b'. chunk_sync_read ans n (Some r) s = Ok (ret, upd_chunk n (\<lambda>c. c\<lparr>ck_buffer := Some b'\<rparr>) s) \<and>
    buffer_for (diff_area_chunk_sectors (area s)) b' \<and>
    (ret = None \<longrightarrow> (\<forall>k < SECTOR_SIZE * unat (reg_count r). buf_byte b' k = disks s (reg_bdev r) (reg_base r + k))) \<and>
    (good_answers ans \<longrightarrow> check_page_aligned (reg_sector r) \<longrightarrow> ret = None)"
proof -
  note w' = workingD [OF w]
  have bf: "buffer_for (diff_area_chunk_sectors (area s)) b" using w'(3) b by (simp add: chunk_shape_def)
  have same: "upd_chunk n (\<lambda>c. c\<lparr>ck_buffer := Some b\<rparr>) s = s"
  proof -
    have "(chunk_of s n)\<lparr>ck_buffer := Some b\<rparr> = chunk_of s n" using b by (cases "chunk_of s n") simp
    then show ?thesis by (simp add: upd_chunk_def)
  qed
  let ?io = "\<lparr>io_error = None, io_bio_count = 0, io_is_write = False, io_is_sync = True\<rparr>"
  show ?thesis
  proof (cases "ans_io ans")
    case False
    with bf same show ?thesis by (intro exI [of _ "Some ENOMEM"] exI [of _ b]) (simp add: chunk_sync_read_def new_sync good_answers_def)
  next
    case True
    show ?thesis
    proof (cases "check_page_aligned (reg_sector r)")
      case False
      with True b bf same show ?thesis
        by (intro exI [of _ "Some EINVAL"] exI [of _ b]) (simp add: chunk_sync_read_def new_sync diff_io_do_def)
    next
      case al: True
      show ?thesis
      proof (rule diff_io_do_fits [OF fits [OF al], of ?io "ans_bio ans"], goal_cases)
        case (1 k io')
        with True b bf same show ?case
          by (intro exI [of _ "Some EAGAIN"] exI [of _ b]) (auto simp: chunk_sync_read_def new_sync good_answers_def)
      next
        case (2 bios)
        let ?io' = "?io\<lparr>io_bio_count := int (length bios)\<rparr>"
        have fit: "ceil_div (unat (reg_count r)) PAGE_SECTORS \<le> page_count b" "buffer_ok b"
          using fits [OF al] bf by (simp_all add: io_fits_def buffer_for_def)
        have "\<exists>io' b'. diff_io_wait (ans_status ans) 0 bios ?io' (disks s) b = Ok (True, io', disks s, b') \<and> io_bio_count io' = 0 \<and>
          (io_error io' = None \<longleftrightarrow> io_error ?io' = None \<and> (\<forall>i<length bios. ans_status ans (0 + i) = None)) \<and>
          buffer_ok b' \<and> buf_size b' = buf_size b \<and> page_count b' = page_count b \<and>
          (\<forall>k. (\<forall>bio\<in>set bios. k \<notin> bio_span bio) \<longrightarrow> buf_byte b' k = buf_byte b k) \<and>
          (io_error io' = None \<longrightarrow> (\<forall>k. (\<exists>bio\<in>set bios. k \<in> bio_span bio) \<longrightarrow>
             buf_byte b' k = disks s (reg_bdev r) (reg_base r + k)))"
          using 2(1) by (intro diff_io_wait_read fit) (simp_all add: io_covers_def)
        then obtain io' b' where wt: "diff_io_wait (ans_status ans) 0 bios ?io' (disks s) b = Ok (True, io', disks s, b')"
          "buffer_ok b'" "buf_size b' = buf_size b" "page_count b' = page_count b"
          "io_error io' = None \<longrightarrow> (\<forall>k. (\<exists>bio\<in>set bios. k \<in> bio_span bio) \<longrightarrow>
             buf_byte b' k = disks s (reg_bdev r) (reg_base r + k))"
          "io_error io' = None \<longleftrightarrow> io_error ?io' = None \<and> (\<forall>i<length bios. ans_status ans (0 + i) = None)"
          by (elim exE conjE) (rule that)
        have "(upd_chunk n (\<lambda>c. c\<lparr>ck_buffer := Some b'\<rparr>) s)\<lparr>disks := disks s\<rparr> = upd_chunk n (\<lambda>c. c\<lparr>ck_buffer := Some b'\<rparr>) s"
          by (simp add: upd_chunk_def)
        then have "chunk_sync_read ans n (Some r) s = Ok (io_error io', upd_chunk n (\<lambda>c. c\<lparr>ck_buffer := Some b'\<rparr>) s)"
          using True b 2(2) wt(1) by (simp add: chunk_sync_read_def new_sync)
        moreover have "buffer_for (diff_area_chunk_sectors (area s)) b'" using bf wt(2-4) by (simp add: buffer_for_def)
        ultimately show ?case
          using wt(5,6) 2(1) by (intro exI [of _ "io_error io'"] exI [of _ b']) (simp add: io_covers_def good_answers_def)
      qed
    qed
  qed
qed

lemma others_ok_ctx:
  assumes "others_ok n img ctx s" "\<And>m. m \<noteq> n \<Longrightarrow> ctx_chunk ctx' = Some m \<longleftrightarrow> ctx_chunk ctx = Some m"
    "\<And>m. m \<noteq> n \<Longrightarrow> ctx_chunk ctx = Some m \<Longrightarrow> ctx_is_write ctx' = ctx_is_write ctx"
  shows "others_ok n img ctx' s"
  unfolding others_ok_def
proof (intro conjI allI impI)
  fix m assume m: "m < nchunks s" "m \<noteq> n"
  have ok: "control_ok ctx s m" "\<not> corrupt_flag (area s) \<Longrightarrow> data_ok img ctx s m"
    using assms(1) m by (simp_all add: others_ok_def)
  show "control_ok ctx' s m" by (rule control_ok_frame [OF frame_refl m(2) assms(2) [OF m(2)] ok(1)])
  show "data_ok img ctx' s m" if "\<not> corrupt_flag (area s)"
    by (rule data_ok_frame [OF frame_refl m(2) _ ok(2) [OF that]]) (use assms(2,3) m(2) in blast)
next
  show "m < nchunks s" if "ctx_chunk ctx' = Some m" for m
    using that assms(1,2) by (cases "m = n") (auto simp: others_ok_def)
qed (use others_okD [OF assms(1)] in simp_all)

text \<open>The chunk becomes the one the image works on.\<close>

lemma hold_inv:
  assumes w: "working n img ctx s" and ctx: "ctx_chunk ctx = None"
    and c: "ck_locked (chunk_of s n)" "buffer_ready (chunk_of s n)" "\<not> failed (chunk_of s n)" "\<not> loading (chunk_of s n)"
      "\<not> storing (chunk_of s n)" "store_ready (chunk_of s n) \<Longrightarrow> ck_region (chunk_of s n) \<noteq> None"
    and d: "\<not> corrupt_flag (area s) \<Longrightarrow> data_ok img ctx s n"
  shows "cow_inv img (ctx\<lparr>ctx_chunk := Some n\<rparr>) s"
proof (rule cow_invI)
  note w' = workingD [OF w]
  show "others_ok n img (ctx\<lparr>ctx_chunk := Some n\<rparr>) s" by (rule others_ok_ctx [OF w'(1)]) (simp_all add: ctx)
  show "control_ok (ctx\<lparr>ctx_chunk := Some n\<rparr>) s n"
    using w'(3-8) c by (auto simp: control_ok_def Let_def chunk_shape_def cached_def)
  show "data_ok img (ctx\<lparr>ctx_chunk := Some n\<rparr>) s n" if "\<not> corrupt_flag (area s)"
    using d [OF that] by (auto simp: data_ok_def Let_def ctx)
qed

lemma io_fits_le:
  assumes "area_ok a" "0 < unat (reg_count r)" "unat (reg_count r) \<le> diff_area_chunk_sectors a"
    "buffer_for (diff_area_chunk_sectors a) b" "check_page_aligned (reg_sector r)"
  shows "io_fits r b"
  using area_ok_sectors(5) [OF assms(1)] ceil_div_mono [OF assms(3), of PAGE_SECTORS] assms(2,4,5)
  by (simp add: io_fits_def buffer_for_def)

lemma load_chunk_spec:
  assumes inv: "cow_inv img ctx s" and n: "n < nchunks s" "\<not> ck_locked (chunk_of s n)"
    and c: "\<not> failed (chunk_of s n)" "\<not> buffer_ready (chunk_of s n)"
  shows "\<exists>ret s'. diff_area_load_chunk_from_storage ans n (down n s) = Ok (ret, s') \<and> working n img ctx s' \<and>
    frame n s s' \<and> corrupt_flag (area s') = corrupt_flag (area s) \<and>
    (\<exists>b. chunk_of s' n = (chunk_of s n)\<lparr>ck_locked := True, ck_buffer := b\<rparr> \<and>
       (ret = None \<longrightarrow> b \<noteq> None \<and> (\<not> corrupt_flag (area s) \<longrightarrow>
          (\<forall>i<chunk_len (chunk_of s n). buf_byte (the b) i = img (chunk_base (area s) n + i))))) \<and>
    (good_answers ans \<longrightarrow> (\<forall>r. ck_region (chunk_of s n) = Some r \<longrightarrow> check_page_aligned (reg_sector r)) \<longrightarrow> ret = None)"
proof -
  note i = cow_invD [OF inv n(1)]
  note u = unlocked_facts [OF i(2) n(2)]
  have nd: "\<not> dirty (chunk_of s n)" using i(2) c by (auto simp: control_ok_def Let_def)
  have w: "working n img ctx (down n s)" using u(6) c(2) by (intro enter_working [OF inv n]) simp
  obtain res a where tk: "diff_buffer_take (area (down n s)) (diff_area_chunk_sectors (area (down n s))) False
      (ans_buffer ans) (ans_page ans) = (res, a)" by fastforce
  note wt = working_take [OF w tk]
  let ?s1 = "(down n s)\<lparr>area := a\<rparr>"
  have f1: "frame n s ?s1" by (rule frame_trans [OF frame_down [OF n(1)] wt(2)])
  have ch1: "chunk_of ?s1 n = (chunk_of s n)\<lparr>ck_locked := True\<rparr>" using wt(3) n(1) by simp
  show ?thesis
  proof (cases res)
    case (Inl e)
    have "chunk_of ?s1 n = (chunk_of s n)\<lparr>ck_locked := True, ck_buffer := ck_buffer (chunk_of s n)\<rparr>"
      unfolding ch1 by (cases "chunk_of s n") simp
    moreover have "\<not> good_answers ans"
      using take_good [of ans "diff_area_chunk_sectors (area (down n s))" "area (down n s)" False] tk Inl
      by (auto simp: diff_area_chunk_sectors_def)
    ultimately show ?thesis using Inl tk wt(1,4) f1
      by (intro exI [of _ "Some e"] exI [of _ ?s1] conjI exI [of _ "ck_buffer (chunk_of s n)"])
         (simp_all add: diff_area_load_chunk_from_storage_def)
  next
    case (Inr b)
    let ?s2 = "upd_chunk n (\<lambda>c. c\<lparr>ck_buffer := Some b\<rparr>) ?s1"
    have w2: "working n img ctx ?s2" using wt(5) [OF Inr] by blast
    have n1: "n < nchunks ?s1" by (rule workingD(2) [OF wt(1)])
    have f2: "frame n s ?s2" by (rule frame_trans [OF f1 frame_upd_chunk [OF n1]])
    have c2: "chunk_of ?s2 n = (chunk_of s n)\<lparr>ck_locked := True, ck_buffer := Some b\<rparr>" using n1 ch1 by simp
    note w2' = workingD [OF w2] and cs = frame_sectors [OF f2]
    let ?r = "if store_ready (chunk_of s n) then the (ck_region (chunk_of s n)) else chunk_orig_region (area ?s2) (chunk_of ?s2 n)"
    have reg: "store_ready (chunk_of s n) \<Longrightarrow> ck_region (chunk_of s n) = Some ?r"
      using i(2) c(1) by (auto simp: control_ok_def Let_def)
    have run: "diff_area_load_chunk_from_storage ans n (down n s) = chunk_sync_read ans n (Some ?r) ?s2"
      using Inr tk reg c2
      by (simp add: diff_area_load_chunk_from_storage_def chunk_load_diff_def chunk_load_orig_def Let_def)
    have bf: "buffer_for (diff_area_chunk_sectors (area s)) b"
      using w2'(3) c2 cs by (simp add: chunk_shape_def)
    have cnt: "ck_sector_count (chunk_of s n) \<le> unat (reg_count ?r) \<and> unat (reg_count ?r) \<le> diff_area_chunk_sectors (area s) \<and> 0 < unat (reg_count ?r)"
    proof (cases "store_ready (chunk_of s n)")
      case True
      then have "unat (reg_count ?r) = diff_area_chunk_sectors (area s)"
        using others_okD(3) [OF i(1)] n(1) reg unfolding regions_ok_def by blast
      with control_ok_shape [OF i(2)] show ?thesis by (simp add: chunk_shape_def)
    next
      case False
      with orig_region_base(2) [OF others_okD(2) [OF w2'(1)] w2'(2,3)] c2 control_ok_shape [OF i(2)] show ?thesis
        by (simp add: chunk_shape_def)
    qed
    have fits: "io_fits ?r b" if "check_page_aligned (reg_sector ?r)"
      using cnt by (intro io_fits_le [OF others_okD(2) [OF i(1)] _ _ bf that]) blast+
    have "ck_buffer (chunk_of ?s2 n) = Some b" by (simp add: c2)
    from sync_read_spec [of n img ctx ?s2 b ?r ans, OF w2 this fits] obtain ret b' where
      rd: "chunk_sync_read ans n (Some ?r) ?s2 = Ok (ret, upd_chunk n (\<lambda>c. c\<lparr>ck_buffer := Some b'\<rparr>) ?s2)"
      "buffer_for (diff_area_chunk_sectors (area ?s2)) b'"
      "ret = None \<longrightarrow> (\<forall>k < SECTOR_SIZE * unat (reg_count ?r). buf_byte b' k = disks ?s2 (reg_bdev ?r) (reg_base ?r + k))"
      "good_answers ans \<longrightarrow> check_page_aligned (reg_sector ?r) \<longrightarrow> ret = None"
      by blast
    have al: "check_page_aligned (reg_sector ?r)" if "\<forall>r. ck_region (chunk_of s n) = Some r \<longrightarrow> check_page_aligned (reg_sector r)"
    proof (cases "store_ready (chunk_of s n)")
      case True
      with reg that show ?thesis by auto
    next
      case False
      then show ?thesis
        unfolding check_page_aligned_iff using orig_region_base(3) [OF others_okD(2) [OF w2'(1)] w2'(2,3)] by simp
    qed
    let ?s3 = "upd_chunk n (\<lambda>c. c\<lparr>ck_buffer := Some b'\<rparr>) ?s2"
    have w3: "working n img ctx ?s3"
      using w2'(3,4) rd(2) by (intro working_upd_chunk [OF w2]) (simp_all add: chunk_shape_def)
    have f3: "frame n s ?s3" by (rule frame_trans [OF f2 frame_upd_chunk [OF w2'(2)]])
    have c3: "chunk_of ?s3 n = (chunk_of s n)\<lparr>ck_locked := True, ck_buffer := Some b'\<rparr>"
      using w2'(2) c2 by simp
    have "buf_byte b' k = img (chunk_base (area s) n + k)"
      if "ret = None" "\<not> corrupt_flag (area s)" "k < chunk_len (chunk_of s n)" for k
    proof -
      have "k < SECTOR_SIZE * unat (reg_count ?r)" using cnt that(3) by linarith
      then have "buf_byte b' k = disks s (reg_bdev ?r) (reg_base ?r + k)" using rd(3) that(1) frameD(4) [OF f2] by simp
      also have "\<dots> = img (chunk_base (area s) n + k)"
      proof (cases "store_ready (chunk_of s n)")
        case True
        with i(3) [OF that(2)] that(3) nd u(2) reg show ?thesis by (simp add: data_ok_def Let_def)
      next
        case False
        have "reg_bdev ?r = orig_bdev (area s)" using False frameD(2) [OF f2] by (simp add: chunk_orig_region_def)
        moreover have "reg_base ?r = chunk_base (area s) n"
          using False orig_region_base(1) [OF others_okD(2) [OF w2'(1)] w2'(2,3)] cs by (simp add: chunk_base_def)
        ultimately show ?thesis using i(3) [OF that(2)] that(3) nd u(2) False by (simp add: data_ok_def Let_def)
      qed
      finally show ?thesis .
    qed
    moreover have "corrupt_flag (area ?s3) = corrupt_flag (area s)" using wt(4) by simp
    ultimately show ?thesis
      using run rd(1,4) al w3 f3 c3 by (intro exI [of _ ret] exI [of _ ?s3] conjI exI [of _ "Some b'"]) auto
  qed
qed

lemma get_locked_inv:
  assumes inv: "cow_inv img ctx s" and ctx: "ctx_chunk ctx = None" and n: "n < nchunks s" "\<not> ck_locked (chunk_of s n)"
  shows "\<exists>ret s'. get_locked_chunk ans n (down n s) = Ok (ret, s') \<and> frame n s s' \<and> (claimed s n \<longrightarrow> claimed s' n) \<and>
    (if ret = None then cow_inv img (ctx\<lparr>ctx_chunk := Some n\<rparr>) s' else cow_inv img ctx s') \<and>
    (good_answers ans \<longrightarrow> \<not> failed (chunk_of s n) \<longrightarrow>
       (\<forall>r. ck_region (chunk_of s n) = Some r \<longrightarrow> check_page_aligned (reg_sector r)) \<longrightarrow> ret = None)"
proof -
  note i = cow_invD [OF inv n(1)]
  note u = unlocked_facts [OF i(2) n(2)]
  show ?thesis
  proof (cases "failed (chunk_of s n)")
    case True
    with up_down [OF n] inv n(1) show ?thesis by (auto simp: get_locked_chunk_def)
  next
    case nf: False
    have reg: "store_ready (chunk_of s n) \<Longrightarrow> ck_region (chunk_of s n) \<noteq> None"
      using i(2) nf by (auto simp: control_ok_def Let_def)
    show ?thesis
    proof (cases "buffer_ready (chunk_of s n)")
      case True
      let ?s1 = "diff_area_take_chunk_from_cache n (down n s)"
      note t = take_from_cache_working [OF inv n]
      have "data_ok img ctx ?s1 n" if "\<not> corrupt_flag (area ?s1)"
      proof (rule data_ok_cong)
        show "data_ok img ctx s n" using that t(4) i(3) by simp
        show "bios_of ?s1 n = bios_of s n" using workingD(5) [OF t(1)] u(3) by simp
      qed (simp_all add: t(3) frameD(2-4) [OF t(2)])
      then have "cow_inv img (ctx\<lparr>ctx_chunk := Some n\<rparr>) ?s1"
        using True nf u(5) reg by (intro hold_inv [OF t(1) ctx]) (simp_all add: t(3))
      moreover have "claimed s n \<longrightarrow> claimed ?s1 n" by (simp add: claimed_def t(3))
      ultimately show ?thesis using True nf n(1) t(2) by (simp add: get_locked_chunk_def)
    next
      case nb: False
      then obtain ret s1 b where l: "diff_area_load_chunk_from_storage ans n (down n s) = Ok (ret, s1)"
        "working n img ctx s1" "frame n s s1" "corrupt_flag (area s1) = corrupt_flag (area s)"
        "chunk_of s1 n = (chunk_of s n)\<lparr>ck_locked := True, ck_buffer := b\<rparr>"
        "ret = None \<longrightarrow> b \<noteq> None \<and> (\<not> corrupt_flag (area s) \<longrightarrow>
          (\<forall>i<chunk_len (chunk_of s n). buf_byte (the b) i = img (chunk_base (area s) n + i)))"
        "good_answers ans \<longrightarrow> (\<forall>r. ck_region (chunk_of s n) = Some r \<longrightarrow> check_page_aligned (reg_sector r)) \<longrightarrow> ret = None"
        using load_chunk_spec [OF inv n nf nb, of ans] by (elim exE conjE) (rule that)
      have nd: "\<not> dirty (chunk_of s n)" using i(2) nf nb by (auto simp: control_ok_def Let_def)
      have bits: "\<not> loading (chunk_of s n)" "\<not> storing (chunk_of s n)" using u(5) nf by auto
      have base: "chunk_base (area s1) n = chunk_base (area s) n" using frame_sectors [OF l(3)] by (simp add: chunk_base_def)
      have n1: "n < nchunks s1" by (rule workingD(2) [OF l(2)])
      have old: "if store_ready (chunk_of s n)
         then \<forall>r. ck_region (chunk_of s n) = Some r \<longrightarrow> disks s (reg_bdev r) (reg_base r + k) = img (chunk_base (area s) n + k)
         else disks s (orig_bdev (area s)) (chunk_base (area s) n + k) = img (chunk_base (area s) n + k)"
        if "\<not> corrupt_flag (area s)" "k < chunk_len (chunk_of s n)" for k
        using i(3) [OF that(1)] that(2) nd u(2) by (auto simp: data_ok_def Let_def)
      show ?thesis
      proof (cases ret)
        case (Some e)
        have "cow_inv img ctx (up n s1)"
        proof (rule idle_without_buffer [OF l(2)], goal_cases)
          case (7 k)
          then show ?case using old [of k] unfolding l(4,5) base frameD(2,4) [OF l(3)] by simp
        qed (use nf nd bits nb reg in \<open>simp_all add: l(5)\<close>)
        moreover have "frame n s (up n s1)" by (rule frame_trans [OF l(3) frame_up [OF n1]])
        moreover have "claimed s n \<longrightarrow> claimed (up n s1) n" using n1 by (simp add: claimed_def up_def l(5))
        ultimately show ?thesis using Some nf nb n(1) l(1,7) by (simp add: get_locked_chunk_def)
      next
        case None
        then obtain bb where bb: "b = Some bb" using l(6) by blast
        let ?s2 = "upd_chunk n (chunk_state_set CHUNK_ST_BUFFER_READY) s1"
        have w2: "working n img ctx ?s2"
          using workingD(3,4) [OF l(2)] bb by (intro working_upd_chunk [OF l(2)]) (simp_all add: chunk_shape_def l(5))
        have c2: "chunk_of ?s2 n = chunk_state_set CHUNK_ST_BUFFER_READY ((chunk_of s n)\<lparr>ck_locked := True, ck_buffer := Some bb\<rparr>)"
          using n1 l(5) bb by simp
        have f2: "frame n s ?s2" by (rule frame_trans [OF l(3) frame_upd_chunk [OF n1]])
        have base2: "chunk_base (area ?s2) n = chunk_base (area s) n" using frame_sectors [OF f2] by (simp add: chunk_base_def)
        have "data_ok img ctx ?s2 n" if "\<not> corrupt_flag (area ?s2)"
        proof -
          have nc: "\<not> corrupt_flag (area s)" using that l(4) by simp
          show ?thesis
            unfolding data_ok_def Let_def c2 base2 frameD(2,4) [OF f2]
            using l(6) None bb nc bits old [OF nc] by (auto split: if_splits)
        qed
        then have "cow_inv img (ctx\<lparr>ctx_chunk := Some n\<rparr>) ?s2"
          using nf bits reg by (intro hold_inv [OF w2 ctx]; (unfold c2)?) simp_all
        moreover have "claimed s n \<longrightarrow> claimed ?s2 n" by (simp add: claimed_def c2)
        ultimately show ?thesis using None nf nb n(1) l(1,7) f2 by (simp add: get_locked_chunk_def)
      qed
    qed
  qed
qed

text \<open>Giving the chunk back.\<close>

lemma put_chunk_inv:
  assumes inv: "cow_inv img ctx s" and ctx: "ctx_chunk ctx = Some n"
  shows "\<exists>s'. diff_area_image_put_chunk P ans n (ctx_is_write ctx) s = Ok s' \<and>
    cow_inv img (ctx\<lparr>ctx_chunk := None\<rparr>) s' \<and> frame n s s' \<and> (claimed s n \<longrightarrow> claimed s' n)"
proof -
  let ?ctx = "ctx\<lparr>ctx_chunk := None\<rparr>"
  have n: "n < nchunks s" using inv ctx by (simp add: cow_inv_def)
  note i = cow_invD [OF inv n]
  have io: "ck_io (chunk_of s n) = None"
    using i(2) ctx by (cases "ck_io (chunk_of s n)") (auto simp: control_ok_def Let_def)
  have c: "ck_locked (chunk_of s n)" "buffer_ready (chunk_of s n)" "\<not> failed (chunk_of s n)" "\<not> loading (chunk_of s n)"
    "\<not> storing (chunk_of s n)" "bios_of s n = []" "notes_of s n = []" "\<not> cached s n"
    "store_ready (chunk_of s n) \<Longrightarrow> ck_region (chunk_of s n) \<noteq> None"
    using i(2) ctx io by (auto simp: control_ok_def Let_def cached_def)
  have o: "others_ok n img ?ctx s" by (rule others_ok_ctx [OF i(1)]) (simp_all add: ctx)
  then have w: "working n img ?ctx s"
    using control_ok_shape [OF i(2)] io c by (simp add: working_def)
  let ?s1 = "if ctx_is_write ctx then upd_chunk n (chunk_state_set CHUNK_ST_DIRTY) s else s"
  have w1: "working n img ?ctx ?s1"
  proof (cases "ctx_is_write ctx")
    case True
    have "working n img ?ctx (upd_chunk n (chunk_state_set CHUNK_ST_DIRTY) s)"
      using workingD(3,4) [OF w] by (intro working_upd_chunk [OF w]) (simp_all add: chunk_shape_def)
    with True show ?thesis by simp
  qed (use w in simp)
  have f1: "frame n s ?s1" using frame_upd_chunk [OF n] by simp
  have ch: "chunk_of ?s1 n = (if ctx_is_write ctx then chunk_state_set CHUNK_ST_DIRTY (chunk_of s n) else chunk_of s n)"
    using n by simp
  have "data_ok img ?ctx ?s1 n" if "\<not> corrupt_flag (area ?s1)"
  proof -
    have "data_ok img ctx s n" using that i(3) by (simp split: if_splits)
    moreover have "bios_of ?s1 n = []" using c(6) by (simp add: bios_of_def)
    moreover have "chunk_base (area ?s1) n = chunk_base (area s) n" using frame_sectors [OF f1] by (simp add: chunk_base_def)
    ultimately show ?thesis
      unfolding data_ok_def Let_def frameD(2,4) [OF f1] ch using c(4-6) by (auto split: if_splits)
  qed
  then have "\<exists>s'. chunk_schedule_caching P ans n ?s1 = Ok s' \<and> cow_inv img ?ctx s' \<and> frame n ?s1 s' \<and>
      chunk_of s' n = (chunk_of ?s1 n)\<lparr>ck_locked := False\<rparr>"
    using c by (intro schedule_caching_spec [OF w1]) (simp_all add: n split: if_splits)
  then obtain s' where s': "chunk_schedule_caching P ans n ?s1 = Ok s'" "cow_inv img ?ctx s'" "frame n ?s1 s'"
      "chunk_of s' n = (chunk_of ?s1 n)\<lparr>ck_locked := False\<rparr>" by blast
  moreover have "claimed s n \<longrightarrow> claimed s' n" using n by (simp add: claimed_def s'(4))
  ultimately show ?thesis using frame_trans [OF f1 s'(3)] by (auto simp: diff_area_image_put_chunk_def)
qed

section \<open>Copying between the buffer and a segment\<close>

lemma iter_get_cases:
  assumes "buffer_ok b"
  shows "case diff_buffer_iter_get b off of None \<Rightarrow> buf_size b \<le> off
    | Some it \<Rightarrow> off < buf_size b \<and> 0 < iter_bytes it \<and> iter_bytes it \<le> buf_size b - off \<and>
        iter_offset it + iter_bytes it \<le> PAGE_SIZE \<and> iter_page it = off div PAGE_SIZE \<and>
        iter_offset it = off mod PAGE_SIZE \<and> iter_page it < page_count b \<and> (\<exists>p. pages b ! iter_page it = Some p) \<and>
        (SECTOR_SIZE dvd off \<longrightarrow> SECTOR_SIZE dvd buf_size b \<longrightarrow> SECTOR_SIZE dvd iter_bytes it)"
proof (cases "buf_size b \<le> off")
  case True
  then show ?thesis by (simp add: diff_buffer_iter_get_def)
next
  case False
  have "off < page_count b * PAGE_SIZE" using False assms by (auto simp: buffer_ok_def)
  then have p: "off div PAGE_SIZE < page_count b" by (simp add: less_mult_imp_div_less)
  with assms have "\<exists>q. pages b ! (off div PAGE_SIZE) = Some q" by (auto simp: buffer_ok_def)
  moreover have "SECTOR_SIZE dvd min (PAGE_SIZE - off mod PAGE_SIZE) (buf_size b - off)"
    if "SECTOR_SIZE dvd off" "SECTOR_SIZE dvd buf_size b"
  proof -
    have "SECTOR_SIZE dvd off mod PAGE_SIZE" using that(1) by (simp add: dvd_mod)
    then show ?thesis using that by (simp add: min_def dvd_diff_nat)
  qed
  ultimately show ?thesis using False p by (simp add: diff_buffer_iter_get_def Let_def)
qed

lemma buf_byte_in_page:
  assumes "pages b ! (off div PAGE_SIZE) = Some p" "off mod PAGE_SIZE + i < PAGE_SIZE"
  shows "buf_byte b (off + i) = p (off mod PAGE_SIZE + i)"
proof -
  define q r where qr: "q = off div PAGE_SIZE" "r = off mod PAGE_SIZE"
  have e: "off + i = PAGE_SIZE * q + (r + i)" by (simp add: qr)
  have "(off + i) div PAGE_SIZE = q" using assms(2) [folded qr] unfolding e by simp
  moreover have "(off + i) mod PAGE_SIZE = r + i"
    using assms(2) [folded qr] unfolding e mod_mult_self4 by simp
  ultimately show ?thesis using assms(1) unfolding qr by (simp add: buf_byte_def)
qed

lemma image_copy_read:
  assumes "buffer_ok (ic_buffer ic)" "ic_ok ic"
  shows "\<exists>ic'. image_copy_loop False off ic = Ok ic' \<and> ic_ok ic' \<and> ic_buffer ic' = ic_buffer ic \<and>
    ic_data ic' = ic_data ic \<and> ic_left ic' = ic_left ic - (buf_size (ic_buffer ic) - off) \<and>
    ic_out ic' = ic_out ic @ map (\<lambda>i. buf_byte (ic_buffer ic) (off + i)) [0..<min (ic_left ic) (buf_size (ic_buffer ic) - off)] \<and>
    (SECTOR_SIZE dvd off \<longrightarrow> SECTOR_SIZE dvd ic_left ic \<longrightarrow> SECTOR_SIZE dvd buf_size (ic_buffer ic) \<longrightarrow>
       ic_pos ic' = ic_pos ic + min (ic_left ic) (buf_size (ic_buffer ic) - off) div SECTOR_SIZE)"
  using assms
proof (induction "ic_left ic" arbitrary: off ic rule: less_induct)
  case less
  let ?b = "ic_buffer ic"
  note it = iter_get_cases [OF less.prems(1), of off]
  consider "ic_left ic = 0" | "diff_buffer_iter_get ?b off = None" "ic_left ic \<noteq> 0"
    | x where "diff_buffer_iter_get ?b off = Some x" "ic_left ic \<noteq> 0" by fastforce
  then show ?case
  proof cases
    case 1
    with less.prems show ?thesis by (simp add: image_copy_loop.simps [of False])
  next
    case 2
    with less.prems it show ?thesis by (simp add: image_copy_loop.simps [of False])
  next
    case (3 x)
    define sz where "sz = min (iter_bytes x) (ic_left ic)"
    obtain p where p: "pages ?b ! iter_page x = Some p" using it 3 by auto
    have x: "off < buf_size ?b" "0 < iter_bytes x" "iter_bytes x \<le> buf_size ?b - off" "iter_offset x + iter_bytes x \<le> PAGE_SIZE"
      "iter_page x = off div PAGE_SIZE" "iter_offset x = off mod PAGE_SIZE"
      "SECTOR_SIZE dvd off \<longrightarrow> SECTOR_SIZE dvd buf_size ?b \<longrightarrow> SECTOR_SIZE dvd iter_bytes x"
      using it 3 by auto
    have sz: "0 < sz" "sz \<le> ic_left ic" "sz \<le> buf_size ?b - off" "iter_offset x + sz \<le> PAGE_SIZE"
      using x 3(2) by (auto simp: sz_def)
    define ic1 where "ic1 = ic\<lparr>ic_pos := ic_pos ic + sz div SECTOR_SIZE, ic_left := ic_left ic - sz,
                             ic_out := ic_out ic @ map (\<lambda>i. p (iter_offset x + i)) [0..<sz]\<rparr>"
    have step: "image_copy_loop False off ic = image_copy_loop False (off + sz) ic1"
      using 3 p sz(1) by (simp add: image_copy_loop.simps [of False off] Let_def sz_def [symmetric] ic1_def)
    have f1: "ic_buffer ic1 = ?b" "ic_left ic1 = ic_left ic - sz" "ic_data ic1 = ic_data ic" "ic_ok ic1"
      "ic_pos ic1 = ic_pos ic + sz div SECTOR_SIZE" using less.prems(2) by (simp_all add: ic1_def)
    have lt: "ic_left ic1 < ic_left ic" using sz f1(2) by simp
    have bo: "buffer_ok (ic_buffer ic1)" using less.prems(1) by (simp only: f1(1))
    from less.hyps [OF lt bo f1(4), of "off + sz", unfolded f1(1,3)] obtain ic' where IH:
      "image_copy_loop False (off + sz) ic1 = Ok ic'" "ic_ok ic'" "ic_buffer ic' = ?b" "ic_data ic' = ic_data ic"
      "ic_left ic' = ic_left ic1 - (buf_size ?b - (off + sz))"
      "ic_out ic' = ic_out ic1 @ map (\<lambda>i. buf_byte ?b (off + sz + i)) [0..<min (ic_left ic1) (buf_size ?b - (off + sz))]"
      "SECTOR_SIZE dvd off + sz \<longrightarrow> SECTOR_SIZE dvd ic_left ic1 \<longrightarrow> SECTOR_SIZE dvd buf_size ?b \<longrightarrow>
         ic_pos ic' = ic_pos ic1 + min (ic_left ic1) (buf_size ?b - (off + sz)) div SECTOR_SIZE"
      by (elim exE conjE) (rule that)
    define m where "m = min (ic_left ic1) (buf_size ?b - (off + sz))"
    have m: "min (ic_left ic) (buf_size ?b - off) = sz + m" using sz f1(2) by (simp add: m_def min_def) linarith
    have "map (\<lambda>i. buf_byte ?b (off + i)) [0..<sz + m] =
        map (\<lambda>i. buf_byte ?b (off + i)) [0..<sz] @ map (\<lambda>i. buf_byte ?b (off + sz + i)) [0..<m]"
      by (rule nth_equalityI) (auto simp: nth_append add.assoc)
    also have "map (\<lambda>i. buf_byte ?b (off + i)) [0..<sz] = map (\<lambda>i. p (iter_offset x + i)) [0..<sz]"
      using buf_byte_in_page [of ?b off p] p sz(4) x(5,6) by simp
    finally have out: "ic_out ic' = ic_out ic @ map (\<lambda>i. buf_byte ?b (off + i)) [0..<sz + m]"
      using IH(6) by (simp add: ic1_def m_def)
    have "ic_pos ic' = ic_pos ic + (sz + m) div SECTOR_SIZE"
      if d: "SECTOR_SIZE dvd off" "SECTOR_SIZE dvd ic_left ic" "SECTOR_SIZE dvd buf_size ?b"
    proof -
      have "SECTOR_SIZE dvd sz" using x(7) d by (simp add: sz_def min_def)
      moreover have "SECTOR_SIZE dvd ic_left ic1" using calculation d(2) f1(2) by (simp add: dvd_diff_nat)
      ultimately show ?thesis using IH(7) d f1(5) by (simp add: m_def div_plus_div_distrib_dvd_left)
    qed
    moreover have "ic_left ic' = ic_left ic - (buf_size ?b - off)" using IH(5) f1(2) sz by simp
    ultimately show ?thesis using step IH(1-4) out unfolding m by (intro exI [of _ ic']) simp
  qed
qed

lemma buf_byte_page_write:
  assumes "buffer_ok b" "off < buf_size b" "pages b ! (off div PAGE_SIZE) = Some p" "off mod PAGE_SIZE + length bytes \<le> PAGE_SIZE"
  shows "buf_byte (b\<lparr>pages := (pages b)[off div PAGE_SIZE := Some (page_write (off mod PAGE_SIZE) bytes p)]\<rparr>) k =
    (if off \<le> k \<and> k < off + length bytes then bytes ! (k - off) else buf_byte b k)"
proof -
  define q r where qr: "q = off div PAGE_SIZE" "r = off mod PAGE_SIZE"
  have off: "off = PAGE_SIZE * q + r" "r < PAGE_SIZE" by (simp_all add: qr)
  define q' r' where qr': "q' = k div PAGE_SIZE" "r' = k mod PAGE_SIZE"
  have k: "k = PAGE_SIZE * q' + r'" "r' < PAGE_SIZE" by (simp_all add: qr')
  have "q < length (pages b)"
  proof -
    have "off < page_count b * PAGE_SIZE" using assms(1,2) by (auto simp: buffer_ok_def)
    then have "q < page_count b" by (simp add: qr less_mult_imp_div_less)
    with assms(1) show ?thesis by (simp add: buffer_ok_def)
  qed
  then have lhs: "buf_byte (b\<lparr>pages := (pages b)[q := Some (page_write r bytes p)]\<rparr>) k =
      (if q' = q \<and> r \<le> r' \<and> r' < r + length bytes then bytes ! (r' - r) else buf_byte b k)"
    using assms(3) by (auto simp: buf_byte_def nth_list_update qr qr' page_write_def)
  have len: "r + length bytes \<le> PAGE_SIZE" using assms(4) qr by simp
  have iff: "q' = q \<and> r \<le> r' \<and> r' < r + length bytes \<longleftrightarrow> off \<le> k \<and> k < off + length bytes"
  proof
    assume h: "off \<le> k \<and> k < off + length bytes"
    have "\<not> q' < q"
    proof
      assume "q' < q"
      then have "PAGE_SIZE * (q' + 1) \<le> PAGE_SIZE * q" by (intro mult_le_mono2) simp
      then have "PAGE_SIZE * q' + PAGE_SIZE \<le> PAGE_SIZE * q" by simp
      with h k(1,2) off(1) show False by linarith
    qed
    moreover have "\<not> q < q'"
    proof
      assume "q < q'"
      then have "PAGE_SIZE * (q + 1) \<le> PAGE_SIZE * q'" by (intro mult_le_mono2) simp
      then have "PAGE_SIZE * q + PAGE_SIZE \<le> PAGE_SIZE * q'" by simp
      with h k(1) off(1) len show False by linarith
    qed
    ultimately show "q' = q \<and> r \<le> r' \<and> r' < r + length bytes" using h k(1) off(1) by auto
  qed (use k off in auto)
  have "r' - r = k - off" if "q' = q" using that k(1) off(1) by simp
  with lhs iff show ?thesis unfolding qr [symmetric] by auto
qed

lemma image_copy_write:
  assumes "buffer_ok (ic_buffer ic)" "ic_ok ic" "ic_left ic \<le> length (ic_data ic)"
  shows "\<exists>ic'. image_copy_loop True off ic = Ok ic' \<and> ic_ok ic' \<and> buffer_ok (ic_buffer ic') \<and>
    buf_size (ic_buffer ic') = buf_size (ic_buffer ic) \<and> page_count (ic_buffer ic') = page_count (ic_buffer ic) \<and>
    ic_out ic' = ic_out ic \<and> ic_left ic' = ic_left ic - (buf_size (ic_buffer ic) - off) \<and>
    ic_data ic' = drop (min (ic_left ic) (buf_size (ic_buffer ic) - off)) (ic_data ic) \<and>
    (\<forall>k. buf_byte (ic_buffer ic') k =
       (if off \<le> k \<and> k < off + min (ic_left ic) (buf_size (ic_buffer ic) - off) then ic_data ic ! (k - off)
        else buf_byte (ic_buffer ic) k)) \<and>
    (SECTOR_SIZE dvd off \<longrightarrow> SECTOR_SIZE dvd ic_left ic \<longrightarrow> SECTOR_SIZE dvd buf_size (ic_buffer ic) \<longrightarrow>
       ic_pos ic' = ic_pos ic + min (ic_left ic) (buf_size (ic_buffer ic) - off) div SECTOR_SIZE)"
  using assms
proof (induction "ic_left ic" arbitrary: off ic rule: less_induct)
  case less
  let ?b = "ic_buffer ic"
  note it = iter_get_cases [OF less.prems(1), of off]
  consider "ic_left ic = 0" | "diff_buffer_iter_get ?b off = None" "ic_left ic \<noteq> 0"
    | x where "diff_buffer_iter_get ?b off = Some x" "ic_left ic \<noteq> 0" by fastforce
  then show ?case
  proof cases
    case 1
    with less.prems show ?thesis by (intro exI [of _ ic]) (auto simp: image_copy_loop.simps [of True off ic])
  next
    case 2
    with less.prems it show ?thesis by (intro exI [of _ ic]) (auto simp: image_copy_loop.simps [of True off ic])
  next
    case (3 x)
    define sz where "sz = min (iter_bytes x) (ic_left ic)"
    obtain p where p: "pages ?b ! iter_page x = Some p" using it 3 by auto
    have x: "off < buf_size ?b" "0 < iter_bytes x" "iter_bytes x \<le> buf_size ?b - off" "iter_offset x + iter_bytes x \<le> PAGE_SIZE"
      "iter_page x = off div PAGE_SIZE" "iter_offset x = off mod PAGE_SIZE"
      "SECTOR_SIZE dvd off \<longrightarrow> SECTOR_SIZE dvd buf_size ?b \<longrightarrow> SECTOR_SIZE dvd iter_bytes x" "iter_page x < page_count ?b"
      using it 3 by auto
    have sz: "0 < sz" "sz \<le> ic_left ic" "sz \<le> buf_size ?b - off" "iter_offset x + sz \<le> PAGE_SIZE"
      using x 3(2) by (auto simp: sz_def)
    define b1 where "b1 = ?b\<lparr>pages := (pages ?b)[iter_page x := Some (page_write (iter_offset x) (take sz (ic_data ic)) p)]\<rparr>"
    define ic1 where "ic1 = ic\<lparr>ic_pos := ic_pos ic + sz div SECTOR_SIZE, ic_left := ic_left ic - sz,
                             ic_data := drop sz (ic_data ic), ic_buffer := b1\<rparr>"
    have step: "image_copy_loop True off ic = image_copy_loop True (off + sz) ic1"
      using 3 p sz(1) by (simp add: image_copy_loop.simps [of True off] Let_def sz_def [symmetric] ic1_def b1_def)
    have lenb: "length (take sz (ic_data ic)) = sz" using less.prems(3) sz(2) by simp
    have bytes: "buf_byte b1 k = (if off \<le> k \<and> k < off + sz then ic_data ic ! (k - off) else buf_byte ?b k)" for k
    proof -
      have tk: "take sz (ic_data ic) ! (k - off) = ic_data ic ! (k - off)" if "off \<le> k" "k < off + sz"
        using that by (intro nth_take) linarith
      show ?thesis
      using buf_byte_page_write [OF less.prems(1) x(1), of p "take sz (ic_data ic)" k] p x(4-6) sz lenb
      unfolding b1_def x(5,6) using tk by (auto split: if_splits)
    qed
    have bk: "buffer_ok b1" "buf_size b1 = buf_size ?b" "page_count b1 = page_count ?b"
      using less.prems(1) x(8) by (auto simp: b1_def buffer_ok_def nth_list_update)
    have f1: "ic_buffer ic1 = b1" "ic_left ic1 = ic_left ic - sz" "ic_data ic1 = drop sz (ic_data ic)" "ic_ok ic1"
      "ic_pos ic1 = ic_pos ic + sz div SECTOR_SIZE" "ic_out ic1 = ic_out ic" using less.prems(2) by (simp_all add: ic1_def)
    have lt: "ic_left ic1 < ic_left ic" using sz f1(2) by simp
    have bo: "buffer_ok (ic_buffer ic1)" using bk(1) by (simp only: f1(1))
    have le: "ic_left ic1 \<le> length (ic_data ic1)" using less.prems(3) by (simp add: f1(2,3))
    define m where "m = min (ic_left ic1) (buf_size ?b - (off + sz))"
    from less.hyps [OF lt bo f1(4) le, of "off + sz", unfolded f1(1,3,6) bk(2,3), folded m_def] obtain ic' where IH:
      "image_copy_loop True (off + sz) ic1 = Ok ic'" "ic_ok ic'" "buffer_ok (ic_buffer ic')"
      "buf_size (ic_buffer ic') = buf_size ?b" "page_count (ic_buffer ic') = page_count ?b" "ic_out ic' = ic_out ic"
      "ic_left ic' = ic_left ic1 - (buf_size ?b - (off + sz))" "ic_data ic' = drop m (drop sz (ic_data ic))"
      "\<forall>k. buf_byte (ic_buffer ic') k = (if off + sz \<le> k \<and> k < off + sz + m then drop sz (ic_data ic) ! (k - (off + sz))
         else buf_byte b1 k)"
      "SECTOR_SIZE dvd off + sz \<longrightarrow> SECTOR_SIZE dvd ic_left ic1 \<longrightarrow> SECTOR_SIZE dvd buf_size ?b \<longrightarrow>
         ic_pos ic' = ic_pos ic1 + m div SECTOR_SIZE"
      by (elim exE conjE) (rule that)
    have m: "min (ic_left ic) (buf_size ?b - off) = sz + m" using sz f1(2) by (simp add: m_def min_def) linarith
    have "buf_byte (ic_buffer ic') k = (if off \<le> k \<and> k < off + (sz + m) then ic_data ic ! (k - off) else buf_byte ?b k)" for k
    proof -
      have "drop sz (ic_data ic) ! (k - (off + sz)) = ic_data ic ! (k - off)" if "off + sz \<le> k"
        using that lenb by (simp add: nth_drop)
      with IH(9) bytes [of k] show ?thesis by auto
    qed
    moreover have "ic_pos ic' = ic_pos ic + (sz + m) div SECTOR_SIZE"
      if d: "SECTOR_SIZE dvd off" "SECTOR_SIZE dvd ic_left ic" "SECTOR_SIZE dvd buf_size ?b"
    proof -
      have "SECTOR_SIZE dvd sz" using x(7) d by (simp add: sz_def min_def)
      moreover have "SECTOR_SIZE dvd ic_left ic1" using calculation d(2) f1(2) by (simp add: dvd_diff_nat)
      ultimately show ?thesis using IH(10) d f1(5) by (simp add: m_def div_plus_div_distrib_dvd_left)
    qed
    moreover have "ic_left ic' = ic_left ic - (buf_size ?b - off)" using IH(7) f1(2) sz by simp
    moreover have "ic_data ic' = drop (sz + m) (ic_data ic)" using IH(8) by (simp add: add.commute)
    ultimately show ?thesis using step IH(1-6) unfolding m by (intro exI [of _ ic']) simp
  qed
qed

end
