(* ===== verification/Cow_System.thy ===== *)
theory Cow_System
  imports Cow_Image
begin

text \<open>
  The difference area as a system of concurrent steps: one turn of \<^verbatim>\<open>diff_area_copy\<close>, the end of a bio,
  the notifications, the cleaner of the caches, the image requests, and what the world outside may
  do.  The semaphore of a chunk makes the code between taking and releasing it one step.  A sequence of
  steps is an interleaving of the threads.  Every step preserves the invariant of copy-on-write, and
  the properties at the end of the theory follow from it.
\<close>

section \<open>The system\<close>

text \<open>The state of the system: the area with its disks and queues, the content of the snapshot image, and
  the context of the image request being processed.\<close>

type_synonym sys = "cow \<times> (nat \<Rightarrow> u8) \<times> diff_area_image_ctx"

definition preserved :: "cow \<Rightarrow> nat \<Rightarrow> bool" where
  "preserved s n \<longleftrightarrow> failed (chunk_of s n) \<or> dirty (chunk_of s n) \<or> store_ready (chunk_of s n)"

abbreviation chunk_bytes :: "diff_area \<Rightarrow> nat" where
  "chunk_bytes a \<equiv> diff_area_chunk_sectors a * SECTOR_SIZE"

definition image_write :: "nat \<Rightarrow> u8 list \<Rightarrow> (nat \<Rightarrow> u8) \<Rightarrow> nat \<Rightarrow> u8" where
  "image_write start bytes img = (\<lambda>x. if start \<le> x \<and> x < start + length bytes then bytes ! (x - start) else img x)"

text \<open>The steps.  \<open>rw\<close> allows writing to the image.  A step of the original device may change only what
  is preserved, unless the snapshot is corrupted; other devices and the storage may change outside the
  regions of this area.\<close>

inductive cow_step :: "cow_params \<Rightarrow> bool \<Rightarrow> sys \<Rightarrow> sys \<Rightarrow> bool" for P rw where
  copy: "n < nchunks s \<Longrightarrow> \<not> ck_locked (chunk_of s n) \<Longrightarrow>
    copy_locked_chunk P ans n nowait (down n s) = Ok (ret, s') \<Longrightarrow> cow_step P rw (s, img, ctx) (s', img, ctx)"
| bio_end: "(n, bio) \<in> set (inflight s) \<Longrightarrow> cow_bio_end n bio st s = Ok s' \<Longrightarrow>
    cow_step P rw (s, img, ctx) (s', img, ctx)"
| loaded: "(n, NotifyLoad) \<in> set (notify s) \<Longrightarrow>
    chunk_notify_load P ans n (s\<lparr>notify := remove1 (n, NotifyLoad) (notify s)\<rparr>) = Ok s' \<Longrightarrow>
    cow_step P rw (s, img, ctx) (s', img, ctx)"
| stored: "(n, NotifyStore) \<in> set (notify s) \<Longrightarrow>
    chunk_notify_store P ans n (s\<lparr>notify := remove1 (n, NotifyStore) (notify s)\<rparr>) = Ok s' \<Longrightarrow>
    cow_step P rw (s, img, ctx) (s', img, ctx)"
| release: "\<not> diff_area_is_corrupted (area s) \<Longrightarrow> diff_area_get_chunk_from_cache_and_write_lock P s = Some (n, s1) \<Longrightarrow>
    cache_release_chunk P ans n s1 = Ok s' \<Longrightarrow> cow_step P rw (s, img, ctx) (s', img, ctx)"
| image_begin: "ctx_chunk ctx = None \<Longrightarrow>
    cow_step P rw (s, img, ctx) (s, img, diff_area_image_ctx_init w)"
| image_get: "ctx_chunk ctx = None \<Longrightarrow> n < nchunks s \<Longrightarrow> \<not> ck_locked (chunk_of s n) \<Longrightarrow>
    get_locked_chunk ans n (down n s) = Ok (ret, s') \<Longrightarrow>
    cow_step P rw (s, img, ctx) (s', img, if ret = None then ctx\<lparr>ctx_chunk := Some n\<rparr> else ctx)"
| image_put: "ctx_chunk ctx = Some n \<Longrightarrow> diff_area_image_put_chunk P ans n (ctx_is_write ctx) s = Ok s' \<Longrightarrow>
    cow_step P rw (s, img, ctx) (s', img, ctx\<lparr>ctx_chunk := None\<rparr>)"
| image_write: "rw \<Longrightarrow> ctx_chunk ctx = Some n \<Longrightarrow> ctx_is_write ctx \<Longrightarrow> ck_buffer (chunk_of s n) = Some b \<Longrightarrow>
    ic_ok ic \<Longrightarrow> ic_buffer ic = b \<Longrightarrow> ic_left ic \<le> length (ic_data ic) \<Longrightarrow>
    image_copy_loop True off ic = Ok ic' \<Longrightarrow>
    cow_step P rw (s, img, ctx)
      (upd_chunk n (\<lambda>c. c\<lparr>ck_buffer := Some (ic_buffer ic')\<rparr>) s,
       image_write (chunk_base (area s) n + off) (take (ic_left ic - ic_left ic') (ic_data ic)) img, ctx)"
| orig_write: "(\<And>d x. dk d x \<noteq> disks s d x \<Longrightarrow> d = orig_bdev (area s) \<and>
      (corrupt_flag (area s) \<or> (x div chunk_bytes (area s) < nchunks s \<longrightarrow> preserved s (x div chunk_bytes (area s))))) \<Longrightarrow>
    cow_step P rw (s, img, ctx) (s\<lparr>disks := dk\<rparr>, img, ctx)"
| environment: "(\<And>d x. dk d x \<noteq> disks s d x \<Longrightarrow> d \<noteq> orig_bdev (area s) \<and>
      (\<forall>n r. n < nchunks s \<longrightarrow> ck_region (chunk_of s n) = Some r \<longrightarrow> (d, x div SECTOR_SIZE) \<notin> region_locs r)) \<Longrightarrow>
    ds_wf ds \<Longrightarrow> (\<And>x. (orig_bdev (area s), x) \<notin> ds_avail ds) \<Longrightarrow>
    (\<And>n r. n < nchunks s \<Longrightarrow> ck_region (chunk_of s n) = Some r \<Longrightarrow> region_locs r \<inter> ds_avail ds = {}) \<Longrightarrow>
    cow_step P rw (s, img, ctx) (s\<lparr>disks := dk, storage := ds\<rparr>, img, ctx)"

lemma chunk_byte_div:
  assumes "area_ok a" "i < chunk_bytes a"
  shows "(chunk_base a n + i) div chunk_bytes a = n" "(chunk_base a n + i) mod chunk_bytes a = i"
  using area_ok_sectors(2) [OF assms(1)] assms(2) by (simp_all add: chunk_base_def mult.assoc)

lemma chunk_len_le: "control_ok ctx s n \<Longrightarrow> chunk_len (chunk_of s n) \<le> chunk_bytes (area s)"
  by (simp add: control_ok_def Let_def)

text \<open>Changes of the disks that no chunk depends on.\<close>

lemma cow_inv_disks:
  assumes inv: "cow_inv img ctx s"
    and ds: "ds_wf ds" "\<And>x. (orig_bdev (area s), x) \<notin> ds_avail ds"
      "\<And>n r. n < nchunks s \<Longrightarrow> ck_region (chunk_of s n) = Some r \<Longrightarrow> region_locs r \<inter> ds_avail ds = {}"
    and reg: "\<And>n r i. \<not> corrupt_flag (area s) \<Longrightarrow> n < nchunks s \<Longrightarrow> ck_region (chunk_of s n) = Some r \<Longrightarrow>
      i < chunk_len (chunk_of s n) \<Longrightarrow> dk (reg_bdev r) (reg_base r + i) = disks s (reg_bdev r) (reg_base r + i)"
    and org: "\<And>n i. \<not> corrupt_flag (area s) \<Longrightarrow> n < nchunks s \<Longrightarrow> \<not> preserved s n \<Longrightarrow> i < chunk_len (chunk_of s n) \<Longrightarrow>
      dk (orig_bdev (area s)) (chunk_base (area s) n + i) = disks s (orig_bdev (area s)) (chunk_base (area s) n + i)"
  shows "cow_inv img ctx (s\<lparr>disks := dk, storage := ds\<rparr>)" (is "cow_inv _ _ ?s")
proof -
  have ctl: "control_ok ctx ?s n = control_ok ctx s n" for n
    by (simp add: control_ok_def Let_def bios_of_def notes_of_def cached_def cong: option.case_cong)
  have "data_ok img ctx ?s n" if h: "n < nchunks s" "\<not> corrupt_flag (area s)" for n
  proof -
    have c: "control_ok ctx s n" and d: "data_ok img ctx s n" using inv h by (simp_all add: cow_inv_def)
    have b: "bios_of ?s n = bios_of s n" by (simp add: bios_of_def)
    have nf: "\<not> failed (chunk_of s n)" using c h(2) by (auto simp: control_ok_def Let_def)
    from d show ?thesis
      unfolding data_ok_def Let_def b using reg [OF h(2,1)] org [OF h(2,1)] nf
      by (auto simp: preserved_def)
  qed
  moreover have "regions_ok ?s"
  proof -
    have "regions_ok s" using inv by (simp add: cow_inv_def)
    with ds show ?thesis unfolding regions_ok_def by auto
  qed
  ultimately show ?thesis using inv unfolding cow_inv_def ctl by (simp add: queues_ok_def)
qed

lemma others_ok_img:
  assumes "others_ok n img ctx s"
    and "\<And>m i. m < nchunks s \<Longrightarrow> m \<noteq> n \<Longrightarrow> i < chunk_len (chunk_of s m) \<Longrightarrow>
      img' (chunk_base (area s) m + i) = img (chunk_base (area s) m + i)"
  shows "others_ok n img' ctx s"
proof -
  have "data_ok img' ctx s m" if "m < nchunks s" "m \<noteq> n" "data_ok img ctx s m" for m
    using that(3) assms(2) [OF that(1,2)] unfolding data_ok_def Let_def by simp
  with assms(1) show ?thesis unfolding others_ok_def by blast
qed

lemma image_write_inv:
  assumes inv: "cow_inv img ctx s" and ctx: "ctx_chunk ctx = Some n" "ctx_is_write ctx"
    and b: "ck_buffer (chunk_of s n) = Some b" and ic: "ic_ok ic" "ic_buffer ic = b" "ic_left ic \<le> length (ic_data ic)"
    and run: "image_copy_loop True off ic = Ok ic'"
  shows "cow_inv (image_write (chunk_base (area s) n + off) (take (ic_left ic - ic_left ic') (ic_data ic)) img) ctx
      (upd_chunk n (\<lambda>c. c\<lparr>ck_buffer := Some (ic_buffer ic')\<rparr>) s)" (is "cow_inv ?img _ ?s")
proof -
  have n: "n < nchunks s" using inv ctx by (simp add: cow_inv_def)
  note i = cow_invD [OF inv n] and od = others_okD [OF cow_invD(1) [OF inv n]]
  have bf: "buffer_for (diff_area_chunk_sectors (area s)) b" using control_ok_shape [OF i(2)] b by (simp add: chunk_shape_def)
  define m where "m = min (ic_left ic) (buf_size b - off)"
  from image_copy_write [of ic off] ic bf run have w: "buffer_ok (ic_buffer ic')" "buf_size (ic_buffer ic') = buf_size b"
    "page_count (ic_buffer ic') = page_count b" "ic_left ic' = ic_left ic - (buf_size b - off)"
    "\<And>k. buf_byte (ic_buffer ic') k = (if off \<le> k \<and> k < off + m then ic_data ic ! (k - off) else buf_byte b k)"
    by (auto simp: buffer_for_def m_def)
  have cop: "ic_left ic - ic_left ic' = m" using w(4) by (simp add: m_def min_def)
  have len: "length (take m (ic_data ic)) = m" using ic(3) by (simp add: m_def)
  have img: "?img x = (if chunk_base (area s) n + off \<le> x \<and> x < chunk_base (area s) n + off + m
      then ic_data ic ! (x - (chunk_base (area s) n + off)) else img x)" for x
    unfolding image_write_def cop len by auto
  have top: "off + m \<le> chunk_bytes (area s) \<or> m = 0" using bf by (auto simp: m_def buffer_for_def)
  have "?img (chunk_base (area s) k + j) = img (chunk_base (area s) k + j)"
    if h: "k < nchunks s" "k \<noteq> n" "j < chunk_len (chunk_of s k)" for k j
  proof -
    have "control_ok ctx s k" using inv h(1) by (simp add: cow_inv_def)
    then have j: "j < chunk_bytes (area s)" using chunk_len_le h(3) by (meson less_le_trans)
    have "\<not> (chunk_base (area s) n + off \<le> chunk_base (area s) k + j \<and> chunk_base (area s) k + j < chunk_base (area s) n + off + m)"
    proof
      assume a: "chunk_base (area s) n + off \<le> chunk_base (area s) k + j \<and> chunk_base (area s) k + j < chunk_base (area s) n + off + m"
      then obtain t where t: "chunk_base (area s) k + j = chunk_base (area s) n + off + t" "t < m"
        by (metis le_Suc_ex nat_add_left_cancel_less)
      then have "off + t < chunk_bytes (area s)" using top by linarith
      from chunk_byte_div(1) [OF od(2) this, of n] chunk_byte_div(1) [OF od(2) j, of k] t(1) h(2) show False
        by (simp add: add.assoc)
    qed
    then show ?thesis by (simp only: img if_False)
  qed
  then have o: "others_ok n ?img ctx s" by (rule others_ok_img [OF i(1)])
  have o': "others_ok n ?img ctx ?s" by (rule others_ok_upd_chunk [OF o]) simp
  have ch: "chunk_of ?s n = (chunk_of s n)\<lparr>ck_buffer := Some (ic_buffer ic')\<rparr>" using n by simp
  have io: "ck_io (chunk_of s n) = None"
    using i(2) ctx by (cases "ck_io (chunk_of s n)") (auto simp: control_ok_def Let_def)
  have e: "bios_of ?s n = bios_of s n" "notes_of ?s n = notes_of s n" "cached ?s n = cached s n"
    "diff_area_chunk_sectors (area ?s) = diff_area_chunk_sectors (area s)"
    by (simp_all add: bios_of_def notes_of_def cached_def diff_area_chunk_sectors_def)
  have bf': "buffer_for (diff_area_chunk_sectors (area s)) (ic_buffer ic')" using bf w(1-3) by (simp add: buffer_for_def)
  show ?thesis
  proof (rule cow_invI [OF o'])
    show "control_ok ctx ?s n"
      using i(2) io b bf' unfolding control_ok_def Let_def e ch by auto
    assume nc: "\<not> corrupt_flag (area ?s)"
    then have d: "data_ok img ctx s n" using i(3) by simp
    have base: "chunk_base (area ?s) n = chunk_base (area s) n" by (simp only: chunk_base_def e(4))
    have fl: "\<not> loading (chunk_of s n)" "\<not> storing (chunk_of s n)" "buffer_ready (chunk_of s n)"
      using i(2) io ctx nc by (auto simp: control_ok_def Let_def)
    have "buf_byte (ic_buffer ic') j = ?img (chunk_base (area s) n + j)" if "j < chunk_len (chunk_of s n)" for j
    proof -
      have "buf_byte b j = img (chunk_base (area s) n + j)" using d that b fl(3) by (simp add: data_ok_def Let_def)
      then show ?thesis unfolding w(5) img by auto
    qed
    then show "data_ok ?img ctx ?s n"
      unfolding data_ok_def Let_def base ch using fl ctx by simp
  qed
qed

section \<open>Every step preserves the invariant\<close>

text \<open>What a step keeps: the geometry, the corruption, and the claims.\<close>

definition step_keeps :: "cow \<Rightarrow> cow \<Rightarrow> bool" where
  "step_keeps s s' \<longleftrightarrow>
     nchunks s' = nchunks s \<and> orig_bdev (area s') = orig_bdev (area s) \<and> chunk_shift (area s') = chunk_shift (area s) \<and>
     (corrupt_flag (area s) \<longrightarrow> corrupt_flag (area s')) \<and>
     (\<forall>n<nchunks s. claimed s n \<longrightarrow> claimed s' n)"

lemma step_keeps_refl [simp, intro]: "step_keeps s s"
  by (simp add: step_keeps_def)

lemma step_keeps_trans: "step_keeps s s' \<Longrightarrow> step_keeps s' s'' \<Longrightarrow> step_keeps s s''"
  by (simp add: step_keeps_def)

lemma step_keeps_frame: "frame n s s' \<Longrightarrow> (claimed s n \<longrightarrow> claimed s' n) \<Longrightarrow> step_keeps s s'"
  unfolding step_keeps_def frame_def claimed_def by metis

lemma cow_step_inv:
  assumes "cow_step P rw x y" "cow_inv (fst (snd x)) (snd (snd x)) (fst x)"
  shows "cow_inv (fst (snd y)) (snd (snd y)) (fst y) \<and> step_keeps (fst x) (fst y)"
  using assms
proof (induction rule: cow_step.induct)
  case (copy n s ans nowait ret s' img ctx)
  with copy_chunk_inv [of img ctx s n P ans nowait] show ?case by (auto intro: step_keeps_frame)
next
  case (bio_end n bio s st s' img ctx)
  then obtain k: "cow_inv img ctx s'" "nchunks s' = nchunks s"
      "area s' = (area s)\<lparr>chunk_map := (chunk_map (area s))[n := chunk_of s' n]\<rparr>"
      "ck_io (chunk_of s' n) \<noteq> None"
    using bio_end_inv [of img ctx s n bio st] by auto
  have cm: "chunk_map (area s') = (chunk_map (area s))[n := chunk_of s' n]"
    using arg_cong [OF k(3), of chunk_map] by simp
  have "claimed s' m" if "claimed s m" for m
  proof (cases "m = n")
    case False
    then have "chunk_of s' m = chunk_of s m" using arg_cong [OF cm, of "\<lambda>xs. xs ! m"] by simp
    with that show ?thesis by (simp add: claimed_def)
  qed (use k(4) in \<open>simp add: claimed_def\<close>)
  moreover have "orig_bdev (area s') = orig_bdev (area s)" "chunk_shift (area s') = chunk_shift (area s)"
    "corrupt_flag (area s') = corrupt_flag (area s)"
    using arg_cong [OF k(3), of orig_bdev] arg_cong [OF k(3), of chunk_shift] arg_cong [OF k(3), of corrupt_flag]
    by simp_all
  ultimately show ?case using k(1,2) by (simp add: step_keeps_def)
next
  case (loaded n s ans s' img ctx)
  with notify_load_inv [of img ctx s n P ans] show ?case by (auto intro: step_keeps_frame)
next
  case (stored n s ans s' img ctx)
  with notify_store_inv [of img ctx s n P ans] show ?case by (auto intro: step_keeps_frame)
next
  case (release s n s1 ans s' img ctx)
  with cache_release_inv [of img ctx s P n s1 ans] show ?case by (auto intro: step_keeps_frame)
next
  case (image_begin ctx s img w)
  have ctl: "control_ok (diff_area_image_ctx_init w) s m = control_ok ctx s m"
    "data_ok img (diff_area_image_ctx_init w) s m = data_ok img ctx s m" for m
    using image_begin(1) by (simp_all add: control_ok_def data_ok_def Let_def diff_area_image_ctx_init_def cong: option.case_cong)
  from image_begin show ?case
    unfolding cow_inv_def by (simp add: ctl) (simp add: diff_area_image_ctx_init_def)
next
  case (image_get ctx n s ans ret s' img)
  with get_locked_inv [of img ctx s n ans] show ?case by (auto intro: step_keeps_frame split: if_splits)
next
  case (image_put ctx n ans s s' img)
  with put_chunk_inv [of img ctx s n P ans] show ?case by (auto intro: step_keeps_frame)
next
  case (image_write ctx n s b ic off ic' img)
  have n: "n < nchunks s" using image_write.prems image_write(2) by (simp add: cow_inv_def)
  have "frame n s (upd_chunk n (\<lambda>c. c\<lparr>ck_buffer := Some (ic_buffer ic')\<rparr>) s)" by (rule frame_upd_chunk [OF n])
  then have "step_keeps s (upd_chunk n (\<lambda>c. c\<lparr>ck_buffer := Some (ic_buffer ic')\<rparr>) s)"
    by (rule step_keeps_frame) (simp add: claimed_def n)
  with image_write_inv [of img ctx s n b ic off ic'] image_write show ?case by simp
next
  case (orig_write dk s img ctx)
  have inv: "cow_inv img ctx s" using orig_write.prems by simp
  have "cow_inv img ctx (s\<lparr>disks := dk, storage := storage s\<rparr>)"
  proof (rule cow_inv_disks [OF inv])
    show "ds_wf (storage s)" "(orig_bdev (area s), x) \<notin> ds_avail (storage s)" for x
      using inv by (simp_all add: cow_inv_def regions_ok_def)
    show "region_locs r \<inter> ds_avail (storage s) = {}" if "n < nchunks s" "ck_region (chunk_of s n) = Some r" for n r
      using inv that by (simp add: cow_inv_def regions_ok_def)
    fix n
    show "dk (reg_bdev r) (reg_base r + i) = disks s (reg_bdev r) (reg_base r + i)"
      if "n < nchunks s" "ck_region (chunk_of s n) = Some r" for r i
    proof -
      have "reg_bdev r \<noteq> orig_bdev (area s)" using inv that by (simp add: cow_inv_def regions_ok_def)
      then show ?thesis using orig_write(1) by blast
    qed
    show "dk (orig_bdev (area s)) (chunk_base (area s) n + i) = disks s (orig_bdev (area s)) (chunk_base (area s) n + i)"
      if h: "\<not> corrupt_flag (area s)" "n < nchunks s" "\<not> preserved s n" "i < chunk_len (chunk_of s n)" for i
    proof -
      have "control_ok ctx s n" "area_ok (area s)" using inv h(2) by (simp_all add: cow_inv_def)
      then have "(chunk_base (area s) n + i) div chunk_bytes (area s) = n"
        using chunk_byte_div(1) chunk_len_le h(4) by (meson less_le_trans)
      with orig_write(1) [of "orig_bdev (area s)" "chunk_base (area s) n + i"] h show ?thesis by auto
    qed
  qed
  then show ?case by (simp add: step_keeps_def claimed_def)
next
  case (environment dk s ds img ctx)
  have inv: "cow_inv img ctx s" using environment.prems by simp
  have "cow_inv img ctx (s\<lparr>disks := dk, storage := ds\<rparr>)"
  proof (rule cow_inv_disks [OF inv environment(2-4)])
    fix n
    show "dk (reg_bdev r) (reg_base r + i) = disks s (reg_bdev r) (reg_base r + i)"
      if h: "n < nchunks s" "ck_region (chunk_of s n) = Some r" "i < chunk_len (chunk_of s n)" for r i
    proof -
      have "unat (reg_count r) = diff_area_chunk_sectors (area s)" "control_ok ctx s n"
        using inv h(1,2) by (simp_all add: cow_inv_def regions_ok_def)
      moreover have "i < chunk_bytes (area s)" by (rule less_le_trans [OF h(3) chunk_len_le [OF calculation(2)]])
      ultimately have "i < SECTOR_SIZE * unat (reg_count r)" by (simp add: mult.commute)
      from region_byte_loc [OF this] environment(1) h(1,2) show ?thesis by blast
    qed
  qed (use environment(1) in blast)+
  then show ?case by (simp add: step_keeps_def claimed_def)
qed

lemma cow_steps_inv:
  assumes "(cow_step P rw)\<^sup>*\<^sup>* x y" "cow_inv (fst (snd x)) (snd (snd x)) (fst x)"
  shows "cow_inv (fst (snd y)) (snd (snd y)) (fst y) \<and> step_keeps (fst x) (fst y)"
  using assms
proof (induction rule: rtranclp_induct)
  case (step y z)
  from cow_step_inv [OF step(2)] step.IH step.prems show ?case by (blast intro: step_keeps_trans)
qed simp

lemma cow_steps_read_only:
  assumes "(cow_step P False)\<^sup>*\<^sup>* x y"
  shows "fst (snd y) = fst (snd x)"
  using assms
proof (induction rule: rtranclp_induct)
  case (step y z)
  from step(2) have "fst (snd z) = fst (snd y)" by (cases rule: cow_step.cases) auto
  with step.IH show ?case by simp
qed simp

end
