(* ===== verification/Cow_Requests.thy ===== *)
theory Cow_Requests
  imports Cow_System
begin

text \<open>
  Whole requests on a running difference area, and what they give: the sizes of the chunks never
  change, a request that reads the image returns the bytes of the snapshot, a write to the
  original device that was let through finds its chunks preserved.
\<close>

section \<open>The chunk sizes never change\<close>

definition sizes :: "cow \<Rightarrow> nat list" where
  "sizes s = map ck_sector_count (chunk_map (area s))"

lemma sizes_upd_chunk [simp]:
  "(\<And>c. ck_sector_count (f c) = ck_sector_count c) \<Longrightarrow> sizes (upd_chunk n f s) = sizes s"
  by (cases "n < nchunks s") (simp_all add: sizes_def upd_chunk_def map_update list_update_beyond list_update_same_conv)

lemma sizes_area [simp]:
  "chunk_map (f (area s)) = chunk_map (area s) \<Longrightarrow> sizes (upd_area f s) = sizes s"
  "sizes (s\<lparr>storage := ds\<rparr>) = sizes s" "sizes (s\<lparr>disks := dk\<rparr>) = sizes s" "sizes (s\<lparr>inflight := q\<rparr>) = sizes s"
  "sizes (s\<lparr>notify := w\<rparr>) = sizes s"
  by (simp_all add: sizes_def)

lemma sizes_lock [simp]: "sizes (up n s) = sizes s" "sizes (down n s) = sizes s"
  by (simp_all add: up_def down_def)

lemma sizes_release [simp]: "sizes (chunk_diff_buffer_release P n s) = sizes s"
  by (simp add: chunk_diff_buffer_release_def split: option.split)

lemma sizes_corrupted: "diff_area_set_corrupted ans e s = Ok s' \<Longrightarrow> sizes s' = sizes s"
  by (auto simp: diff_area_set_corrupted_def diff_area_event_corrupted_def split: if_splits dest!: bind_outcome_eq_OkD)

lemma sizes_failed: "chunk_store_failed P ans n e s = Ok s' \<Longrightarrow> sizes s' = sizes s"
  by (auto simp: chunk_store_failed_def Let_def split: option.splits dest!: sizes_corrupted)

lemma sizes_start_io: "chunk_start_io ans n w st r nowait s = Ok (ret, s') \<Longrightarrow> sizes s' = sizes s"
  by (auto simp: chunk_start_io_def Let_def split: option.splits if_splits dest!: bind_outcome_eq_OkD)

lemma sizes_store: "chunk_async_store_diff ans n nowait s = Ok (ret, s') \<Longrightarrow> sizes s' = sizes s"
  by (auto simp: chunk_async_store_diff_def split: if_splits dest!: sizes_start_io)

lemma sizes_load: "chunk_async_load_orig ans n nowait s = Ok (ret, s') \<Longrightarrow> sizes s' = sizes s"
  by (auto simp: chunk_async_load_orig_def dest!: sizes_start_io)

lemma sizes_schedule_storing: "chunk_schedule_storing P ans n nowait s = Ok (ret, s') \<Longrightarrow> sizes s' = sizes s"
  by (auto simp: chunk_schedule_storing_def Let_def split: if_splits option.splits sum.splits
      dest!: bind_outcome_eq_OkD sizes_store)

lemma sizes_schedule_caching: "chunk_schedule_caching P ans n s = Ok s' \<Longrightarrow> sizes s' = sizes s"
  by (auto simp: chunk_schedule_caching_def Let_def split: if_splits dest!: sizes_failed)

lemmas sizes_ops = sizes_failed sizes_store sizes_load sizes_schedule_storing sizes_schedule_caching

lemma sizes_notify_load: "chunk_notify_load P ans n s = Ok s' \<Longrightarrow> sizes s' = sizes s"
  by (auto simp: chunk_notify_load_def Let_def pending_dec_def split: if_splits option.splits
      dest!: bind_outcome_eq_OkD sizes_ops)

lemma sizes_notify_store: "chunk_notify_store P ans n s = Ok s' \<Longrightarrow> sizes s' = sizes s"
  by (auto simp: chunk_notify_store_def Let_def pending_dec_def split: if_splits option.splits
      dest!: bind_outcome_eq_OkD sizes_ops)

lemma sizes_take: "diff_buffer_take (area s) cs nowait kz alloc = (res, a) \<Longrightarrow> sizes (s\<lparr>area := a\<rparr>) = sizes s"
  by (simp add: sizes_def diff_buffer_take_area)

lemma sizes_uncache [simp]: "sizes (diff_area_take_chunk_from_cache n s) = sizes s"
  by (simp add: diff_area_take_chunk_from_cache_def Let_def)

lemma sizes_copy: "copy_locked_chunk P ans n nowait s = Ok (ret, s') \<Longrightarrow> sizes s' = sizes s"
  by (auto simp: copy_locked_chunk_def Let_def split: if_splits prod.splits sum.splits
      dest!: bind_outcome_eq_OkD sizes_ops sizes_take)

lemma sizes_bio_end: "cow_bio_end n bio st s = Ok s' \<Longrightarrow> sizes s' = sizes s"
  by (auto simp: cow_bio_end_def split: option.splits prod.splits dest!: bind_outcome_eq_OkD)

lemma sizes_get_from_cache:
  "diff_area_get_chunk_from_cache_and_write_lock P s = Some (n, s1) \<Longrightarrow> sizes s1 = sizes s"
  by (auto simp: diff_area_get_chunk_from_cache_and_write_lock_def get_chunk_from_read_cache_def
      get_chunk_from_write_cache_def split: if_splits option.splits)

lemma sizes_cache_release: "cache_release_chunk P ans n s = Ok s' \<Longrightarrow> sizes s' = sizes s"
  by (auto simp: cache_release_chunk_def split: if_splits dest!: bind_outcome_eq_OkD sizes_ops)

lemma sizes_sync_read: "chunk_sync_read ans n r s = Ok (ret, s') \<Longrightarrow> sizes s' = sizes s"
  by (auto simp: chunk_sync_read_def split: option.splits if_splits dest!: bind_outcome_eq_OkD)

lemma sizes_load_chunk: "diff_area_load_chunk_from_storage ans n s = Ok (ret, s') \<Longrightarrow> sizes s' = sizes s"
  by (auto simp: diff_area_load_chunk_from_storage_def chunk_load_diff_def chunk_load_orig_def Let_def
      split: prod.splits sum.splits if_splits dest!: sizes_sync_read sizes_take)

lemma sizes_get_locked: "get_locked_chunk ans n s = Ok (ret, s') \<Longrightarrow> sizes s' = sizes s"
  by (auto simp: get_locked_chunk_def split: if_splits dest!: bind_outcome_eq_OkD sizes_load_chunk)

lemma sizes_put: "diff_area_image_put_chunk P ans n w s = Ok s' \<Longrightarrow> sizes s' = sizes s"
  by (auto simp: diff_area_image_put_chunk_def split: if_splits dest!: sizes_schedule_caching)

lemma sizes_step: "cow_step P rw x y \<Longrightarrow> sizes (fst y) = sizes (fst x)"
  by (induction rule: cow_step.induct)
     (auto dest!: sizes_copy sizes_bio_end sizes_notify_load sizes_notify_store sizes_get_from_cache
        sizes_cache_release sizes_get_locked sizes_put)

lemma sizes_steps: "(cow_step P rw)\<^sup>*\<^sup>* x y \<Longrightarrow> sizes (fst y) = sizes (fst x)"
  by (induction rule: rtranclp_induct) (auto dest: sizes_step)


section \<open>Requests of the image\<close>

definition image_valid :: "cow \<Rightarrow> nat \<Rightarrow> bool" where
  "image_valid s x \<longleftrightarrow> x div chunk_bytes (area s) < nchunks s \<and>
     x mod chunk_bytes (area s) < sizes s ! (x div chunk_bytes (area s)) * SECTOR_SIZE"

lemma image_valid_cong:
  "step_keeps s s' \<Longrightarrow> sizes s' = sizes s \<Longrightarrow> image_valid s' x = image_valid s x"
  by (simp add: image_valid_def step_keeps_def diff_area_chunk_sectors_def)

lemma context_get_inv:
  assumes inv: "cow_inv img ctx s"
  shows "\<exists>res ctx' s'. diff_area_image_context_get_chunk P ans killed ctx sector s = Ok (res, ctx', s') \<and>
    cow_inv img ctx' s' \<and> step_keeps s s' \<and> sizes s' = sizes s \<and> ctx_is_write ctx' = ctx_is_write ctx \<and>
    (\<forall>n. res = Returned (Inr n) \<longrightarrow> n = chunk_number (area s) sector \<and> ctx_chunk ctx' = Some n)"
proof (cases "ctx_chunk ctx = Some (chunk_number (area s) sector)")
  case True
  with inv show ?thesis by (simp add: diff_area_image_context_get_chunk_def Let_def)
next
  case False
  let ?n = "chunk_number (area s) sector" and ?ctx = "ctx\<lparr>ctx_chunk := None\<rparr>"
  obtain s1 where s1: "(case ctx_chunk ctx of None \<Rightarrow> Ok s | Some old \<Rightarrow> diff_area_image_put_chunk P ans old (ctx_is_write ctx) s) = Ok s1"
    "cow_inv img ?ctx s1" "step_keeps s s1" "sizes s1 = sizes s"
  proof (cases "ctx_chunk ctx")
    case None
    then have "?ctx = ctx" by (cases ctx) simp
    with None inv that show ?thesis by simp
  next
    case (Some old)
    from put_chunk_inv [OF inv Some, of P ans] obtain s1 where
      "diff_area_image_put_chunk P ans old (ctx_is_write ctx) s = Ok s1" "cow_inv img ?ctx s1" "frame old s s1"
      "claimed s old \<longrightarrow> claimed s1 old" by blast
    with Some that show ?thesis by (simp add: step_keeps_frame sizes_put)
  qed
  have run: "diff_area_image_context_get_chunk P ans killed ctx sector s =
      (if nchunks s1 \<le> ?n then Ok (Returned (Inl EINVAL), ?ctx, s1)
       else case take_lock False killed ?n s1 of
             (Blocked m, s2) \<Rightarrow> Ok (Blocked m, ?ctx, s2)
           | (Returned (Some e), s2) \<Rightarrow> Ok (Returned (Inl e), ?ctx, s2)
           | (Returned None, s2) \<Rightarrow>
               bind_outcome (get_locked_chunk ans ?n s2) (\<lambda>(ret, s3).
                 case ret of
                   Some e \<Rightarrow> Ok (Returned (Inl e), ?ctx, s3)
                 | None \<Rightarrow> Ok (Returned (Inr ?n), ?ctx\<lparr>ctx_chunk := Some ?n\<rparr>, s3)))"
    using False s1(1) by (simp add: diff_area_image_context_get_chunk_def Let_def)
  show ?thesis
  proof (cases "nchunks s1 \<le> ?n \<or> ck_locked (chunk_of s1 ?n)")
    case True
    with s1(2-4) run show ?thesis by (auto simp: take_lock_def)
  next
    case ok: False
    have "ctx_chunk ?ctx = None" by simp
    from get_locked_inv [OF s1(2) this, of ?n ans] ok obtain ret s3 where
      g: "get_locked_chunk ans ?n (down ?n s1) = Ok (ret, s3)" "frame ?n s1 s3" "claimed s1 ?n \<longrightarrow> claimed s3 ?n"
      "if ret = None then cow_inv img (?ctx\<lparr>ctx_chunk := Some ?n\<rparr>) s3 else cow_inv img ?ctx s3"
      by (auto simp: not_le)
    have k: "step_keeps s s3" using s1(3) step_keeps_frame [OF g(2,3)] by (rule step_keeps_trans)
    have z: "sizes s3 = sizes s" using sizes_get_locked [OF g(1)] s1(4) by simp
    from run g(1,4) ok k z show ?thesis by (cases ret) (auto simp: take_lock_def)
  qed
qed

lemma buffer_bytes_held:
  assumes inv: "cow_inv img ctx s" and ctx: "ctx_chunk ctx = Some n"
  obtains b where "n < nchunks s" "ck_buffer (chunk_of s n) = Some b"
    "buffer_for (diff_area_chunk_sectors (area s)) b" "ck_number (chunk_of s n) = n"
    "\<And>i. \<not> corrupt_flag (area s) \<Longrightarrow> i < sizes s ! n * SECTOR_SIZE \<Longrightarrow> buf_byte b i = img (chunk_base (area s) n + i)"
proof -
  have n: "n < nchunks s" using inv ctx by (simp add: cow_inv_def)
  note i = cow_invD [OF inv n]
  have br: "buffer_ready (chunk_of s n)"
    using i(2) ctx by (cases "ck_io (chunk_of s n)") (auto simp: control_ok_def Let_def)
  then obtain b where b: "ck_buffer (chunk_of s n) = Some b"
    using control_ok_shape [OF i(2)] by (auto simp: chunk_shape_def)
  have "buf_byte b k = img (chunk_base (area s) n + k)" if "\<not> corrupt_flag (area s)" "k < sizes s ! n * SECTOR_SIZE" for k
    using i(3) [OF that(1)] that(2) n br b by (simp add: data_ok_def Let_def sizes_def)
  with that [OF n b] control_ok_shape [OF i(2)] b show thesis by (simp add: chunk_shape_def)
qed

text \<open>The position of a request in its chunk.\<close>

lemma chunk_position:
  assumes "area_ok a" "ck_number c = chunk_number a pos"
  shows "pos * SECTOR_SIZE = chunk_base a (chunk_number a pos) + (pos - chunk_sector a c) * SECTOR_SIZE"
    "(pos - chunk_sector a c) * SECTOR_SIZE < chunk_bytes a"
proof -
  let ?cs = "diff_area_chunk_sectors a"
  have cs: "chunk_number a pos = pos div ?cs" "chunk_sector a c = pos div ?cs * ?cs" "0 < ?cs"
    using assms area_ok_sectors(2) by (simp_all add: chunk_number_def chunk_sector_def diff_area_chunk_sectors_def)
  have "pos - chunk_sector a c = pos mod ?cs" unfolding cs by (simp add: minus_div_mult_eq_mod)
  moreover have "pos * SECTOR_SIZE = (pos div ?cs * ?cs + pos mod ?cs) * SECTOR_SIZE" by simp
  ultimately show "pos * SECTOR_SIZE = chunk_base a (chunk_number a pos) + (pos - chunk_sector a c) * SECTOR_SIZE"
    unfolding chunk_base_def cs(1) add_mult_distrib by simp
  have "pos mod ?cs < ?cs" using cs(3) by simp
  then show "(pos - chunk_sector a c) * SECTOR_SIZE < chunk_bytes a"
    using \<open>pos - chunk_sector a c = pos mod ?cs\<close> by simp
qed

lemma upd_same_buffer:
  "ck_buffer (chunk_of s n) = Some b \<Longrightarrow> upd_chunk n (\<lambda>c. c\<lparr>ck_buffer := Some b\<rparr>) s = s"
proof -
  assume b: "ck_buffer (chunk_of s n) = Some b"
  then have "(chunk_of s n)\<lparr>ck_buffer := Some b\<rparr> = chunk_of s n" by (cases "chunk_of s n") simp
  then show ?thesis by (simp add: upd_chunk_def)
qed

text \<open>One turn of the outer loop when the image is read, once the chunk is held.\<close>

lemma image_io_read_held:
  fixes ii :: image_io
  assumes l0: "left \<noteq> 0" and rd: "\<not> ctx_is_write ctx" and dl: "SECTOR_SIZE dvd left"
    and g: "diff_area_image_context_get_chunk P (ans (chunk_number (area s) (ii_pos ii))) (killed (chunk_number (area s) (ii_pos ii)))
        ctx (ii_pos ii) s = Ok (Returned (Inr (chunk_number (area s) (ii_pos ii))), ctx1, s1)"
      "cow_inv img ctx1 s1" "step_keeps s s1" "sizes s1 = sizes s"
    and held: "ctx_chunk ctx1 = Some (chunk_number (area s) (ii_pos ii))"
  shows "\<exists>m ii1. image_io_loop P ans killed (Suc fuel) left ii ctx s = image_io_loop P ans killed fuel (left - m) ii1 ctx1 s1 \<and>
    ii_ok ii1 \<and> 0 < m \<and> m \<le> left \<and> SECTOR_SIZE dvd m \<and>
    ii_pos ii1 * SECTOR_SIZE = ii_pos ii * SECTOR_SIZE + m \<and>
    (m = left \<or> chunk_number (area s) (ii_pos ii) < chunk_number (area s) (ii_pos ii1)) \<and>
    (\<not> corrupt_flag (area s1) \<longrightarrow> (\<forall>i<m. image_valid s (ii_pos ii * SECTOR_SIZE + i)) \<longrightarrow>
       ii_out ii1 = ii_out ii @ map (\<lambda>i. img (ii_pos ii * SECTOR_SIZE + i)) [0..<m])"
proof -
  let ?n = "chunk_number (area s) (ii_pos ii)"
  note unf = image_io_loop.simps [of P ans killed "Suc fuel" left ii ctx s]
  obtain b where b: "?n < nchunks s1" "ck_buffer (chunk_of s1 ?n) = Some b"
    "buffer_for (diff_area_chunk_sectors (area s1)) b" "ck_number (chunk_of s1 ?n) = ?n"
    "\<And>i. \<not> corrupt_flag (area s1) \<Longrightarrow> i < sizes s1 ! ?n * SECTOR_SIZE \<Longrightarrow> buf_byte b i = img (chunk_base (area s1) ?n + i)"
    by (rule buffer_bytes_held [OF g(2) held]) (rule that)
  have sec: "diff_area_chunk_sectors (area s1) = diff_area_chunk_sectors (area s)" "chunk_number (area s1) = chunk_number (area s)"
    using g(3) by (auto simp: step_keeps_def diff_area_chunk_sectors_def chunk_number_def fun_eq_iff)
  have aok: "area_ok (area s1)" using g(2) by (simp add: cow_inv_def)
  define off where "off = (ii_pos ii - chunk_sector (area s1) (chunk_of s1 ?n)) * SECTOR_SIZE"
  have pos: "ii_pos ii * SECTOR_SIZE = chunk_base (area s1) ?n + off" "off < chunk_bytes (area s1)"
    using chunk_position [OF aok, of "chunk_of s1 ?n" "ii_pos ii"] b(4) sec(2) by (simp_all add: off_def)
  let ?ic = "\<lparr>ic_ok = True, ic_pos = ii_pos ii, ic_left = left, ic_data = ii_data ii,
      ic_out = ii_out ii, ic_buffer = b\<rparr>"
  define m where "m = min left (buf_size b - off)"
  have bsz: "buf_size b = chunk_bytes (area s1)" "buffer_ok b" using b(3) by (simp_all add: buffer_for_def)
  have cpy: "\<exists>ic'. image_copy_loop False off ?ic = Ok ic' \<and> ic_ok ic' \<and> ic_buffer ic' = b \<and> ic_data ic' = ii_data ii \<and>
    ic_left ic' = left - (buf_size b - off) \<and> ic_out ic' = ii_out ii @ map (\<lambda>i. buf_byte b (off + i)) [0..<m] \<and>
    (SECTOR_SIZE dvd off \<longrightarrow> SECTOR_SIZE dvd left \<longrightarrow> SECTOR_SIZE dvd buf_size b \<longrightarrow> ic_pos ic' = ii_pos ii + m div SECTOR_SIZE)"
    unfolding m_def using image_copy_read [of ?ic off] bsz(2) by (simp only: image_copy.simps simp_thms)
  then obtain ic' where ic': "image_copy_loop False off ?ic = Ok ic'" "ic_ok ic'" "ic_buffer ic' = b" "ic_data ic' = ii_data ii"
    "ic_left ic' = left - (buf_size b - off)" "ic_out ic' = ii_out ii @ map (\<lambda>i. buf_byte b (off + i)) [0..<m]"
    "SECTOR_SIZE dvd off \<longrightarrow> SECTOR_SIZE dvd left \<longrightarrow> SECTOR_SIZE dvd buf_size b \<longrightarrow> ic_pos ic' = ii_pos ii + m div SECTOR_SIZE"
    by (elim exE conjE) (rule that)
  have dv: "SECTOR_SIZE dvd off" "SECTOR_SIZE dvd buf_size b" by (simp_all add: off_def bsz)
  have mp: "0 < m" "m \<le> left" using l0 pos(2) bsz(1) by (simp_all add: m_def)
  have dm: "SECTOR_SIZE dvd m" using dl dv by (simp add: m_def min_def dvd_diff_nat)
  have p': "ic_pos ic' * SECTOR_SIZE = ii_pos ii * SECTOR_SIZE + m"
    using ic'(7) dv dl dm by (simp add: add_mult_distrib)
  have left: "ic_left ic' = left - m" using ic'(5) by (simp add: m_def min_def)
  let ?ii = "\<lparr>ii_ok = ic_ok ic', ii_pos = ic_pos ic', ii_data = ic_data ic', ii_out = ic_out ic'\<rparr>"
  have step: "image_io_loop P ans killed (Suc fuel) left ii ctx s = image_io_loop P ans killed fuel (left - m) ?ii ctx1 s1"
    using l0 g(1) b(2) ic'(1-3) rd left upd_same_buffer [OF b(2)]
    by (simp add: unf off_def Let_def)
  have out: "ii_out ?ii = ii_out ii @ map (\<lambda>i. img (ii_pos ii * SECTOR_SIZE + i)) [0..<m]"
    if nc: "\<not> corrupt_flag (area s1)" and v: "\<forall>i<m. image_valid s (ii_pos ii * SECTOR_SIZE + i)"
  proof -
    have "buf_byte b (off + i) = img (ii_pos ii * SECTOR_SIZE + i)" if "i < m" for i
    proof -
      have lt: "off + i < chunk_bytes (area s1)" using that bsz(1) pos(2) unfolding m_def by linarith
      have "image_valid s1 (chunk_base (area s1) ?n + (off + i))"
        using v that pos(1) image_valid_cong [OF g(3,4)] by (simp add: add.assoc)
      then have "off + i < sizes s1 ! ?n * SECTOR_SIZE"
        unfolding image_valid_def chunk_byte_div [OF aok lt] by blast
      from b(5) [OF nc this] pos(1) show ?thesis by (simp add: add.assoc)
    qed
    then show ?thesis unfolding ic'(6) image_io.simps by simp
  qed
  have nx: "m = left \<or> ?n < chunk_number (area s) (ii_pos ?ii)"
  proof (cases "m = left")
    case False
    then have "m = buf_size b - off" by (simp add: m_def min_def split: if_splits)
    then have "ii_pos ?ii * SECTOR_SIZE = chunk_base (area s1) ?n + chunk_bytes (area s1)"
      using p' pos bsz(1) by simp
    then have "ii_pos ?ii * SECTOR_SIZE = (Suc ?n * diff_area_chunk_sectors (area s)) * SECTOR_SIZE"
      by (simp add: chunk_base_def sec(1) algebra_simps)
    then have "ii_pos ?ii = Suc ?n * diff_area_chunk_sectors (area s)" by (simp only: mult_cancel2) simp
    moreover have "chunk_number (area s) (Suc ?n * diff_area_chunk_sectors (area s)) = Suc ?n"
      by (simp only: chunk_number_def [of _ "Suc ?n * _"] diff_area_chunk_sectors_def nonzero_mult_div_cancel_right) simp
    ultimately show ?thesis by simp
  qed simp
  have "ii_ok ?ii" "ii_pos ?ii * SECTOR_SIZE = ii_pos ii * SECTOR_SIZE + m" using ic'(2) p' by simp_all
  with step mp dm out nx show ?thesis by blast
qed

text \<open>One turn of the outer loop when the image is read.\<close>

lemma image_io_read_turn:
  assumes inv: "cow_inv img ctx s" and rd: "\<not> ctx_is_write ctx" and dl: "SECTOR_SIZE dvd left" and l0: "left \<noteq> 0"
  shows "\<exists>ctx1 s1. cow_inv img ctx1 s1 \<and> step_keeps s s1 \<and> sizes s1 = sizes s \<and> ctx_is_write ctx1 = ctx_is_write ctx \<and>
    ((\<exists>res. image_io_loop P ans killed (Suc fuel) left ii ctx s = Ok (res, ctx1, s1) \<and>
        (\<forall>ii'. res = Returned ii' \<longrightarrow> \<not> ii_ok ii')) \<or>
     (\<exists>m ii1. image_io_loop P ans killed (Suc fuel) left ii ctx s = image_io_loop P ans killed fuel (left - m) ii1 ctx1 s1 \<and>
        ii_ok ii1 \<and> 0 < m \<and> m \<le> left \<and> SECTOR_SIZE dvd m \<and>
        ii_pos ii1 * SECTOR_SIZE = ii_pos ii * SECTOR_SIZE + m \<and>
        (\<not> corrupt_flag (area s1) \<longrightarrow> (\<forall>i<m. image_valid s (ii_pos ii * SECTOR_SIZE + i)) \<longrightarrow>
           ii_out ii1 = ii_out ii @ map (\<lambda>i. img (ii_pos ii * SECTOR_SIZE + i)) [0..<m])))"
proof -
  let ?n = "chunk_number (area s) (ii_pos ii)"
  obtain res ctx1 s1 where g: "diff_area_image_context_get_chunk P (ans ?n) (killed ?n) ctx (ii_pos ii) s = Ok (res, ctx1, s1)"
    "cow_inv img ctx1 s1" "step_keeps s s1" "sizes s1 = sizes s" "ctx_is_write ctx1 = ctx_is_write ctx"
    "\<forall>n. res = Returned (Inr n) \<longrightarrow> n = ?n \<and> ctx_chunk ctx1 = Some n"
    using context_get_inv [OF inv, of P "ans ?n" "killed ?n" "ii_pos ii"] by (elim exE conjE) (rule that)
  note unf = image_io_loop.simps [of P ans killed "Suc fuel" left ii ctx s]
  show ?thesis
  proof (cases "\<exists>n. res = Returned (Inr n)")
    case False
    have "\<exists>res'. image_io_loop P ans killed (Suc fuel) left ii ctx s = Ok (res', ctx1, s1) \<and>
        (\<forall>ii'. res' = Returned ii' \<longrightarrow> \<not> ii_ok ii')"
    proof (cases res)
      case (Blocked m)
      with g(1) l0 show ?thesis by (simp add: unf)
    next
      case (Returned r)
      with False obtain e where "res = Returned (Inl e)" by (cases r) auto
      with g(1) l0 show ?thesis by (simp add: unf)
    qed
    with g(2-5) show ?thesis by blast
  next
    case True
    with g(6) have r: "res = Returned (Inr ?n)" and held: "ctx_chunk ctx1 = Some ?n" by blast+
    have "diff_area_image_context_get_chunk P (ans ?n) (killed ?n) ctx (ii_pos ii) s = Ok (Returned (Inr ?n), ctx1, s1)"
      using g(1) r by simp
    from image_io_read_held [where P = P and ans = ans and killed = killed and ii = ii, OF l0 rd dl this g(2-4) held, of fuel] g(2-5)
    show ?thesis by blast
  qed
qed

lemma map_upt_split:
  assumes "m \<le> n"
  shows "map f [0..<n] = map f [0..<m] @ map (\<lambda>i. f (m + i)) [0..<n - m]"
  using assms by (intro nth_equalityI) (auto simp: nth_append)

lemma image_io_read:
  assumes "cow_inv img ctx s" "\<not> ctx_is_write ctx" "SECTOR_SIZE dvd left" "left \<le> fuel" "ii_ok ii"
  shows "\<exists>res ctx' s'. image_io_loop P ans killed fuel left ii ctx s = Ok (res, ctx', s') \<and>
    cow_inv img ctx' s' \<and> step_keeps s s' \<and> sizes s' = sizes s \<and>
    (\<forall>ii'. res = Returned ii' \<longrightarrow> ii_ok ii' \<longrightarrow> \<not> corrupt_flag (area s') \<longrightarrow>
       (\<forall>i<left. image_valid s (ii_pos ii * SECTOR_SIZE + i)) \<longrightarrow>
       ii_out ii' = ii_out ii @ map (\<lambda>i. img (ii_pos ii * SECTOR_SIZE + i)) [0..<left])"
  using assms
proof (induction fuel arbitrary: left ii ctx s)
  case 0
  then show ?case by (simp add: image_io_loop.simps [of _ _ _ 0])
next
  case (Suc fuel)
  show ?case
  proof (cases "left = 0")
    case True
    with Suc.prems show ?thesis by (simp add: image_io_loop.simps [of _ _ _ "Suc fuel"])
  next
    case False
    from image_io_read_turn [OF Suc.prems(1-3) False, of P ans killed fuel ii]
    obtain ctx1 s1 where t: "cow_inv img ctx1 s1" "step_keeps s s1" "sizes s1 = sizes s" "ctx_is_write ctx1 = ctx_is_write ctx"
      "(\<exists>res. image_io_loop P ans killed (Suc fuel) left ii ctx s = Ok (res, ctx1, s1) \<and>
        (\<forall>ii'. res = Returned ii' \<longrightarrow> \<not> ii_ok ii')) \<or>
     (\<exists>m ii1. image_io_loop P ans killed (Suc fuel) left ii ctx s = image_io_loop P ans killed fuel (left - m) ii1 ctx1 s1 \<and>
        ii_ok ii1 \<and> 0 < m \<and> m \<le> left \<and> SECTOR_SIZE dvd m \<and>
        ii_pos ii1 * SECTOR_SIZE = ii_pos ii * SECTOR_SIZE + m \<and>
        (\<not> corrupt_flag (area s1) \<longrightarrow> (\<forall>i<m. image_valid s (ii_pos ii * SECTOR_SIZE + i)) \<longrightarrow>
           ii_out ii1 = ii_out ii @ map (\<lambda>i. img (ii_pos ii * SECTOR_SIZE + i)) [0..<m]))"
      by (elim exE conjE) (rule that)
    from t(5) show ?thesis
    proof (rule disjE, goal_cases)
      case 1
      then obtain res where "image_io_loop P ans killed (Suc fuel) left ii ctx s = Ok (res, ctx1, s1)"
        "\<forall>ii'. res = Returned ii' \<longrightarrow> \<not> ii_ok ii'" by (elim exE conjE) (rule that)
      with t(1-3) show ?thesis by blast
    next
      case 2
      then obtain m ii1 where m: "image_io_loop P ans killed (Suc fuel) left ii ctx s = image_io_loop P ans killed fuel (left - m) ii1 ctx1 s1"
        "ii_ok ii1" "0 < m" "m \<le> left" "SECTOR_SIZE dvd m" "ii_pos ii1 * SECTOR_SIZE = ii_pos ii * SECTOR_SIZE + m"
        "\<not> corrupt_flag (area s1) \<longrightarrow> (\<forall>i<m. image_valid s (ii_pos ii * SECTOR_SIZE + i)) \<longrightarrow>
           ii_out ii1 = ii_out ii @ map (\<lambda>i. img (ii_pos ii * SECTOR_SIZE + i)) [0..<m]"
        by (elim exE conjE) (rule that)
      have l: "\<not> ctx_is_write ctx1" "SECTOR_SIZE dvd left - m" "left - m \<le> fuel"
        using Suc.prems(2-4) m(3,5) t(4) by (simp_all add: dvd_diff_nat)
      from Suc.IH [OF t(1) l m(2)] obtain res ctx2 s2 where IH:
        "image_io_loop P ans killed fuel (left - m) ii1 ctx1 s1 = Ok (res, ctx2, s2)" "cow_inv img ctx2 s2"
        "step_keeps s1 s2" "sizes s2 = sizes s1"
        "\<forall>ii'. res = Returned ii' \<longrightarrow> ii_ok ii' \<longrightarrow> \<not> corrupt_flag (area s2) \<longrightarrow>
          (\<forall>i<left - m. image_valid s1 (ii_pos ii1 * SECTOR_SIZE + i)) \<longrightarrow>
          ii_out ii' = ii_out ii1 @ map (\<lambda>i. img (ii_pos ii1 * SECTOR_SIZE + i)) [0..<left - m]"
        by (elim exE conjE) (rule that)
      have out: "ii_out ii' = ii_out ii @ map (\<lambda>i. img (ii_pos ii * SECTOR_SIZE + i)) [0..<left]"
        if h: "res = Returned ii'" "ii_ok ii'" "\<not> corrupt_flag (area s2)" "\<forall>i<left. image_valid s (ii_pos ii * SECTOR_SIZE + i)" for ii'
      proof -
        have nc: "\<not> corrupt_flag (area s1)" using h(3) IH(3) by (auto simp: step_keeps_def)
        have "image_valid s1 (ii_pos ii1 * SECTOR_SIZE + i)" if "i < left - m" for i
          using h(4) [rule_format, of "m + i"] that image_valid_cong [OF t(2,3)] by (simp add: m(6) add.assoc)
        with IH(5) h(1-3) have "ii_out ii' = ii_out ii1 @ map (\<lambda>i. img (ii_pos ii1 * SECTOR_SIZE + i)) [0..<left - m]"
          by blast
        moreover have "ii_out ii1 = ii_out ii @ map (\<lambda>i. img (ii_pos ii * SECTOR_SIZE + i)) [0..<m]"
          using m(4,7) nc h(4) by simp
        ultimately show ?thesis unfolding map_upt_split [OF m(4)] m(6) by (simp add: add.assoc)
      qed
      have "step_keeps s s2" "sizes s2 = sizes s" using step_keeps_trans [OF t(2) IH(3)] IH(4) t(3) by simp_all
      with m(1) IH(1,2) out show ?thesis by (simp only:) blast
    qed
  qed
qed

section \<open>Writing the image\<close>

lemma image_write_append:
  "length d = m \<Longrightarrow> image_write (p + m) e (image_write p d img) = image_write p (d @ e) img"
  by (auto simp: image_write_def fun_eq_iff nth_append)

lemma image_write_nil [simp]: "image_write p [] img = img"
  by (auto simp: image_write_def fun_eq_iff)

text \<open>One turn of the outer loop when the image is written, once the chunk is held.\<close>

lemma image_io_write_held:
  fixes ii :: image_io
  assumes l0: "left \<noteq> 0" and wr: "ctx_is_write ctx" and dl: "SECTOR_SIZE dvd left" and ld: "left \<le> length (ii_data ii)"
    and g: "diff_area_image_context_get_chunk P (ans (chunk_number (area s) (ii_pos ii))) (killed (chunk_number (area s) (ii_pos ii)))
        ctx (ii_pos ii) s = Ok (Returned (Inr (chunk_number (area s) (ii_pos ii))), ctx1, s1)"
      "cow_inv img ctx1 s1" "step_keeps s s1" "sizes s1 = sizes s" "ctx_is_write ctx1 = ctx_is_write ctx"
    and held: "ctx_chunk ctx1 = Some (chunk_number (area s) (ii_pos ii))"
  shows "\<exists>m ii1 s2. image_io_loop P ans killed (Suc fuel) left ii ctx s = image_io_loop P ans killed fuel (left - m) ii1 ctx1 s2 \<and>
    ii_ok ii1 \<and> 0 < m \<and> m \<le> left \<and> SECTOR_SIZE dvd m \<and>
    ii_pos ii1 * SECTOR_SIZE = ii_pos ii * SECTOR_SIZE + m \<and> ii_data ii1 = drop m (ii_data ii) \<and>
    (m = left \<or> chunk_number (area s) (ii_pos ii) < chunk_number (area s) (ii_pos ii1)) \<and>
    cow_inv (image_write (ii_pos ii * SECTOR_SIZE) (take m (ii_data ii)) img) ctx1 s2 \<and> step_keeps s s2 \<and> sizes s2 = sizes s \<and>
    (\<forall>k. k \<noteq> chunk_number (area s) (ii_pos ii) \<longrightarrow> chunk_of s2 k = chunk_of s1 k)"
proof -
  let ?n = "chunk_number (area s) (ii_pos ii)"
  note unf = image_io_loop.simps [of P ans killed "Suc fuel" left ii ctx s]
  obtain b where b: "?n < nchunks s1" "ck_buffer (chunk_of s1 ?n) = Some b"
    "buffer_for (diff_area_chunk_sectors (area s1)) b" "ck_number (chunk_of s1 ?n) = ?n"
    by (rule buffer_bytes_held [OF g(2) held]) (rule that)
  have sec: "diff_area_chunk_sectors (area s1) = diff_area_chunk_sectors (area s)" "chunk_number (area s1) = chunk_number (area s)"
    using g(3) by (auto simp: step_keeps_def diff_area_chunk_sectors_def chunk_number_def fun_eq_iff)
  have aok: "area_ok (area s1)" using g(2) by (simp add: cow_inv_def)
  define off where "off = (ii_pos ii - chunk_sector (area s1) (chunk_of s1 ?n)) * SECTOR_SIZE"
  have pos: "ii_pos ii * SECTOR_SIZE = chunk_base (area s1) ?n + off" "off < chunk_bytes (area s1)"
    using chunk_position [OF aok, of "chunk_of s1 ?n" "ii_pos ii"] b(4) sec(2) by (simp_all add: off_def)
  let ?ic = "\<lparr>ic_ok = True, ic_pos = ii_pos ii, ic_left = left, ic_data = ii_data ii,
      ic_out = ii_out ii, ic_buffer = b\<rparr>"
  define m where "m = min left (buf_size b - off)"
  have bsz: "buf_size b = chunk_bytes (area s1)" "buffer_ok b" using b(3) by (simp_all add: buffer_for_def)
  have cpy: "\<exists>ic'. image_copy_loop True off ?ic = Ok ic' \<and> ic_ok ic' \<and> ic_left ic' = left - (buf_size b - off) \<and>
    ic_data ic' = drop m (ii_data ii) \<and>
    (SECTOR_SIZE dvd off \<longrightarrow> SECTOR_SIZE dvd left \<longrightarrow> SECTOR_SIZE dvd buf_size b \<longrightarrow> ic_pos ic' = ii_pos ii + m div SECTOR_SIZE)"
    unfolding m_def using image_copy_write [of ?ic off] bsz(2) ld by (simp only: image_copy.simps simp_thms) blast
  then obtain ic' where ic': "image_copy_loop True off ?ic = Ok ic'" "ic_ok ic'"
    "ic_left ic' = left - (buf_size b - off)" "ic_data ic' = drop m (ii_data ii)"
    "SECTOR_SIZE dvd off \<longrightarrow> SECTOR_SIZE dvd left \<longrightarrow> SECTOR_SIZE dvd buf_size b \<longrightarrow> ic_pos ic' = ii_pos ii + m div SECTOR_SIZE"
    by (elim exE conjE) (rule that)
  have dv: "SECTOR_SIZE dvd off" "SECTOR_SIZE dvd buf_size b" by (simp_all add: off_def bsz)
  have mp: "0 < m" "m \<le> left" using l0 pos(2) bsz(1) by (simp_all add: m_def)
  have dm: "SECTOR_SIZE dvd m" using dl dv by (simp add: m_def min_def dvd_diff_nat)
  have p': "ic_pos ic' * SECTOR_SIZE = ii_pos ii * SECTOR_SIZE + m"
    using ic'(5) dv dl dm by (simp add: add_mult_distrib)
  have left: "ic_left ic' = left - m" using ic'(3) by (simp add: m_def min_def)
  let ?ii = "\<lparr>ii_ok = ic_ok ic', ii_pos = ic_pos ic', ii_data = ic_data ic', ii_out = ic_out ic'\<rparr>"
  let ?s2 = "upd_chunk ?n (\<lambda>c. c\<lparr>ck_buffer := Some (ic_buffer ic')\<rparr>) s1"
  have step: "image_io_loop P ans killed (Suc fuel) left ii ctx s = image_io_loop P ans killed fuel (left - m) ?ii ctx1 ?s2"
    using l0 g(1) b(2) ic'(1,2) wr left by (simp add: unf off_def Let_def)
  have wr1: "ctx_is_write ctx1" using g(5) wr by simp
  have "cow_inv (image_write (chunk_base (area s1) ?n + off) (take (left - ic_left ic') (ii_data ii)) img) ctx1 ?s2"
    using image_write_inv [OF g(2) held wr1 b(2), of ?ic off ic'] ic'(1) ld by simp
  moreover have "left - ic_left ic' = m" using left mp(2) by simp
  ultimately have i2: "cow_inv (image_write (ii_pos ii * SECTOR_SIZE) (take m (ii_data ii)) img) ctx1 ?s2" using pos(1) by simp
  have "step_keeps s1 ?s2" by (rule step_keeps_frame [OF frame_upd_chunk [OF b(1)]]) (simp add: claimed_def b(1))
  then have k2: "step_keeps s ?s2" by (rule step_keeps_trans [OF g(3)])
  have nx: "m = left \<or> ?n < chunk_number (area s) (ii_pos ?ii)"
  proof (cases "m = left")
    case False
    then have "m = buf_size b - off" by (simp add: m_def min_def split: if_splits)
    then have "ii_pos ?ii * SECTOR_SIZE = chunk_base (area s1) ?n + chunk_bytes (area s1)"
      using p' pos bsz(1) by simp
    then have "ii_pos ?ii * SECTOR_SIZE = (Suc ?n * diff_area_chunk_sectors (area s)) * SECTOR_SIZE"
      by (simp add: chunk_base_def sec(1) algebra_simps)
    then have "ii_pos ?ii = Suc ?n * diff_area_chunk_sectors (area s)" by (simp only: mult_cancel2) simp
    moreover have "chunk_number (area s) (Suc ?n * diff_area_chunk_sectors (area s)) = Suc ?n"
      by (simp only: chunk_number_def [of _ "Suc ?n * _"] diff_area_chunk_sectors_def nonzero_mult_div_cancel_right) simp
    ultimately show ?thesis by simp
  qed simp
  have "sizes ?s2 = sizes s" using g(4) by simp
  moreover have "\<forall>k. k \<noteq> ?n \<longrightarrow> chunk_of ?s2 k = chunk_of s1 k" using b(1) by simp
  ultimately show ?thesis using step mp dm i2 k2 ic'(2,4) p' nx
    by (intro exI [of _ m] exI [of _ ?ii] exI [of _ ?s2] conjI) (simp_all del: upd_chunk_area)
qed

text \<open>One turn of the outer loop when the image is written.\<close>

lemma image_io_write_turn:
  assumes inv: "cow_inv img ctx s" and wr: "ctx_is_write ctx" and dl: "SECTOR_SIZE dvd left" and l0: "left \<noteq> 0"
    and ld: "left \<le> length (ii_data ii)"
  shows "\<exists>ctx1 s1 m. cow_inv (image_write (ii_pos ii * SECTOR_SIZE) (take m (ii_data ii)) img) ctx1 s1 \<and>
    step_keeps s s1 \<and> sizes s1 = sizes s \<and> ctx_is_write ctx1 = ctx_is_write ctx \<and>
    ((\<exists>res. image_io_loop P ans killed (Suc fuel) left ii ctx s = Ok (res, ctx1, s1) \<and> m = 0 \<and>
        (\<forall>ii'. res = Returned ii' \<longrightarrow> \<not> ii_ok ii')) \<or>
     (\<exists>ii1. image_io_loop P ans killed (Suc fuel) left ii ctx s = image_io_loop P ans killed fuel (left - m) ii1 ctx1 s1 \<and>
        ii_ok ii1 \<and> 0 < m \<and> m \<le> left \<and> SECTOR_SIZE dvd m \<and>
        ii_pos ii1 * SECTOR_SIZE = ii_pos ii * SECTOR_SIZE + m \<and> ii_data ii1 = drop m (ii_data ii)))"
proof -
  let ?n = "chunk_number (area s) (ii_pos ii)"
  obtain res ctx1 s1 where g: "diff_area_image_context_get_chunk P (ans ?n) (killed ?n) ctx (ii_pos ii) s = Ok (res, ctx1, s1)"
    "cow_inv img ctx1 s1" "step_keeps s s1" "sizes s1 = sizes s" "ctx_is_write ctx1 = ctx_is_write ctx"
    "\<forall>n. res = Returned (Inr n) \<longrightarrow> n = ?n \<and> ctx_chunk ctx1 = Some n"
    using context_get_inv [OF inv, of P "ans ?n" "killed ?n" "ii_pos ii"] by (elim exE conjE) (rule that)
  note unf = image_io_loop.simps [of P ans killed "Suc fuel" left ii ctx s]
  show ?thesis
  proof (cases "\<exists>n. res = Returned (Inr n)")
    case False
    have "\<exists>res'. image_io_loop P ans killed (Suc fuel) left ii ctx s = Ok (res', ctx1, s1) \<and>
        (\<forall>ii'. res' = Returned ii' \<longrightarrow> \<not> ii_ok ii')"
    proof (cases res)
      case (Blocked m)
      with g(1) l0 show ?thesis by (simp add: unf)
    next
      case (Returned r)
      with False obtain e where "res = Returned (Inl e)" by (cases r) auto
      with g(1) l0 show ?thesis by (simp add: unf)
    qed
    with g(2-5) show ?thesis by (intro exI [of _ ctx1] exI [of _ s1] exI [of _ 0]) simp
  next
    case True
    with g(6) have r: "res = Returned (Inr ?n)" and held: "ctx_chunk ctx1 = Some ?n" by blast+
    have "diff_area_image_context_get_chunk P (ans ?n) (killed ?n) ctx (ii_pos ii) s = Ok (Returned (Inr ?n), ctx1, s1)"
      using g(1) r by simp
    from image_io_write_held [where P = P and ans = ans and killed = killed and ii = ii, OF l0 wr dl ld this g(2-5) held, of fuel] g(5)
    show ?thesis by blast
  qed
qed

lemma image_io_write:
  assumes "cow_inv img ctx s" "ctx_is_write ctx" "SECTOR_SIZE dvd left" "left \<le> fuel" "left \<le> length (ii_data ii)"
  shows "\<exists>res ctx' s' k. image_io_loop P ans killed fuel left ii ctx s = Ok (res, ctx', s') \<and> k \<le> left \<and>
    cow_inv (image_write (ii_pos ii * SECTOR_SIZE) (take k (ii_data ii)) img) ctx' s' \<and> step_keeps s s' \<and> sizes s' = sizes s \<and>
    (\<forall>ii'. res = Returned ii' \<longrightarrow> ii_ok ii' \<longrightarrow> k = left)"
  using assms
proof (induction fuel arbitrary: left ii ctx s img)
  case 0
  then show ?case by (simp add: image_io_loop.simps [of _ _ _ 0])
next
  case (Suc fuel)
  show ?case
  proof (cases "left = 0")
    case True
    with Suc.prems show ?thesis by (simp add: image_io_loop.simps [of _ _ _ "Suc fuel"])
  next
    case False
    let ?p = "ii_pos ii * SECTOR_SIZE" and ?d = "ii_data ii"
    from image_io_write_turn [OF Suc.prems(1-3) False Suc.prems(5), of P ans killed fuel]
    obtain ctx1 s1 m where t: "cow_inv (image_write ?p (take m ?d) img) ctx1 s1" "step_keeps s s1" "sizes s1 = sizes s"
      "ctx_is_write ctx1 = ctx_is_write ctx"
      "(\<exists>res. image_io_loop P ans killed (Suc fuel) left ii ctx s = Ok (res, ctx1, s1) \<and> m = 0 \<and>
        (\<forall>ii'. res = Returned ii' \<longrightarrow> \<not> ii_ok ii')) \<or>
       (\<exists>ii1. image_io_loop P ans killed (Suc fuel) left ii ctx s = image_io_loop P ans killed fuel (left - m) ii1 ctx1 s1 \<and>
        ii_ok ii1 \<and> 0 < m \<and> m \<le> left \<and> SECTOR_SIZE dvd m \<and>
        ii_pos ii1 * SECTOR_SIZE = ii_pos ii * SECTOR_SIZE + m \<and> ii_data ii1 = drop m (ii_data ii))"
      by (elim exE conjE) (rule that)
    from t(5) show ?thesis
    proof (rule disjE, goal_cases)
      case 1
      then obtain res where r: "image_io_loop P ans killed (Suc fuel) left ii ctx s = Ok (res, ctx1, s1)" "m = 0"
        "\<forall>ii'. res = Returned ii' \<longrightarrow> \<not> ii_ok ii'" by (elim exE conjE) (rule that)
      with t(1-3) show ?thesis by (intro exI [of _ res] exI [of _ ctx1] exI [of _ s1] exI [of _ 0]) simp
    next
      case 2
      then obtain ii1 where m: "image_io_loop P ans killed (Suc fuel) left ii ctx s = image_io_loop P ans killed fuel (left - m) ii1 ctx1 s1"
        "ii_ok ii1" "0 < m" "m \<le> left" "SECTOR_SIZE dvd m" "ii_pos ii1 * SECTOR_SIZE = ?p + m" "ii_data ii1 = drop m ?d"
        by (elim exE conjE) (rule that)
      have l: "ctx_is_write ctx1" "SECTOR_SIZE dvd left - m" "left - m \<le> fuel" "left - m \<le> length (ii_data ii1)"
        using Suc.prems(2-5) m(3-5,7) t(4) by (simp_all add: dvd_diff_nat)
      from Suc.IH [OF t(1) l] obtain res ctx2 s2 k where IH:
        "image_io_loop P ans killed fuel (left - m) ii1 ctx1 s1 = Ok (res, ctx2, s2)" "k \<le> left - m"
        "cow_inv (image_write (ii_pos ii1 * SECTOR_SIZE) (take k (ii_data ii1)) (image_write ?p (take m ?d) img)) ctx2 s2"
        "step_keeps s1 s2" "sizes s2 = sizes s1" "\<forall>ii'. res = Returned ii' \<longrightarrow> ii_ok ii' \<longrightarrow> k = left - m"
        by (elim exE conjE) (rule that)
      have "image_write (ii_pos ii1 * SECTOR_SIZE) (take k (ii_data ii1)) (image_write ?p (take m ?d) img) =
          image_write ?p (take (m + k) ?d) img"
        unfolding m(6,7) take_add using m(4) Suc.prems(5) by (intro image_write_append) simp
      with IH(3) have i: "cow_inv (image_write ?p (take (m + k) ?d) img) ctx2 s2" by simp
      have "m + k \<le> left" "\<forall>ii'. res = Returned ii' \<longrightarrow> ii_ok ii' \<longrightarrow> m + k = left" using IH(2,6) m(4) by auto
      moreover have "image_io_loop P ans killed (Suc fuel) left ii ctx s = Ok (res, ctx2, s2)" using m(1) IH(1) by simp
      moreover have "step_keeps s s2" "sizes s2 = sizes s" using step_keeps_trans [OF t(2) IH(4)] IH(5) t(3) by simp_all
      ultimately show ?thesis using i by blast
    qed
  qed
qed


text \<open>A request whose chunks are free and whose resources are granted succeeds.\<close>

definition readable :: "cow \<Rightarrow> nat \<Rightarrow> bool" where
  "readable s n \<longleftrightarrow> n < nchunks s \<and> \<not> ck_locked (chunk_of s n) \<and> \<not> failed (chunk_of s n) \<and>
     (\<forall>r. ck_region (chunk_of s n) = Some r \<longrightarrow> check_page_aligned (reg_sector r))"

lemma context_get_good:
  assumes inv: "cow_inv img ctx s" and good: "good_answers ans"
    and rd: "ctx_chunk ctx = Some (chunk_number (area s) sector) \<or> readable s (chunk_number (area s) sector)"
  shows "\<exists>ctx' s'. diff_area_image_context_get_chunk P ans killed ctx sector s =
      Ok (Returned (Inr (chunk_number (area s) sector)), ctx', s') \<and>
    (\<forall>m. m \<noteq> chunk_number (area s) sector \<longrightarrow> ctx_chunk ctx \<noteq> Some m \<longrightarrow> chunk_of s' m = chunk_of s m)"
proof (cases "ctx_chunk ctx = Some (chunk_number (area s) sector)")
  case True
  then show ?thesis by (simp add: diff_area_image_context_get_chunk_def Let_def)
next
  case False
  let ?n = "chunk_number (area s) sector" and ?ctx = "ctx\<lparr>ctx_chunk := None\<rparr>"
  obtain s1 where s1: "(case ctx_chunk ctx of None \<Rightarrow> Ok s | Some old \<Rightarrow> diff_area_image_put_chunk P ans old (ctx_is_write ctx) s) = Ok s1"
    "cow_inv img ?ctx s1" "nchunks s1 = nchunks s" "\<forall>m. ctx_chunk ctx \<noteq> Some m \<longrightarrow> chunk_of s1 m = chunk_of s m"
  proof (cases "ctx_chunk ctx")
    case None
    then have "?ctx = ctx" by (cases ctx) simp
    with None inv that show ?thesis by simp
  next
    case (Some old)
    from put_chunk_inv [OF inv Some, of P ans] obtain s1 where
      "diff_area_image_put_chunk P ans old (ctx_is_write ctx) s = Ok s1" "cow_inv img ?ctx s1" "frame old s s1" by blast
    with Some that show ?thesis by (auto simp: frame_def)
  qed
  have n: "?n < nchunks s1" "\<not> ck_locked (chunk_of s1 ?n)" "\<not> failed (chunk_of s1 ?n)"
    "\<forall>r. ck_region (chunk_of s1 ?n) = Some r \<longrightarrow> check_page_aligned (reg_sector r)"
    using rd False s1(3,4) by (simp_all add: readable_def)
  have "ctx_chunk ?ctx = None" by simp
  from get_locked_inv [OF s1(2) this n(1,2), of ans] good n(3,4) obtain s3 where
    g: "get_locked_chunk ans ?n (down ?n s1) = Ok (None, s3)" "frame ?n s1 s3" by blast
  have "diff_area_image_context_get_chunk P ans killed ctx sector s = Ok (Returned (Inr ?n), ?ctx\<lparr>ctx_chunk := Some ?n\<rparr>, s3)"
    using False s1(1) n(1,2) g(1) by (simp add: diff_area_image_context_get_chunk_def Let_def take_lock_def)
  moreover have "chunk_of s3 m = chunk_of s m" if "m \<noteq> ?n" "ctx_chunk ctx \<noteq> Some m" for m
    using g(2) s1(4) that by (simp add: frame_def)
  ultimately show ?thesis by blast
qed

lemma image_io_held:
  fixes ii :: image_io
  assumes l0: "left \<noteq> 0" and dl: "SECTOR_SIZE dvd left" and ld: "ctx_is_write ctx \<longrightarrow> left \<le> length (ii_data ii)"
    and g: "diff_area_image_context_get_chunk P (ans (chunk_number (area s) (ii_pos ii))) (killed (chunk_number (area s) (ii_pos ii)))
        ctx (ii_pos ii) s = Ok (Returned (Inr (chunk_number (area s) (ii_pos ii))), ctx1, s1)"
      "cow_inv img ctx1 s1" "step_keeps s s1" "sizes s1 = sizes s" "ctx_is_write ctx1 = ctx_is_write ctx"
    and held: "ctx_chunk ctx1 = Some (chunk_number (area s) (ii_pos ii))"
  shows "\<exists>m ii1 s2 img2. image_io_loop P ans killed (Suc fuel) left ii ctx s = image_io_loop P ans killed fuel (left - m) ii1 ctx1 s2 \<and>
    ii_ok ii1 \<and> 0 < m \<and> m \<le> left \<and> SECTOR_SIZE dvd m \<and>
    ii_pos ii1 * SECTOR_SIZE = ii_pos ii * SECTOR_SIZE + m \<and> (ctx_is_write ctx \<longrightarrow> left - m \<le> length (ii_data ii1)) \<and>
    (m = left \<or> chunk_number (area s) (ii_pos ii) < chunk_number (area s) (ii_pos ii1)) \<and>
    cow_inv img2 ctx1 s2 \<and> step_keeps s s2 \<and> (\<forall>k. k \<noteq> chunk_number (area s) (ii_pos ii) \<longrightarrow> chunk_of s2 k = chunk_of s1 k)"
proof (cases "ctx_is_write ctx")
  case True
  with ld have ld': "left \<le> length (ii_data ii)" by simp
  from image_io_write_held [where P = P and ans = ans and killed = killed and ii = ii, OF l0 True dl ld' g held, of fuel]
  obtain m ii1 s2 where t: "image_io_loop P ans killed (Suc fuel) left ii ctx s = image_io_loop P ans killed fuel (left - m) ii1 ctx1 s2"
    "ii_ok ii1" "0 < m" "m \<le> left" "SECTOR_SIZE dvd m" "ii_pos ii1 * SECTOR_SIZE = ii_pos ii * SECTOR_SIZE + m"
    "ii_data ii1 = drop m (ii_data ii)" "m = left \<or> chunk_number (area s) (ii_pos ii) < chunk_number (area s) (ii_pos ii1)"
    "cow_inv (image_write (ii_pos ii * SECTOR_SIZE) (take m (ii_data ii)) img) ctx1 s2" "step_keeps s s2"
    "\<forall>k. k \<noteq> chunk_number (area s) (ii_pos ii) \<longrightarrow> chunk_of s2 k = chunk_of s1 k"
    by (elim exE conjE) (rule that)
  moreover have "left - m \<le> length (ii_data ii1)" using t(7) ld' by simp
  ultimately show ?thesis by blast
next
  case False
  from image_io_read_held [where P = P and ans = ans and killed = killed and ii = ii, OF l0 False dl g(1-4) held, of fuel] False g(2,3)
  show ?thesis by blast
qed

lemma image_io_good:
  assumes "cow_inv img ctx s" "ctx_is_write ctx \<longrightarrow> left \<le> length (ii_data ii)" "SECTOR_SIZE dvd left" "left \<le> fuel" "ii_ok ii"
    and "\<And>k. good_answers (ans k)"
    and "\<And>m. chunk_number (area s) (ii_pos ii) \<le> m \<Longrightarrow> m * chunk_bytes (area s) < ii_pos ii * SECTOR_SIZE + left \<Longrightarrow>
      ctx_chunk ctx = Some m \<or> readable s m"
    and "\<And>m. ctx_chunk ctx = Some m \<Longrightarrow> m \<le> chunk_number (area s) (ii_pos ii)"
  shows "\<exists>ii' ctx' s'. image_io_loop P ans killed fuel left ii ctx s = Ok (Returned ii', ctx', s') \<and> ii_ok ii'"
  using assms
proof (induction fuel arbitrary: left ii ctx s img)
  case 0
  then show ?case by (simp add: image_io_loop.simps [of _ _ _ 0])
next
  case (Suc fuel)
  show ?case
  proof (cases "left = 0")
    case True
    with Suc.prems show ?thesis by (simp add: image_io_loop.simps [of _ _ _ "Suc fuel"])
  next
    case False
    let ?n = "chunk_number (area s) (ii_pos ii)"
    have cb: "?n * chunk_bytes (area s) \<le> ii_pos ii * SECTOR_SIZE"
      by (simp add: chunk_number_def diff_area_chunk_sectors_def)
    have rd: "ctx_chunk ctx = Some ?n \<or> readable s ?n"
      by (rule Suc.prems(7)) (use cb False in linarith)+
    obtain ctx1 s1 where c: "diff_area_image_context_get_chunk P (ans ?n) (killed ?n) ctx (ii_pos ii) s = Ok (Returned (Inr ?n), ctx1, s1)"
      "\<forall>m. m \<noteq> ?n \<longrightarrow> ctx_chunk ctx \<noteq> Some m \<longrightarrow> chunk_of s1 m = chunk_of s m"
      using context_get_good [OF Suc.prems(1) Suc.prems(6) [of ?n] rd, of P "killed ?n"] by blast
    from context_get_inv [OF Suc.prems(1), of P "ans ?n" "killed ?n" "ii_pos ii"] c(1)
    have g: "cow_inv img ctx1 s1" "step_keeps s s1" "sizes s1 = sizes s" "ctx_is_write ctx1 = ctx_is_write ctx" "ctx_chunk ctx1 = Some ?n"
      by auto
    from image_io_held [where P = P and ans = ans and killed = killed and ii = ii, OF False Suc.prems(3,2) c(1) g, of fuel]
    obtain m ii1 s2 img2 where t: "image_io_loop P ans killed (Suc fuel) left ii ctx s = image_io_loop P ans killed fuel (left - m) ii1 ctx1 s2"
      "ii_ok ii1" "0 < m" "m \<le> left" "SECTOR_SIZE dvd m" "ii_pos ii1 * SECTOR_SIZE = ii_pos ii * SECTOR_SIZE + m"
      "ctx_is_write ctx \<longrightarrow> left - m \<le> length (ii_data ii1)" "m = left \<or> ?n < chunk_number (area s) (ii_pos ii1)"
      "cow_inv img2 ctx1 s2" "step_keeps s s2" "\<forall>k. k \<noteq> ?n \<longrightarrow> chunk_of s2 k = chunk_of s1 k"
      by (elim exE conjE) (rule that)
    have geo: "chunk_number (area s2) = chunk_number (area s)" "chunk_bytes (area s2) = chunk_bytes (area s)" "nchunks s2 = nchunks s"
      using t(10) by (auto simp: step_keeps_def diff_area_chunk_sectors_def chunk_number_def fun_eq_iff)
    show ?thesis
    proof (cases "m = left")
      case True
      with t(1,2) show ?thesis by (simp add: image_io_loop.simps [of _ _ _ fuel])
    next
      case more: False
      have "\<exists>ii' ctx' s'. image_io_loop P ans killed fuel (left - m) ii1 ctx1 s2 = Ok (Returned ii', ctx', s') \<and> ii_ok ii'"
      proof (rule Suc.IH [OF t(9)])
        show "ctx_is_write ctx1 \<longrightarrow> left - m \<le> length (ii_data ii1)" "SECTOR_SIZE dvd left - m" "left - m \<le> fuel" "ii_ok ii1" "\<And>k. good_answers (ans k)"
          using Suc.prems(3,4,6) t(2,3,5,7) g(4) by (simp_all add: dvd_diff_nat)
        show "k \<le> chunk_number (area s2) (ii_pos ii1)" if "ctx_chunk ctx1 = Some k" for k
          using that g(5) t(8) more geo(1) by simp
        fix k
        assume k: "chunk_number (area s2) (ii_pos ii1) \<le> k" "k * chunk_bytes (area s2) < ii_pos ii1 * SECTOR_SIZE + (left - m)"
        have gt: "?n < k" using k(1) t(8) more geo(1) by simp
        have "k * chunk_bytes (area s) < ii_pos ii * SECTOR_SIZE + left" using k(2) t(4,6) geo(2) by simp
        with Suc.prems(7) gt have "ctx_chunk ctx = Some k \<or> readable s k" by simp
        moreover have nk: "ctx_chunk ctx \<noteq> Some k" using Suc.prems(8) gt by fastforce
        ultimately have "readable s2 k" using c(2) t(11) gt geo(3) by (simp add: readable_def)
        then show "ctx_chunk ctx1 = Some k \<or> readable s2 k" by simp
      qed
      with t(1) show ?thesis by simp
    qed
  qed
qed

section \<open>A chunk stays preserved\<close>

text \<open>\<open>keeps s s'\<close>: what is preserved in \<open>s\<close> is preserved in \<open>s'\<close>.\<close>

definition kept_chunk :: "chunk \<Rightarrow> bool" where
  "kept_chunk c \<longleftrightarrow> failed c \<or> dirty c \<or> store_ready c"

lemma kept_fields [simp]:
  "kept_chunk (c\<lparr>ck_locked := l\<rparr>) = kept_chunk c" "kept_chunk (c\<lparr>ck_buffer := b\<rparr>) = kept_chunk c"
  "kept_chunk (c\<lparr>ck_region := r\<rparr>) = kept_chunk c" "kept_chunk (c\<lparr>ck_io := io\<rparr>) = kept_chunk c"
  by (simp_all add: kept_chunk_def)

lemma kept_set [simp]: "kept_chunk c \<Longrightarrow> kept_chunk (chunk_state_set (st_bit k) c)"
  by (auto simp: kept_chunk_def)

lemma kept_store_ready [simp]: "kept_chunk (chunk_state_set (st_bit 3) c)"
  by (simp add: kept_chunk_def)

lemma kept_unset [simp]: "1 < k \<Longrightarrow> k \<noteq> 3 \<Longrightarrow> kept_chunk (chunk_state_unset (st_bit k) c) = kept_chunk c"
  by (auto simp: kept_chunk_def)

lemma kept_stored [simp]: "k \<noteq> 3 \<Longrightarrow> kept_chunk (chunk_state_unset (st_bit k) (chunk_state_set (st_bit 3) c))"
  by (simp add: kept_chunk_def)

definition keeps :: "cow \<Rightarrow> cow \<Rightarrow> bool" where
  "keeps s s' \<longleftrightarrow> nchunks s' = nchunks s \<and> (\<forall>n<nchunks s. kept_chunk (chunk_of s n) \<longrightarrow> kept_chunk (chunk_of s' n))"

lemma keeps_refl [simp]: "keeps s s"
  by (simp add: keeps_def)

lemma keeps_trans: "keeps s0 s \<Longrightarrow> keeps s s' \<Longrightarrow> keeps s0 s'"
  by (simp add: keeps_def)

lemma keeps_upd [simp]:
  "keeps s0 s \<Longrightarrow> (\<And>c. kept_chunk c \<Longrightarrow> kept_chunk (f c)) \<Longrightarrow> keeps s0 (upd_chunk n f s)"
  by (cases "n < nchunks s") (auto simp: keeps_def upd_chunk_def nth_list_update)

lemma keeps_upd2:
  "keeps s0 s \<Longrightarrow> (\<And>c. kept_chunk c \<Longrightarrow> kept_chunk (f (g c))) \<Longrightarrow> keeps s0 (upd_chunk n f (upd_chunk n g s))"
  by (cases "n < nchunks s") (auto simp: keeps_def upd_chunk_def nth_list_update)

lemma keeps_stored [simp]:
  "keeps s0 s \<Longrightarrow> keeps s0 (upd_chunk n (chunk_state_unset (st_bit (Suc 0)))
     (upd_chunk n (\<lambda>c. chunk_state_set (st_bit 3) (chunk_state_unset (st_bit k) c)) s))"
  by (simp add: keeps_upd2)

lemma keeps_area [simp]:
  "keeps s0 s \<Longrightarrow> chunk_map (f (area s)) = chunk_map (area s) \<Longrightarrow> keeps s0 (upd_area f s)"
  "keeps s0 s \<Longrightarrow> keeps s0 (s\<lparr>storage := ds\<rparr>)" "keeps s0 s \<Longrightarrow> keeps s0 (s\<lparr>disks := dk\<rparr>)"
  "keeps s0 s \<Longrightarrow> keeps s0 (s\<lparr>inflight := q\<rparr>)" "keeps s0 s \<Longrightarrow> keeps s0 (s\<lparr>notify := w\<rparr>)"
  by (simp_all add: keeps_def)

lemma keeps_lock [simp]: "keeps s0 s \<Longrightarrow> keeps s0 (up n s)" "keeps s0 s \<Longrightarrow> keeps s0 (down n s)"
  by (simp_all add: up_def down_def)

lemma keeps_release [simp]: "keeps s0 s \<Longrightarrow> keeps s0 (chunk_diff_buffer_release P n s)"
  by (auto simp: chunk_diff_buffer_release_def split: option.split)

abbreviation carries :: "cow \<Rightarrow> cow \<Rightarrow> bool" where
  "carries s s' \<equiv> \<forall>s0. keeps s0 s \<longrightarrow> keeps s0 s'"

lemma keeps_corrupted: "diff_area_set_corrupted ans e s = Ok s' \<Longrightarrow> carries s s'"
  by (auto simp: diff_area_set_corrupted_def diff_area_event_corrupted_def split: if_splits dest!: bind_outcome_eq_OkD)

lemma keeps_failed: "chunk_store_failed P ans n e s = Ok s' \<Longrightarrow> carries s s'"
  by (auto simp: chunk_store_failed_def Let_def split: option.splits dest!: keeps_corrupted)

lemma keeps_start_io: "chunk_start_io ans n w (st_bit k) r nowait s = Ok (ret, s') \<Longrightarrow> carries s s'"
  by (auto simp: chunk_start_io_def Let_def split: option.splits if_splits dest!: bind_outcome_eq_OkD)

lemma keeps_store: "chunk_async_store_diff ans n nowait s = Ok (ret, s') \<Longrightarrow> carries s s'"
  by (auto simp: chunk_async_store_diff_def split: if_splits dest!: keeps_start_io)

lemma keeps_load: "chunk_async_load_orig ans n nowait s = Ok (ret, s') \<Longrightarrow> carries s s'"
  by (auto simp: chunk_async_load_orig_def dest!: keeps_start_io)

lemma keeps_schedule_storing: "chunk_schedule_storing P ans n nowait s = Ok (ret, s') \<Longrightarrow> carries s s'"
  by (auto simp: chunk_schedule_storing_def Let_def split: if_splits option.splits sum.splits
      dest!: bind_outcome_eq_OkD dest!: keeps_store)

lemma keeps_schedule_caching: "chunk_schedule_caching P ans n s = Ok s' \<Longrightarrow> carries s s'"
  by (auto simp: chunk_schedule_caching_def Let_def split: if_splits dest!: keeps_failed)

lemmas keeps_ops = keeps_failed keeps_store keeps_load keeps_schedule_storing keeps_schedule_caching

lemma keeps_notify_load: "chunk_notify_load P ans n s = Ok s' \<Longrightarrow> carries s s'"
  by (auto simp: chunk_notify_load_def Let_def pending_dec_def split: if_splits option.splits
      dest!: bind_outcome_eq_OkD dest!: keeps_ops)

lemma keeps_notify_store: "chunk_notify_store P ans n s = Ok s' \<Longrightarrow> carries s s'"
  by (auto simp: chunk_notify_store_def Let_def pending_dec_def split: if_splits option.splits
      dest!: bind_outcome_eq_OkD dest!: keeps_ops)

lemma keeps_take: "diff_buffer_take (area s) cs nowait kz alloc = (res, a) \<Longrightarrow> carries s (s\<lparr>area := a\<rparr>)"
  by (simp add: keeps_def diff_buffer_take_area)

lemma keeps_uncache [simp]: "keeps s0 s \<Longrightarrow> keeps s0 (diff_area_take_chunk_from_cache n s)"
  by (simp add: diff_area_take_chunk_from_cache_def Let_def)

lemma keeps_copy: "copy_locked_chunk P ans n nowait s = Ok (ret, s') \<Longrightarrow> carries s s'"
  by (auto simp: copy_locked_chunk_def Let_def split: if_splits prod.splits sum.splits
      dest!: bind_outcome_eq_OkD dest!: keeps_ops keeps_take)

lemma keeps_bio_end: "cow_bio_end n bio st s = Ok s' \<Longrightarrow> carries s s'"
  by (auto simp: cow_bio_end_def split: option.splits prod.splits dest!: bind_outcome_eq_OkD)

lemma keeps_get_from_cache:
  "diff_area_get_chunk_from_cache_and_write_lock P s = Some (n, s1) \<Longrightarrow> carries s s1"
  by (auto simp: diff_area_get_chunk_from_cache_and_write_lock_def get_chunk_from_read_cache_def
      get_chunk_from_write_cache_def split: if_splits option.splits)

lemma keeps_cache_release: "cache_release_chunk P ans n s = Ok s' \<Longrightarrow> carries s s'"
  by (auto simp: cache_release_chunk_def split: if_splits dest!: bind_outcome_eq_OkD dest!: keeps_ops)

lemma keeps_sync_read: "chunk_sync_read ans n r s = Ok (ret, s') \<Longrightarrow> carries s s'"
  by (auto simp: chunk_sync_read_def split: option.splits if_splits dest!: bind_outcome_eq_OkD)

lemma keeps_load_chunk: "diff_area_load_chunk_from_storage ans n s = Ok (ret, s') \<Longrightarrow> carries s s'"
  by (auto simp: diff_area_load_chunk_from_storage_def chunk_load_diff_def chunk_load_orig_def Let_def
      split: prod.splits sum.splits if_splits dest!: keeps_sync_read keeps_take)

lemma keeps_get_locked: "get_locked_chunk ans n s = Ok (ret, s') \<Longrightarrow> carries s s'"
  by (auto simp: get_locked_chunk_def split: if_splits dest!: bind_outcome_eq_OkD dest!: keeps_load_chunk)

lemma keeps_put: "diff_area_image_put_chunk P ans n w s = Ok s' \<Longrightarrow> carries s s'"
  by (auto simp: diff_area_image_put_chunk_def split: if_splits dest!: keeps_schedule_caching)

lemma keeps_step: "cow_step P rw x y \<Longrightarrow> keeps (fst x) (fst y)"
  by (induction rule: cow_step.induct)
     (auto dest!: keeps_copy keeps_bio_end keeps_notify_load keeps_notify_store
        keeps_cache_release keeps_get_from_cache keeps_get_locked keeps_put)

lemma keeps_steps: "(cow_step P rw)\<^sup>*\<^sup>* x y \<Longrightarrow> keeps (fst x) (fst y)"
  by (induction rule: rtranclp_induct) (auto intro: keeps_step keeps_trans)

lemma keeps_preserved: "keeps s s' \<Longrightarrow> n < nchunks s \<Longrightarrow> preserved s n \<Longrightarrow> preserved s' n"
  unfolding keeps_def preserved_def kept_chunk_def by blast

section \<open>Requests of the image stay off the device\<close>

text \<open>No request of the image marks the snapshot as corrupted, starts a bio that outlives it, or gives a
  chunk a region of the storage.\<close>

definition quiet :: "cow \<Rightarrow> bool \<times> (nat \<times> bio) list \<times> (nat \<times> notify_cb) list" where
  "quiet s = (corrupt_flag (area s), inflight s, notify s)"

definition regions_of :: "cow \<Rightarrow> diff_region set" where
  "regions_of s = {r. \<exists>c\<in>set (chunk_map (area s)). ck_region c = Some r}"

definition silent :: "cow \<Rightarrow> cow \<Rightarrow> bool" where
  "silent s s' \<longleftrightarrow> quiet s' = quiet s \<and> regions_of s' \<subseteq> regions_of s"

lemma silent_refl [simp]: "silent s s"
  by (simp add: silent_def)

lemma silent_trans: "silent s s' \<Longrightarrow> silent s' s'' \<Longrightarrow> silent s s''"
  by (auto simp: silent_def)

lemma silent_upd_chunk [simp]:
  assumes "silent s0 s" "\<And>c. set_option (ck_region (f c)) \<subseteq> set_option (ck_region c)"
  shows "silent s0 (upd_chunk n f s)"
proof (cases "n < nchunks s")
  case True
  have "regions_of (upd_chunk n f s) \<subseteq> regions_of s"
  proof
    fix r
    assume "r \<in> regions_of (upd_chunk n f s)"
    then obtain c where c: "c \<in> set ((chunk_map (area s))[n := f (chunk_of s n)])" "ck_region c = Some r"
      by (auto simp: regions_of_def upd_chunk_def)
    with set_update_subset_insert have "c = f (chunk_of s n) \<or> c \<in> set (chunk_map (area s))" by fast
    then show "r \<in> regions_of s"
    proof
      assume "c = f (chunk_of s n)"
      with c(2) assms(2) [of "chunk_of s n"] have "ck_region (chunk_of s n) = Some r" by (auto simp: elem_set)
      with nth_mem [OF True] show ?thesis by (auto simp: regions_of_def)
    qed (use c(2) in \<open>auto simp: regions_of_def\<close>)
  qed
  with assms(1) show ?thesis by (auto simp: silent_def quiet_def)
next
  case False
  with assms(1) show ?thesis by (simp add: silent_def quiet_def upd_chunk_def regions_of_def list_update_beyond)
qed

lemma silent_area [simp]:
  "silent s0 s \<Longrightarrow> chunk_map (f (area s)) = chunk_map (area s) \<Longrightarrow> corrupt_flag (f (area s)) = corrupt_flag (area s) \<Longrightarrow>
     silent s0 (upd_area f s)"
  "silent s0 s \<Longrightarrow> silent s0 (s\<lparr>disks := dk\<rparr>)"
  by (simp_all add: silent_def quiet_def regions_of_def)

lemma silent_lock [simp]: "silent s0 s \<Longrightarrow> silent s0 (up n s)" "silent s0 s \<Longrightarrow> silent s0 (down n s)"
  by (simp_all add: up_def down_def)

lemma silent_release [simp]: "silent s0 s \<Longrightarrow> silent s0 (chunk_diff_buffer_release P n s)"
  by (auto simp: chunk_diff_buffer_release_def split: option.split)

abbreviation stays_silent :: "cow \<Rightarrow> cow \<Rightarrow> bool" where
  "stays_silent s s' \<equiv> \<forall>s0. silent s0 s \<longrightarrow> silent s0 s'"

lemma silent_caching: "chunk_schedule_caching P ans n s = Ok s' \<Longrightarrow> stays_silent s s'"
  by (auto simp: chunk_schedule_caching_def chunk_store_failed_def Let_def split: if_splits)

lemma silent_put: "diff_area_image_put_chunk P ans n w s = Ok s' \<Longrightarrow> stays_silent s s'"
  by (auto simp: diff_area_image_put_chunk_def split: if_splits dest!: silent_caching)

lemma silent_take: "diff_buffer_take (area s) cs nowait kz alloc = (res, a) \<Longrightarrow> stays_silent s (s\<lparr>area := a\<rparr>)"
  by (simp add: silent_def quiet_def regions_of_def diff_buffer_take_area)

lemma silent_uncache [simp]: "silent s0 s \<Longrightarrow> silent s0 (diff_area_take_chunk_from_cache n s)"
  by (simp add: diff_area_take_chunk_from_cache_def Let_def)

lemma silent_sync_read: "chunk_sync_read ans n r s = Ok (ret, s') \<Longrightarrow> stays_silent s s'"
  by (auto simp: chunk_sync_read_def split: option.splits if_splits dest!: bind_outcome_eq_OkD)

lemma silent_load: "diff_area_load_chunk_from_storage ans n s = Ok (ret, s') \<Longrightarrow> stays_silent s s'"
  by (auto simp: diff_area_load_chunk_from_storage_def chunk_load_diff_def chunk_load_orig_def Let_def
      split: prod.splits sum.splits if_splits dest!: silent_sync_read silent_take)

lemma silent_get_locked: "get_locked_chunk ans n s = Ok (ret, s') \<Longrightarrow> stays_silent s s'"
  by (auto simp: get_locked_chunk_def split: if_splits dest!: bind_outcome_eq_OkD silent_load)

lemma silent_context_get:
  assumes "diff_area_image_context_get_chunk P ans killed ctx sector s = Ok (res, ctx', s')"
  shows "stays_silent s s'"
  using assms
  by (auto simp: diff_area_image_context_get_chunk_def Let_def take_lock_def split: if_splits option.splits
      dest!: bind_outcome_eq_OkD silent_put silent_get_locked)

lemma silent_image_io:
  assumes "image_io_loop P ans killed fuel left ii ctx s = Ok (res, ctx', s')" "silent s0 s"
  shows "silent s0 s'"
  using assms
proof (induction fuel arbitrary: left ii ctx s)
  case 0
  then show ?case by (simp add: image_io_loop.simps [of _ _ _ 0] split: if_splits)
next
  case (Suc fuel)
  show ?case
  proof (cases "left = 0")
    case True
    with Suc.prems show ?thesis by (simp add: image_io_loop.simps [of _ _ _ "Suc fuel"])
  next
    case False
    let ?n = "chunk_number (area s) (ii_pos ii)"
    from Suc.prems(1) False obtain r ctx1 s1 where g:
      "diff_area_image_context_get_chunk P (ans ?n) (killed ?n) ctx (ii_pos ii) s = Ok (r, ctx1, s1)"
      by (auto simp: image_io_loop.simps [of _ _ _ "Suc fuel"] dest!: bind_outcome_eq_OkD)
    have s1: "silent s0 s1" by (rule silent_context_get [OF g, rule_format, OF Suc.prems(2)])
    have "silent s0 (upd_chunk n (\<lambda>c. c\<lparr>ck_buffer := b\<rparr>) s1)" for n b using s1 by simp
    then have "silent s0 s'" if "image_io_loop P ans killed fuel l i c (upd_chunk n (\<lambda>c. c\<lparr>ck_buffer := b\<rparr>) s1) = Ok (res, ctx', s')" for l i c n b
      using that by (rule Suc.IH [rotated])
    with Suc.prems(1) False g s1 show ?thesis
      by (auto simp: image_io_loop.simps [of _ _ _ "Suc fuel"] Let_def split: lock_result.splits sum.splits option.splits if_splits
          dest!: bind_outcome_eq_OkD)
  qed
qed

lemma silent_ctx_done: "diff_area_image_ctx_done P ans ctx s = Ok s' \<Longrightarrow> stays_silent s s'"
  by (auto simp: diff_area_image_ctx_done_def split: option.splits dest!: silent_put)

text \<open>With nothing in flight, the chunks are free.\<close>

lemma silent_readable:
  assumes inv: "cow_inv img ctx s" and ctx: "ctx_chunk ctx = None" and q: "quiet s = (False, [], [])" "regions_of s = {}"
    and n: "n < nchunks s"
  shows "readable s n"
proof -
  have c: "control_ok ctx s n" by (rule cow_invD(2) [OF inv n])
  have e: "bios_of s n = []" "notes_of s n = []" "\<not> corrupt_flag (area s)" using q(1) by (simp_all add: quiet_def bios_of_def notes_of_def)
  have "ck_io (chunk_of s n) = None"
    using c e by (cases "ck_io (chunk_of s n)") (auto simp: control_ok_def Let_def io_ok_def split: if_splits)
  moreover have "ck_region (chunk_of s n) = None"
    using q(2) nth_mem [OF n] by (cases "ck_region (chunk_of s n)") (auto simp: regions_of_def)
  ultimately show ?thesis using c ctx e(3) n by (auto simp: readable_def control_ok_def Let_def)
qed

end
