(* ===== verification/Cow_Properties.thy ===== *)
theory Cow_Properties
  imports Cow_Requests
begin

text \<open>
  The properties of copy-on-write, for every interleaving of the steps of \<open>Cow_System\<close> that starts from a
  new difference area: what the snapshot image is, what a read of it returns, when a write to the
  original device may pass, that locked chunks get released, and that the cleaner of the caches ends.
\<close>

section \<open>A new area\<close>

text \<open>An area that \<^verbatim>\<open>diff_area_new\<close> has created with the default parameters, its storage on other devices;
  there may be more references to it since then.
  Chunks of 2 ^ 28 bytes and more, for devices of 2 ^ 40 sectors, would have more pages than the code
  can count.\<close>

definition area_started :: "bdev_info \<Rightarrow> diff_storage \<Rightarrow> diff_area \<Rightarrow> bool" where
  "area_started info ds a \<longleftrightarrow>
     0 < unat (bi_nr_sectors info) \<and> unat (bi_nr_sectors info) < 2 ^ 55 \<and> chunk_shift a < 28 \<and>
     ds_wf ds \<and> (\<forall>x. (bi_bdev info, x) \<notin> ds_avail ds) \<and>
     (\<exists>kz alloc xa na. diff_area_new area_default_params (Inr info) kz alloc xa ds = Ok na \<and> na_result na = Inr (a\<lparr>da_kref := 1\<rparr>))"

lemma new_area_kref:
  assumes "diff_area_new p opened kz alloc xa ds = Ok na" "na_result na = Inr a"
  shows "a\<lparr>da_kref := 1\<rparr> = a"
  using assms by (auto simp: diff_area_new_def split: sum.splits if_splits prod.splits option.splits dest!: bind_outcome_eq_OkD)

definition cow_start :: "diff_area \<Rightarrow> diff_storage \<Rightarrow> (bdev \<Rightarrow> nat \<Rightarrow> u8) \<Rightarrow> cow" where
  "cow_start a ds dk = \<lparr>area = a, storage = ds, disks = dk, inflight = [], notify = []\<rparr>"

definition start_sys :: "bdev_info \<Rightarrow> diff_storage \<Rightarrow> (bdev \<Rightarrow> nat \<Rightarrow> u8) \<Rightarrow> diff_area \<Rightarrow> sys" where
  "start_sys info ds dk a = (cow_start a ds dk, dk (bi_bdev info), diff_area_image_ctx_init False)"

lemma area_startedD:
  assumes "area_started info ds a"
  obtains t r where "18 \<le> t" "t < 28" "0 < unat (bi_nr_sectors info)" "unat (bi_nr_sectors info) < 2 ^ 55"
    "ds_wf ds" "\<And>x. (bi_bdev info, x) \<notin> ds_avail ds"
    "a = diff_area_zero\<lparr>orig_bdev := bi_bdev info, orig_dev_id := bi_dev_id info, chunk_shift := t,
             chunk_count := ceil_div (unat (bi_nr_sectors info)) (2 ^ (t - SECTOR_SHIFT)), da_kref := r,
             chunk_map := area_chunks (unat (bi_nr_sectors info)) (2 ^ (t - SECTOR_SHIFT))\<rparr>"
proof -
  obtain kz alloc xa na where n: "0 < unat (bi_nr_sectors info)" "unat (bi_nr_sectors info) < 2 ^ 55" "chunk_shift a < 28"
    "ds_wf ds" "\<And>x. (bi_bdev info, x) \<notin> ds_avail ds"
    "diff_area_new area_default_params (Inr info) kz alloc xa ds = Ok na" "na_result na = Inr (a\<lparr>da_kref := 1\<rparr>)"
    using assms unfolding area_started_def by blast
  show thesis
  proof (cases rule: diff_area_new_default [OF n(1,2), of kz alloc xa ds])
    case (1 e opened)
    with n(6,7) show ?thesis by auto
  next
    case (2 t a')
    with n(6,7) have e: "a\<lparr>da_kref := 1\<rparr> = a'" by auto
    have "chunk_shift a = chunk_shift (a\<lparr>da_kref := 1\<rparr>)" by simp
    also have "\<dots> = t" unfolding e by (simp add: 2(5))
    finally have lt: "t < 28" using n(3) by simp
    have "a = (a\<lparr>da_kref := 1\<rparr>)\<lparr>da_kref := da_kref a\<rparr>" by simp
    then have "a = a'\<lparr>da_kref := da_kref a\<rparr>" unfolding e .
    also have "\<dots> = diff_area_zero\<lparr>orig_bdev := bi_bdev info, orig_dev_id := bi_dev_id info, chunk_shift := t,
             chunk_count := ceil_div (unat (bi_nr_sectors info)) (2 ^ (t - SECTOR_SHIFT)), da_kref := da_kref a,
             chunk_map := area_chunks (unat (bi_nr_sectors info)) (2 ^ (t - SECTOR_SHIFT))\<rparr>"
      by (simp add: 2(5))
    finally show ?thesis by (rule that [OF 2(1) lt n(1,2,4,5)])
  qed
qed

lemma start_inv:
  assumes st: "area_started info ds a"
  shows "cow_inv (dk (bi_bdev info)) (diff_area_image_ctx_init w) (cow_start a ds dk)"
proof (rule area_startedD [OF st], goal_cases)
  case (1 t r)
  let ?cap = "unat (bi_nr_sectors info)" and ?cs = "2 ^ (t - SECTOR_SHIFT) :: nat"
  have cs: "diff_area_chunk_sectors a = ?cs" by (simp add: 1(7) diff_area_chunk_sectors_def)
  have N: "0 < ceil_div ?cap ?cs" using last_sectors(4) [OF 1(3), of ?cs] by simp
  have len: "length (chunk_map a) = ceil_div ?cap ?cs" using area_chunks_length [OF N] by (simp add: 1(7))
  have flds: "read_cache_queue a = []" "write_cache_queue a = []" "read_cache_count a = 0" "write_cache_count a = 0"
    "chunk_shift a = t" "orig_bdev a = bi_bdev info" "free_diff_buffers a = []" "free_diff_buffers_count a = 0"
    "corrupt_flag a = False"
    by (simp_all add: 1(7) diff_area_zero_def)
  have ch: "chunk_map a ! n = fresh_chunk (if n = ceil_div ?cap ?cs - 1 then last_sectors ?cap ?cs else ?cs) n"
    if "n < length (chunk_map a)" for n
    using area_chunks_nth that len by (simp add: 1(7))
  have pow: "?cs \<le> 2 ^ 18" using 1(2) by (intro power_increasing) simp_all
  have "ceil_div ?cap ?cs * ?cs < 2 ^ 64"
  proof -
    have "ceil_div ?cap ?cs * ?cs = (ceil_div ?cap ?cs - 1) * ?cs + ?cs" using N by (cases "ceil_div ?cap ?cs") simp_all
    moreover have "(ceil_div ?cap ?cs - 1) * ?cs \<le> ?cap" using last_sectors(1) [OF 1(3), of ?cs] by simp
    ultimately have "ceil_div ?cap ?cs * ?cs < 2 ^ 55 + 2 ^ 18" using pow 1(4) by linarith
    also have "\<dots> < (2::nat) ^ 64" by simp
    finally show ?thesis .
  qed
  then have aok: "area_ok a" unfolding area_ok_def using 1(1,2) by (simp add: flds cs len pool_ok_def)
  have ok: "control_ok (diff_area_image_ctx_init w) (cow_start a ds dk) n \<and>
      data_ok (dk (bi_bdev info)) (diff_area_image_ctx_init w) (cow_start a ds dk) n" if "n < length (chunk_map a)" for n
    using ch [OF that] last_sectors(2,3) [OF 1(3), of ?cs]
    by (auto simp: control_ok_def data_ok_def Let_def cow_start_def fresh_chunk_def cs flds bios_of_def notes_of_def
        diff_area_image_ctx_init_def cached_def)
  have "regions_ok (cow_start a ds dk)"
    using 1(5,6) ch by (simp add: regions_ok_def cow_start_def flds fresh_chunk_def)
  moreover have "queues_ok (cow_start a ds dk)" by (simp add: queues_ok_def cow_start_def)
  moreover have "area (cow_start a ds dk) = a" by (simp add: cow_start_def)
  ultimately show ?thesis using aok ok by (simp add: cow_inv_def diff_area_image_ctx_init_def)
qed

text \<open>Everything reachable from a new area.\<close>

lemma reachable_inv:
  assumes "area_started info ds a" "(cow_step P rw)\<^sup>*\<^sup>* (start_sys info ds dk a) (s, img, ctx)"
  shows "cow_inv img ctx s" "step_keeps (cow_start a ds dk) s" "sizes s = map ck_sector_count (chunk_map a)"
    "keeps (cow_start a ds dk) s"
proof -
  from cow_steps_inv [OF assms(2)] start_inv [OF assms(1)] show "cow_inv img ctx s" "step_keeps (cow_start a ds dk) s"
    by (simp_all add: start_sys_def)
  from sizes_steps [OF assms(2)] show "sizes s = map ck_sector_count (chunk_map a)"
    by (simp add: start_sys_def sizes_def cow_start_def)
  from keeps_steps [OF assms(2)] show "keeps (cow_start a ds dk) s" by (simp add: start_sys_def)
qed

lemma image_valid_device:
  assumes st: "area_started info ds a"
    and k: "step_keeps (cow_start a ds dk) s" "sizes s = map ck_sector_count (chunk_map a)"
    and x: "x < unat (bi_nr_sectors info) * SECTOR_SIZE"
  shows "image_valid s x"
proof (rule area_startedD [OF st], goal_cases)
  case (1 t r)
  let ?cap = "unat (bi_nr_sectors info)" and ?cs = "2 ^ (t - SECTOR_SHIFT) :: nat"
  have cs: "diff_area_chunk_sectors (area s) = ?cs" "nchunks s = length (chunk_map a)"
    using k(1) by (simp_all add: 1(7) diff_area_chunk_sectors_def step_keeps_def cow_start_def)
  have map: "chunk_map a = area_chunks ?cap ?cs" by (simp add: 1(7))
  have q: "x div (?cs * SECTOR_SIZE) = x div SECTOR_SIZE div ?cs"
    by (metis div_mult2_eq mult.commute)
  have lt: "x div SECTOR_SIZE < ?cap" using x by (simp add: less_mult_imp_div_less)
  note sc = sector_in_chunk [of ?cs, OF _ lt]
  have N: "0 < ceil_div ?cap ?cs" using last_sectors(4) [OF 1(3), of ?cs] by simp
  define n where "n = x div SECTOR_SIZE div ?cs"
  have n: "n < length (chunk_map a)" "x div SECTOR_SIZE < n * ?cs + ck_sector_count (area_chunks ?cap ?cs ! n)"
    using sc area_chunks_length [OF N] by (simp_all add: n_def map)
  have xm: "x mod (?cs * SECTOR_SIZE) = SECTOR_SIZE * (x div SECTOR_SIZE mod ?cs) + x mod SECTOR_SIZE"
    by (metis mod_mult2_eq mult.commute)
  have r: "x div SECTOR_SIZE mod ?cs < ck_sector_count (area_chunks ?cap ?cs ! n)"
  proof -
    have "x div SECTOR_SIZE = n * ?cs + x div SECTOR_SIZE mod ?cs" by (simp only: n_def div_mult_mod_eq)
    with n(2) show ?thesis by linarith
  qed
  have "SECTOR_SIZE * (x div SECTOR_SIZE mod ?cs + 1) \<le> SECTOR_SIZE * ck_sector_count (area_chunks ?cap ?cs ! n)"
    by (rule mult_le_mono2) (use r in linarith)
  moreover have "x mod SECTOR_SIZE < SECTOR_SIZE" by simp
  ultimately have "x mod (?cs * SECTOR_SIZE) < ck_sector_count (area_chunks ?cap ?cs ! n) * SECTOR_SIZE"
    unfolding xm by (simp only: distrib_left mult.commute mult_1)
  moreover have "sizes s ! n = ck_sector_count (area_chunks ?cap ?cs ! n)" using n(1) k(2) by (simp add: map)
  ultimately show ?thesis
    unfolding image_valid_def cs q n_def [symmetric] using n(1) by simp
qed

section \<open>The snapshot image\<close>

text \<open>The image that the area represents: a byte comes from the buffer of its chunk when that is ready, from
  the region of the storage when the chunk is stored, and from the original device otherwise.\<close>

definition image_of :: "cow \<Rightarrow> nat \<Rightarrow> u8" where
  "image_of s x =
     (let n = x div chunk_bytes (area s); i = x mod chunk_bytes (area s); c = chunk_of s n
      in case (buffer_ready c, ck_buffer c) of
           (True, Some b) \<Rightarrow> buf_byte b i
         | _ \<Rightarrow> (case (store_ready c, ck_region c) of
                   (True, Some r) \<Rightarrow> disks s (reg_bdev r) (reg_base r + i)
                 | _ \<Rightarrow> disks s (orig_bdev (area s)) x))"

text \<open>What the image may do: nothing, or change by a write to it.\<close>

inductive image_spec :: "bool \<Rightarrow> (nat \<Rightarrow> u8) \<Rightarrow> (nat \<Rightarrow> u8) \<Rightarrow> bool" for rw where
  written: "rw \<Longrightarrow> image_spec rw img (image_write pos bytes img)"

lemma image_of_inv:
  assumes inv: "cow_inv img ctx s" and nc: "\<not> corrupt_flag (area s)" and v: "image_valid s x"
  shows "image_of s x = img x"
proof -
  let ?n = "x div chunk_bytes (area s)" and ?i = "x mod chunk_bytes (area s)"
  let ?c = "chunk_of s ?n"
  have n: "?n < nchunks s" and len: "?i < chunk_len ?c" using v by (auto simp: image_valid_def sizes_def)
  have x: "chunk_base (area s) ?n + ?i = x" unfolding chunk_base_def mult.assoc by (rule div_mult_mod_eq)
  have co: "control_ok ctx s ?n" and d: "data_ok img ctx s ?n" using cow_invD [OF inv n] nc by blast+
  have nf: "\<not> failed ?c" using co nc by (auto simp: control_ok_def Let_def)
  have ch: "buffer_ready ?c \<longrightarrow> ck_buffer ?c \<noteq> None" "dirty ?c \<longrightarrow> buffer_ready ?c" "store_ready ?c \<longrightarrow> ck_region ?c \<noteq> None"
    "ctx_chunk ctx = Some ?n \<longrightarrow> buffer_ready ?c"
    using co nf by (auto simp: control_ok_def Let_def split: option.splits)
  have dd: "\<And>b. buffer_ready ?c \<Longrightarrow> ck_buffer ?c = Some b \<Longrightarrow> buf_byte b ?i = img x"
    "\<And>r. \<not> dirty ?c \<Longrightarrow> ctx_chunk ctx \<noteq> Some ?n \<Longrightarrow> store_ready ?c \<Longrightarrow> ck_region ?c = Some r \<Longrightarrow>
       disks s (reg_bdev r) (reg_base r + ?i) = img x"
    "\<not> dirty ?c \<Longrightarrow> ctx_chunk ctx \<noteq> Some ?n \<Longrightarrow> \<not> store_ready ?c \<Longrightarrow> disks s (orig_bdev (area s)) x = img x"
    using d [unfolded data_ok_def Let_def, rule_format, OF len, unfolded x] by auto
  show ?thesis
  proof (cases "buffer_ready ?c")
    case True
    then obtain b where "ck_buffer ?c = Some b" using ch(1) by blast
    with True dd(1) show ?thesis by (simp add: image_of_def Let_def)
  next
    case False
    then have no: "\<not> dirty ?c" "ctx_chunk ctx \<noteq> Some ?n" using ch by blast+
    show ?thesis
    proof (cases "store_ready ?c")
      case True
      then obtain r where "ck_region ?c = Some r" using ch(3) by blast
      with False True dd(2) [OF no] show ?thesis by (simp add: image_of_def Let_def)
    next
      case st: False
      with False dd(3) [OF no] show ?thesis by (simp add: image_of_def Let_def)
    qed
  qed
qed

lemma image_steps_spec:
  assumes "(cow_step P rw)\<^sup>*\<^sup>* x y"
  shows "(image_spec rw)\<^sup>*\<^sup>* (fst (snd x)) (fst (snd y))"
  using assms
proof (induction rule: rtranclp_induct)
  case (step y z)
  from step(2) have "fst (snd z) = fst (snd y) \<or> image_spec rw (fst (snd y)) (fst (snd z))"
    by (cases rule: cow_step.cases) (auto intro: image_spec.written)
  with step.IH show ?case by (auto intro: rtranclp.rtrancl_into_rtrancl)
qed simp

lemma image_spec_read_only: "(image_spec False)\<^sup>*\<^sup>* img img' \<Longrightarrow> img' = img"
  by (induction rule: rtranclp_induct) (auto elim: image_spec.cases)


section \<open>Reading the image\<close>

lemma ctx_init_inv:
  assumes "cow_inv img ctx s" "ctx_chunk ctx = None"
  shows "cow_inv img (diff_area_image_ctx_init w) s"
  using cow_step_inv [OF cow_step.image_begin [OF assms(2), of _ _ s img w]] assms(1) by simp

lemma ctx_done_inv:
  assumes inv: "cow_inv img ctx s"
  shows "\<exists>s'. diff_area_image_ctx_done P ans ctx s = Ok s' \<and> cow_inv img (ctx\<lparr>ctx_chunk := None\<rparr>) s' \<and> step_keeps s s' \<and>
    sizes s' = sizes s"
proof (cases "ctx_chunk ctx")
  case None
  then have e: "ctx\<lparr>ctx_chunk := None\<rparr> = ctx" by (cases ctx) simp
  show ?thesis unfolding e using None inv by (simp add: diff_area_image_ctx_done_def)
next
  case (Some n)
  from put_chunk_inv [OF inv Some, of P ans] obtain s' where
    "diff_area_image_put_chunk P ans n (ctx_is_write ctx) s = Ok s'" "cow_inv img (ctx\<lparr>ctx_chunk := None\<rparr>) s'" "frame n s s'"
    "claimed s n \<longrightarrow> claimed s' n" by (elim exE conjE) (rule that)
  with Some show ?thesis by (auto simp: diff_area_image_ctx_done_def dest: sizes_put intro: step_keeps_frame)
qed


section \<open>Writes to the original device\<close>

text \<open>A thread that works through a range of chunks, one turn per chunk, while others run.  A turn of
  \<^verbatim>\<open>diff_area_copy\<close> or \<^verbatim>\<open>diff_area_wait\<close> is its loop over one chunk, ended with success.\<close>

inductive interleaved :: "(nat \<Rightarrow> cow \<Rightarrow> cow \<Rightarrow> bool) \<Rightarrow> cow_params \<Rightarrow> bool \<Rightarrow> nat \<Rightarrow> nat \<Rightarrow> sys \<Rightarrow> sys \<Rightarrow> bool"
  for turn P rw where
  finished: "interleaved turn P rw n 0 x x"
| others: "cow_step P rw x y \<Longrightarrow> interleaved turn P rw n k y z \<Longrightarrow> interleaved turn P rw n k x z"
| turn: "turn n s s' \<Longrightarrow> interleaved turn P rw (Suc n) k (s', img, ctx) z \<Longrightarrow> interleaved turn P rw n (Suc k) (s, img, ctx) z"

definition copy_turn :: "cow_params \<Rightarrow> bool \<Rightarrow> nat \<Rightarrow> cow \<Rightarrow> cow \<Rightarrow> bool" where
  "copy_turn P nowait n s s' \<longleftrightarrow> (\<exists>ans killed. copy_loop P ans killed nowait n 1 s = Ok (Returned None, s'))"

definition wait_turn :: "bool \<Rightarrow> nat \<Rightarrow> cow \<Rightarrow> cow \<Rightarrow> bool" where
  "wait_turn nowait n s s' \<longleftrightarrow> (\<exists>ans killed. wait_loop ans killed nowait n 1 s = Ok (Returned None, s'))"

text \<open>A copy without interruption is such a run.\<close>

lemma copy_loop_interleaved:
  assumes "copy_loop P ans killed nowait n k s = Ok (Returned None, s')"
  shows "interleaved (copy_turn P nowait) P rw n k (s, img, ctx) (s', img, ctx)"
  using assms
proof (induction k arbitrary: n s)
  case 0
  then show ?case by (auto intro: interleaved.finished)
next
  case (Suc k)
  have n: "\<not> nchunks s \<le> n" "take_lock nowait (killed n) n s = (Returned None, down n s)"
    using Suc.prems by (auto simp: take_lock_def split: if_splits dest!: bind_outcome_eq_OkD)
  with Suc.prems obtain s2 where c: "copy_locked_chunk P (ans n) n nowait (down n s) = Ok (None, s2)"
    "copy_loop P ans killed nowait (Suc n) k s2 = Ok (Returned None, s')"
    by (auto split: if_splits dest!: bind_outcome_eq_OkD)
  have "copy_turn P nowait n s s2" unfolding copy_turn_def
    by (intro exI [of _ ans] exI [of _ killed]) (simp add: c(1) n not_le [symmetric])
  then show ?case using Suc.IH [OF c(2)] by (rule interleaved.turn)
qed

lemma copy_turn_inv:
  assumes inv: "cow_inv img ctx s" and t: "copy_turn P nowait n s s'"
  shows "cow_inv img ctx s' \<and> step_keeps s s' \<and> n < nchunks s \<and> claimed s' n"
proof -
  from t obtain ans killed where run: "copy_loop P ans killed nowait n 1 s = Ok (Returned None, s')"
    unfolding copy_turn_def by blast
  then have n: "n < nchunks s" "\<not> ck_locked (chunk_of s n)"
    by (auto simp: take_lock_def split: if_splits dest!: bind_outcome_eq_OkD)
  from copy_chunk_inv [OF inv n, of P "ans n" nowait] obtain ret s2 where
    c: "copy_locked_chunk P (ans n) n nowait (down n s) = Ok (ret, s2)" "cow_inv img ctx s2" "frame n s s2" "claimed s2 n"
    by (elim exE conjE) (rule that)
  have "s2 = s'" using run n c(1) by (auto simp: take_lock_def split: if_splits)
  with c n step_keeps_frame show ?thesis by blast
qed

text \<open>Waiting for a chunk that was copied changes nothing, and finds it preserved.\<close>

lemma wait_turn_inv:
  assumes inv: "cow_inv img ctx s" and t: "wait_turn nowait n s s'" and cl: "claimed s n"
  shows "s' = s \<and> n < nchunks s \<and> preserved s n"
proof -
  from t obtain ans killed where run: "wait_loop ans killed nowait n 1 s = Ok (Returned None, s')"
    unfolding wait_turn_def by blast
  then have n: "n < nchunks s" "\<not> ck_locked (chunk_of s n)"
    by (auto simp: take_lock_def split: if_splits dest!: bind_outcome_eq_OkD)
  note u = unlocked_facts [OF cow_invD(2) [OF inv n(1)] n(2)]
  have p: "preserved s n" using cl u(1) by (simp add: claimed_def preserved_def)
  have ch: "ck_state (chunk_of (down n s) n) = ck_state (chunk_of s n)" using n(1) by (simp add: down_def)
  have "s' = s"
    using run n p up_down [OF n] unfolding preserved_def
    by (auto simp: take_lock_def ch split: if_splits)
  with n(1) p show ?thesis by blast
qed

lemma interleaved_copy:
  assumes "interleaved (copy_turn P nowait) P rw n k x y" "cow_inv (fst (snd x)) (snd (snd x)) (fst x)"
  shows "cow_inv (fst (snd y)) (snd (snd y)) (fst y) \<and> step_keeps (fst x) (fst y) \<and>
    (\<forall>m. n \<le> m \<longrightarrow> m < n + k \<longrightarrow> m < nchunks (fst y) \<and> claimed (fst y) m)"
  using assms
proof (induction rule: interleaved.induct)
  case (finished n x)
  then show ?case by simp
next
  case (others x y n k z)
  from cow_step_inv [OF others(1) others.prems] others.IH show ?case by (blast intro: step_keeps_trans)
next
  case (turn n s s' k img ctx z)
  have t: "cow_inv img ctx s' \<and> step_keeps s s' \<and> n < nchunks s \<and> claimed s' n"
    by (rule copy_turn_inv [OF _ turn(1)]) (use turn.prems in simp)
  with turn.IH have ih: "cow_inv (fst (snd z)) (snd (snd z)) (fst z)" "step_keeps s' (fst z)"
    "\<And>m. Suc n \<le> m \<Longrightarrow> m < Suc n + k \<Longrightarrow> m < nchunks (fst z) \<and> claimed (fst z) m" by auto
  have "nchunks s' = nchunks s" using t by (simp add: step_keeps_def)
  then have "n < nchunks (fst z) \<and> claimed (fst z) n" using t ih(2) by (simp add: step_keeps_def)
  then have "m < nchunks (fst z) \<and> claimed (fst z) m" if "n \<le> m" "m < n + Suc k" for m
    using ih(3) [of m] that by (cases "m = n") simp_all
  with t ih(1,2) show ?case by (auto intro: step_keeps_trans)
qed

lemma sizes_turn:
  assumes "copy_turn P nowait n s s'"
  shows "sizes s' = sizes s"
proof -
  from assms obtain ans killed where run: "copy_loop P ans killed nowait n 1 s = Ok (Returned None, s')"
    unfolding copy_turn_def by blast
  then have "copy_locked_chunk P (ans n) n nowait (down n s) = Ok (None, s')"
    by (auto simp: take_lock_def split: if_splits dest!: bind_outcome_eq_OkD)
  from sizes_copy [OF this] show ?thesis by simp
qed

lemma interleaved_sizes: "interleaved (copy_turn P nowait) P rw n k x y \<Longrightarrow> sizes (fst y) = sizes (fst x)"
  by (induction rule: interleaved.induct) (auto dest: sizes_step sizes_turn)

lemma interleaved_wait:
  assumes "interleaved (wait_turn nowait) P rw n k x y" "cow_inv (fst (snd x)) (snd (snd x)) (fst x)"
    and "\<And>m. n \<le> m \<Longrightarrow> m < n + k \<Longrightarrow> m < nchunks (fst x) \<and> claimed (fst x) m"
  shows "(cow_step P rw)\<^sup>*\<^sup>* x y \<and> (\<forall>m. n \<le> m \<longrightarrow> m < n + k \<longrightarrow> m < nchunks (fst y) \<and> preserved (fst y) m)"
  using assms
proof (induction rule: interleaved.induct)
  case (finished n x)
  then show ?case by simp
next
  case (others x y n k z)
  note st = cow_step_inv [OF others(1) others.prems(1)]
  have "m < nchunks (fst y) \<and> claimed (fst y) m" if "n \<le> m" "m < n + k" for m
    using others.prems(2) [OF that] st by (simp add: step_keeps_def)
  with others.IH st have "(cow_step P rw)\<^sup>*\<^sup>* y z \<and> (\<forall>m. n \<le> m \<longrightarrow> m < n + k \<longrightarrow> m < nchunks (fst z) \<and> preserved (fst z) m)"
    by blast
  with others(1) show ?case by (auto intro: converse_rtranclp_into_rtranclp)
next
  case (turn n s s' k img ctx z)
  have cl: "claimed s n" using turn.prems(2) [of n] by simp
  have t: "s' = s \<and> n < nchunks s \<and> preserved s n"
    by (rule wait_turn_inv [OF _ turn(1) cl]) (use turn.prems(1) in simp)
  have "m < nchunks s \<and> claimed s m" if "Suc n \<le> m" "m < Suc n + k" for m
    using turn.prems(2) [of m] that by simp
  with turn.IH turn.prems(1) t have ih: "(cow_step P rw)\<^sup>*\<^sup>* (s, img, ctx) z"
    "\<And>m. Suc n \<le> m \<Longrightarrow> m < Suc n + k \<Longrightarrow> m < nchunks (fst z) \<and> preserved (fst z) m" by auto
  have k: "keeps s (fst z)" using keeps_steps [OF ih(1)] by simp
  have "n < nchunks (fst z) \<and> preserved (fst z) n" using keeps_preserved [OF k] t k by (simp add: keeps_def)
  then have "m < nchunks (fst z) \<and> preserved (fst z) m" if "n \<le> m" "m < n + Suc k" for m
    using ih(2) [of m] that by (cases "m = n") simp_all
  with ih(1) t show ?case by blast
qed

lemma range_covers:
  assumes "area_ok a" "sector * SECTOR_SIZE \<le> x" "x < (sector + cnt) * SECTOR_SIZE"
  shows "chunk_number a sector \<le> x div chunk_bytes a \<and> x div chunk_bytes a < chunk_number a sector + range_chunks a sector cnt"
proof -
  let ?cs = "diff_area_chunk_sectors a" and ?y = "x div SECTOR_SIZE"
  have cs: "0 < ?cs" by (rule area_ok_sectors(2) [OF assms(1)])
  have q: "x div chunk_bytes a = ?y div ?cs" by (metis div_mult2_eq mult.commute)
  have y: "sector \<le> ?y" "?y < sector + cnt"
    using assms(2,3) by (simp_all add: less_eq_div_iff_mult_less_eq less_mult_imp_div_less)
  have c: "chunk_number a sector = sector div ?cs" by (simp add: chunk_number_def diff_area_chunk_sectors_def)
  let ?first = "sector div ?cs * ?cs"
  have f: "?first \<le> sector" by simp
  have "?y div ?cs = sector div ?cs + (?y - ?first) div ?cs"
    using y(1) f cs by (metis le_add_diff_inverse order_trans div_mult_self3 add.commute less_numeral_extra(3))
  moreover have "(?y - ?first) div ?cs < ceil_div (sector + cnt - ?first) ?cs"
    by (rule div_less_ceil_div) (use y f cs in linarith)+
  ultimately show ?thesis
    unfolding q c range_chunks_def Let_def using div_le_mono [OF y(1), of ?cs] by simp
qed

lemma copied_write_leaves_image:
  assumes "area_started info ds a" "(cow_step P rw)\<^sup>*\<^sup>* (start_sys info ds dk a) (s0, img0, ctx0)"
    and "interleaved (copy_turn P nowait) P rw (chunk_number a sector) (range_chunks a sector cnt) (s0, img0, ctx0) (s1, img1, ctx1)"
    and "interleaved (wait_turn nowait) P rw (chunk_number a sector) (range_chunks a sector cnt) (s1, img1, ctx1) (s, img, ctx)"
    and "\<And>d x. dk' d x \<noteq> disks s d x \<Longrightarrow>
      d = bi_bdev info \<and> sector * SECTOR_SIZE \<le> x \<and> x < (sector + cnt) * SECTOR_SIZE"
  shows "cow_step P rw (s, img, ctx) (s\<lparr>disks := dk'\<rparr>, img, ctx) \<and>
    (\<forall>x. \<not> diff_area_is_corrupted (area s) \<longrightarrow> x < unat (bi_nr_sectors info) * SECTOR_SIZE \<longrightarrow>
       image_of (s\<lparr>disks := dk'\<rparr>) x = image_of s x)"
proof -
  note r0 = reachable_inv [OF assms(1,2)]
  have c: "cow_inv img1 ctx1 s1" "step_keeps s0 s1"
    "\<And>m. chunk_number a sector \<le> m \<Longrightarrow> m < chunk_number a sector + range_chunks a sector cnt \<Longrightarrow> m < nchunks s1 \<and> claimed s1 m"
    using interleaved_copy [OF assms(3)] r0(1) by simp_all
  have w: "(cow_step P rw)\<^sup>*\<^sup>* (s1, img1, ctx1) (s, img, ctx)"
    "\<And>m. chunk_number a sector \<le> m \<Longrightarrow> m < chunk_number a sector + range_chunks a sector cnt \<Longrightarrow> m < nchunks s \<and> preserved s m"
    using interleaved_wait [OF assms(4)] c(1,3) by simp_all
  have inv: "cow_inv img ctx s" and k: "step_keeps s1 s" using cow_steps_inv [OF w(1)] c(1) by simp_all
  have ks: "step_keeps (cow_start a ds dk) s" using r0(2) c(2) k by (meson step_keeps_trans)
  have geo: "chunk_shift (area s) = chunk_shift a" "orig_bdev (area s) = orig_bdev a"
    using ks by (simp_all add: step_keeps_def cow_start_def)
  have org: "orig_bdev a = bi_bdev info" by (rule area_startedD [OF assms(1)]) simp
  have aok: "area_ok (area s)" using inv by (simp add: cow_inv_def)
  have same: "chunk_number a sector = chunk_number (area s) sector" "range_chunks a sector cnt = range_chunks (area s) sector cnt"
    by (simp_all add: geo chunk_number_def range_chunks_def diff_area_chunk_sectors_def Let_def)
  have pres: "preserved s (x div chunk_bytes (area s))" if "sector * SECTOR_SIZE \<le> x" "x < (sector + cnt) * SECTOR_SIZE" for x
    using range_covers [OF aok that] w(2) same by simp
  have st: "cow_step P rw (s, img, ctx) (s\<lparr>disks := dk'\<rparr>, img, ctx)"
  proof (rule cow_step.orig_write)
    fix d x
    assume "dk' d x \<noteq> disks s d x"
    from assms(5) [OF this] show "d = orig_bdev (area s) \<and>
        (corrupt_flag (area s) \<or> (x div chunk_bytes (area s) < nchunks s \<longrightarrow> preserved s (x div chunk_bytes (area s))))"
      using pres geo(2) org by simp
  qed
  have "image_of (s\<lparr>disks := dk'\<rparr>) x = image_of s x"
    if nc: "\<not> diff_area_is_corrupted (area s)" and x: "x < unat (bi_nr_sectors info) * SECTOR_SIZE" for x
  proof -
    have sz: "sizes s = map ck_sector_count (chunk_map a)"
      using sizes_steps [OF w(1)] r0(3) interleaved_sizes [OF assms(3)] by simp
    have v: "image_valid s x" by (rule image_valid_device [OF assms(1) ks sz x])
    then have v': "image_valid (s\<lparr>disks := dk'\<rparr>) x" by (auto simp: image_valid_def sizes_def)
    have "cow_inv img ctx (s\<lparr>disks := dk'\<rparr>)" using cow_step_inv [OF st] inv by simp
    with image_of_inv v' nc image_of_inv [OF inv _ v] show ?thesis by (simp add: diff_area_is_corrupted_def)
  qed
  with st show ?thesis by blast
qed

text \<open>C2: a write to the original device that copy-on-write has let through leaves the image alone.  A
  thread runs \<^verbatim>\<open>diff_area_copy\<close> for the range of the write and then \<^verbatim>\<open>diff_area_wait\<close>, both end with success,
  and between any two turns of either, and after them, all other threads may run.  Then changing the
  original device within the range is a legal step of the system, and no byte of the image changes.\<close>

theorem original_write_leaves_image:
  assumes "area_started info ds a" "(cow_step P rw)\<^sup>*\<^sup>* (start_sys info ds dk a) (s0, img0, ctx0)"
    and "interleaved (copy_turn P nowait) P rw (chunk_number a sector) (range_chunks a sector cnt) (s0, img0, ctx0) (s1, img1, ctx1)"
    and "interleaved (wait_turn nowait) P rw (chunk_number a sector) (range_chunks a sector cnt) (s1, img1, ctx1) (s, img, ctx)"
    and "\<And>d x. dk' d x \<noteq> disks s d x \<Longrightarrow>
      d = bi_bdev info \<and> sector * SECTOR_SIZE \<le> x \<and> x < (sector + cnt) * SECTOR_SIZE"
  shows "cow_step P rw (s, img, ctx) (s\<lparr>disks := dk'\<rparr>, img, ctx) \<and>
    (\<forall>x. \<not> diff_area_is_corrupted (area s) \<longrightarrow> x < unat (bi_nr_sectors info) * SECTOR_SIZE \<longrightarrow>
       image_of (s\<lparr>disks := dk'\<rparr>) x = image_of s x)"
  by (rule copied_write_leaves_image [OF assms])

section \<open>Locked chunks get released\<close>

text \<open>The completions: the end of a bio, and the two notifications.\<close>

inductive completes :: "cow_params \<Rightarrow> cow \<Rightarrow> cow \<Rightarrow> bool" for P where
  bio_end: "(n, bio) \<in> set (inflight s) \<Longrightarrow> cow_bio_end n bio st s = Ok s' \<Longrightarrow> completes P s s'"
| loaded: "(n, NotifyLoad) \<in> set (notify s) \<Longrightarrow>
    chunk_notify_load P ans n (s\<lparr>notify := remove1 (n, NotifyLoad) (notify s)\<rparr>) = Ok s' \<Longrightarrow> completes P s s'"
| stored: "(n, NotifyStore) \<in> set (notify s) \<Longrightarrow>
    chunk_notify_store P ans n (s\<lparr>notify := remove1 (n, NotifyStore) (notify s)\<rparr>) = Ok s' \<Longrightarrow> completes P s s'"

lemma completes_step: "completes P s s' \<Longrightarrow> cow_step P rw (s, img, ctx) (s', img, ctx)"
  by (induction rule: completes.induct) (auto intro: cow_step.bio_end cow_step.loaded cow_step.stored)

lemma completes_inv: "completes P s s' \<Longrightarrow> cow_inv img ctx s \<Longrightarrow> cow_inv img ctx s'"
  using cow_step_inv [OF completes_step [of P s s' False img ctx]] by simp

lemma completes_steps: "(completes P)\<^sup>*\<^sup>* s s' \<Longrightarrow> (cow_step P rw)\<^sup>*\<^sup>* (s, img, ctx) (s', img, ctx)"
  by (induction rule: rtranclp_induct) (auto intro: rtranclp.rtrancl_into_rtrancl completes_step)

text \<open>No operation of the notifications makes a chunk load again.\<close>

lemma load_release:
  "n < nchunks s \<Longrightarrow> loading (chunk_of (chunk_diff_buffer_release P n s) n) = loading (chunk_of s n)"
  "n < nchunks s \<Longrightarrow> ck_io (chunk_of (chunk_diff_buffer_release P n s) n) = ck_io (chunk_of s n)"
  "nchunks (chunk_diff_buffer_release P n s) = nchunks s"
  by (simp_all add: chunk_diff_buffer_release_def split: option.split)

lemma load_corrupted: "diff_area_set_corrupted ans e s = Ok s' \<Longrightarrow> chunk_map (area s') = chunk_map (area s)"
  by (auto simp: diff_area_set_corrupted_def diff_area_event_corrupted_def split: if_splits dest!: bind_outcome_eq_OkD)

lemma load_failed:
  assumes "chunk_store_failed P ans n e s = Ok s'" "n < nchunks s"
  shows "loading (chunk_of s' n) = loading (chunk_of s n) \<and> ck_io (chunk_of s' n) = ck_io (chunk_of s n) \<and> nchunks s' = nchunks s"
  using assms
  by (auto simp: chunk_store_failed_def Let_def up_def load_release split: option.splits dest!: load_corrupted)

lemma load_start_io:
  assumes "chunk_start_io ans n w CHUNK_ST_STORING r nowait s = Ok (ret, s')" "n < nchunks s"
  shows "loading (chunk_of s' n) = loading (chunk_of s n) \<and> nchunks s' = nchunks s"
  using assms by (auto simp: chunk_start_io_def Let_def split: option.splits if_splits dest!: bind_outcome_eq_OkD)

lemma load_storing:
  assumes "chunk_schedule_storing P ans n nowait s = Ok (ret, s')" "n < nchunks s"
  shows "loading (chunk_of s' n) = loading (chunk_of s n) \<and> nchunks s' = nchunks s"
  using assms
  by (auto simp: chunk_schedule_storing_def chunk_async_store_diff_def Let_def split: if_splits option.splits sum.splits
      dest!: bind_outcome_eq_OkD load_start_io)

lemma load_caching:
  assumes "chunk_schedule_caching P ans n s = Ok s'" "n < nchunks s"
  shows "ck_io (chunk_of s' n) = ck_io (chunk_of s n) \<and> nchunks s' = nchunks s"
  using assms by (auto simp: chunk_schedule_caching_def Let_def up_def split: if_splits dest!: load_failed)

lemma notify_load_done:
  assumes "chunk_notify_load P ans n s = Ok s'" "n < nchunks s"
  shows "ck_io (chunk_of s' n) = None \<or> \<not> loading (chunk_of s' n)"
  using assms
  by (auto simp: chunk_notify_load_def Let_def pending_dec_def up_def split: if_splits option.splits
      dest!: bind_outcome_eq_OkD load_failed load_storing)

lemma notify_store_done:
  assumes "chunk_notify_store P ans n s = Ok s'" "n < nchunks s"
  shows "ck_io (chunk_of s' n) = None"
  using assms
  by (auto simp: chunk_notify_store_def Let_def pending_dec_def up_def load_release split: if_splits option.splits
      dest!: bind_outcome_eq_OkD load_failed load_caching)

text \<open>Three counters go down lexicographically: chunks being loaded, chunks with a request, and bios and
  notifications.\<close>

definition busy :: "cow \<Rightarrow> nat set" where
  "busy s = {n. n < nchunks s \<and> ck_io (chunk_of s n) \<noteq> None}"

definition busy_loading :: "cow \<Rightarrow> nat set" where
  "busy_loading s = {n. n < nchunks s \<and> ck_io (chunk_of s n) \<noteq> None \<and> loading (chunk_of s n)}"

definition work_left :: "cow \<Rightarrow> nat \<times> nat \<times> nat" where
  "work_left s = (card (busy_loading s), card (busy s), 2 * length (inflight s) + length (notify s))"

abbreviation work_order :: "((nat \<times> nat \<times> nat) \<times> (nat \<times> nat \<times> nat)) set" where
  "work_order \<equiv> less_than <*lex*> less_than <*lex*> less_than"

lemma busy_finite [simp]: "finite (busy s)" "finite (busy_loading s)"
  by (simp_all add: busy_def busy_loading_def)

lemma busy_frame:
  assumes "frame n s s'"
  shows "busy s' - {n} = busy s - {n}" "busy_loading s' - {n} = busy_loading s - {n}"
  using assms by (auto simp: frame_def busy_def busy_loading_def)

lemma card_less_Diff:
  assumes "A - {n} = B - {n}" "n \<notin> A" "n \<in> B" "finite B"
  shows "card A < card B"
proof -
  have "A = B - {n}" using assms(1,2) by blast
  then show ?thesis using assms(3,4) by (metis card_Diff1_less)
qed

lemma completes_decreases:
  assumes st: "completes P s s'" and inv: "cow_inv img ctx s"
  shows "(work_left s', work_left s) \<in> work_order"
  using assms
proof (induction rule: completes.induct)
  case (bio_end n bio s st s')
  from bio_end(2) obtain io b dk b' where e: "ck_io (chunk_of s n) = Some io"
    "chunk_map (area s') = (chunk_map (area s))[n := (chunk_of s n)\<lparr>ck_io := Some (fst (diff_io_endio (st = None) io)), ck_buffer := Some b'\<rparr>]"
    "inflight s' = remove1 (n, bio) (inflight s)" "length (notify s') \<le> Suc (length (notify s))"
    by (auto simp: cow_bio_end_def upd_chunk_def split: option.splits prod.splits dest!: bind_outcome_eq_OkD)
  have n: "n < nchunks s" using bio_end(1,3) by (force simp: cow_inv_def queues_ok_def)
  have "busy s' = busy s" "busy_loading s' = busy_loading s"
    using e(1) n by (auto simp: busy_def busy_loading_def e(2) nth_list_update split: if_splits)
  moreover have "0 < length (inflight s)" using bio_end(1) by auto
  moreover have "length (inflight s') = length (inflight s) - 1" using bio_end(1) by (simp add: e(3) length_remove1)
  ultimately have "2 * length (inflight s') + length (notify s') < 2 * length (inflight s) + length (notify s)"
    using e(4) by linarith
  with \<open>busy s' = busy s\<close> \<open>busy_loading s' = busy_loading s\<close> show ?case by (simp add: work_left_def)
next
  case (loaded n s ans s')
  have n: "n < nchunks s" using loaded(1,3) by (force simp: cow_inv_def queues_ok_def)
  have f: "frame n s s'" using notify_load_inv [OF loaded(3,1), of P ans] loaded(2) by auto
  have "n \<in> busy_loading s"
    by (rule notify_taken [OF loaded(3,1)]) (auto simp: busy_loading_def io_ok_def split: if_splits)
  moreover have "n \<notin> busy_loading s'" using notify_load_done [OF loaded(2)] n by (auto simp: busy_loading_def)
  ultimately have "card (busy_loading s') < card (busy_loading s)" using card_less_Diff [OF busy_frame(2) [OF f]] by simp
  then show ?case by (simp add: work_left_def)
next
  case (stored n s ans s')
  have n: "n < nchunks s" using stored(1,3) by (force simp: cow_inv_def queues_ok_def)
  have f: "frame n s s'" using notify_store_inv [OF stored(3,1), of P ans] stored(2) by auto
  have b: "n \<in> busy s" "n \<notin> busy_loading s"
    by (rule notify_taken [OF stored(3,1)], auto simp: busy_def busy_loading_def io_ok_def split: if_splits)+
  have b': "n \<notin> busy s'" using notify_store_done [OF stored(2)] n by (auto simp: busy_def)
  then have "n \<notin> busy_loading s'" by (auto simp: busy_def busy_loading_def)
  with b(2) busy_frame(2) [OF f] have "busy_loading s' = busy_loading s" by blast
  moreover have "card (busy s') < card (busy s)" using card_less_Diff [OF busy_frame(1) [OF f] b' b(1)] by simp
  ultimately show ?case by (simp add: work_left_def)
qed

lemma wf_work_order: "wf work_order"
  by (rule wf_lex_prod [OF wf_less_than wf_lex_prod [OF wf_less_than wf_less_than]])

lemma completes_terminates:
  assumes "cow_inv img ctx s"
  shows "Wellfounded.accp (\<lambda>y x. completes P x y) s"
  using assms
proof (induction "work_left s" arbitrary: s rule: wf_induct_rule [OF wf_work_order])
  case (1 s)
  show ?case
  proof (rule accp.accI)
    fix s'
    assume c: "completes P s s'"
    show "Wellfounded.accp (\<lambda>y x. completes P x y) s'"
      by (rule 1(1) [OF completes_decreases [OF c 1(2)] completes_inv [OF c 1(2)]])
  qed
qed

lemma locked_completes:
  assumes inv: "cow_inv img ctx s" and n: "n < nchunks s" "ck_locked (chunk_of s n)" "ctx_chunk ctx \<noteq> Some n"
  shows "\<exists>s'. completes P s s'"
proof -
  have c: "control_ok ctx s n" using cow_invD(2) [OF inv n(1)] .
  then obtain io where io: "ck_io (chunk_of s n) = Some io" "io_ok (area s) (chunk_of s n) io (bios_of s n) (notes_of s n)"
    using n(2,3) by (cases "ck_io (chunk_of s n)") (auto simp: control_ok_def Let_def)
  show ?thesis
  proof (cases "bios_of s n")
    case (Cons bio bios)
    then have "bio \<in> set (bios_of s n)" by simp
    then have "(n, bio) \<in> set (inflight s)" by (auto simp: bios_of_def)
    with bio_end_inv [OF inv this, of None] show ?thesis by (auto intro: completes.bio_end)
  next
    case Nil
    with io(2) have "notes_of s n = [if io_is_write io then NotifyStore else NotifyLoad]" by (simp add: io_ok_def)
    then have "(if io_is_write io then NotifyStore else NotifyLoad) \<in> set (notes_of s n)" by simp
    then have nt: "(n, if io_is_write io then NotifyStore else NotifyLoad) \<in> set (notify s)"
      by (auto simp: notes_of_def)
    show ?thesis
    proof (cases "io_is_write io")
      case True
      with nt have "(n, NotifyStore) \<in> set (notify s)" by simp
      with notify_store_inv [OF inv this, of P undefined] show ?thesis by (auto intro: completes.stored)
    next
      case False
      with nt have "(n, NotifyLoad) \<in> set (notify s)" by simp
      with notify_load_inv [OF inv this, of P undefined] show ?thesis by (auto intro: completes.loaded)
    qed
  qed
qed


section \<open>Reading back\<close>

text \<open>C10: what is written to the image is read back.  A write request is processed, its context is released,
  other threads run that do not write to the image, and a read of the same sectors is processed; if
  both requests succeed and the snapshot is not corrupted, the read returns the bytes written.\<close>

theorem image_write_read_roundtrip:
  assumes "area_started info ds a" "(cow_step P rw)\<^sup>*\<^sup>* (start_sys info ds dk a) (s, img, ctx)"
    and "ctx_chunk ctx = None" "SECTOR_SIZE dvd length data"
    and "pos * SECTOR_SIZE + length data \<le> unat (bi_nr_sectors info) * SECTOR_SIZE"
    and "diff_area_image_io P ans killed (diff_area_image_ctx_init True) (length data) data pos s = Ok (Returned ii, ctx1, s1)" "ii_ok ii"
    and "diff_area_image_ctx_done P done_ans ctx1 s1 = Ok s2"
    and "(cow_step P False)\<^sup>*\<^sup>* (s2, image_write (pos * SECTOR_SIZE) data img, ctx1\<lparr>ctx_chunk := None\<rparr>) (s3, img3, ctx3)"
    and "ctx_chunk ctx3 = None"
    and "diff_area_image_io P ans' killed' (diff_area_image_ctx_init False) (length data) [] pos s3 = Ok (Returned ii', ctx4, s4)" "ii_ok ii'"
    and "\<not> diff_area_is_corrupted (area s3)"
  shows "ii_out ii' = data"
proof -
  note r = reachable_inv [OF assms(1,2)]
  let ?w = "\<lparr>ii_ok = True, ii_pos = pos, ii_data = data, ii_out = []\<rparr>" and ?img = "image_write (pos * SECTOR_SIZE) data img"
  have wr: "ctx_is_write (diff_area_image_ctx_init True)" by (simp add: diff_area_image_ctx_init_def)
  have "cow_inv ?img ctx1 s1 \<and> step_keeps s s1 \<and> sizes s1 = sizes s"
    using image_io_write [OF ctx_init_inv [OF r(1) assms(3)] wr assms(4) order_refl, of ?w P ans killed] assms(6,7)
    by (auto simp: diff_area_image_io_def)
  then have i1: "cow_inv ?img ctx1 s1" "step_keeps s s1" "sizes s1 = sizes s" by blast+
  have i2: "cow_inv ?img (ctx1\<lparr>ctx_chunk := None\<rparr>) s2" "step_keeps s1 s2" "sizes s2 = sizes s1"
    using ctx_done_inv [OF i1(1), of P done_ans] assms(8) by auto
  have i3: "cow_inv img3 ctx3 s3" "step_keeps s2 s3" using cow_steps_inv [OF assms(9)] i2(1) by simp_all
  have sz: "sizes s3 = sizes s" using sizes_steps [OF assms(9)] i1(3) i2(3) by simp
  have img3: "img3 = ?img" using cow_steps_read_only [OF assms(9)] by simp
  let ?r = "\<lparr>ii_ok = True, ii_pos = pos, ii_data = [], ii_out = []\<rparr>"
  have rd: "\<not> ctx_is_write (diff_area_image_ctx_init False)" by (simp add: diff_area_image_ctx_init_def)
  have ok: "ii_ok ?r" by simp
  have k3: "step_keeps (cow_start a ds dk) s3" using r(2) i1(2) i2(2) i3(2) by (meson step_keeps_trans)
  have v: "image_valid s3 (pos * SECTOR_SIZE + i)" if "i < length data" for i
    by (rule image_valid_device [OF assms(1) k3]) (use that assms(5) sz r(3) in simp_all)
  have nc: "\<not> corrupt_flag (area s4)"
    using silent_image_io [OF assms(11) [unfolded diff_area_image_io_def], of s3] assms(13)
    by (simp add: silent_def quiet_def diff_area_is_corrupted_def)
  have "ii_out ii' = map (\<lambda>i. ?img (pos * SECTOR_SIZE + i)) [0..<length data]"
    using image_io_read [OF ctx_init_inv [OF i3(1) assms(10)] rd assms(4) order_refl ok, of P ans' killed'] assms(11,12) nc v
    by (auto simp: diff_area_image_io_def img3)
  also have "\<dots> = data" by (rule nth_equalityI) (simp_all add: image_write_def)
  finally show ?thesis .
qed

section \<open>The cleaner of the caches\<close>

definition cache_queues :: "cow \<Rightarrow> nat list \<times> nat list" where
  "cache_queues s = (read_cache_queue (area s), write_cache_queue (area s))"

abbreviation cached_chunks :: "cow \<Rightarrow> nat" where
  "cached_chunks s \<equiv> length (read_cache_queue (area s)) + length (write_cache_queue (area s))"

lemma queues_simps [simp]:
  "cache_queues (upd_chunk n f s) = cache_queues s" "cache_queues (up n s) = cache_queues s"
  "cache_queues (s\<lparr>storage := ds\<rparr>) = cache_queues s" "cache_queues (s\<lparr>inflight := q\<rparr>) = cache_queues s"
  "cache_queues (chunk_diff_buffer_release P n s) = cache_queues s"
  by (simp_all add: cache_queues_def up_def chunk_diff_buffer_release_def split: option.split)

lemma queues_area [simp]:
  "read_cache_queue (f (area s)) = read_cache_queue (area s) \<Longrightarrow> write_cache_queue (f (area s)) = write_cache_queue (area s) \<Longrightarrow>
     cache_queues (upd_area f s) = cache_queues s"
  by (simp add: cache_queues_def)

lemma queues_failed: "chunk_store_failed P ans n e s = Ok s' \<Longrightarrow> cache_queues s' = cache_queues s"
  by (auto simp: chunk_store_failed_def diff_area_set_corrupted_def diff_area_event_corrupted_def Let_def
      split: option.splits if_splits dest!: bind_outcome_eq_OkD)

lemma queues_start_io: "chunk_start_io ans n w st r nowait s = Ok (ret, s') \<Longrightarrow> cache_queues s' = cache_queues s"
  by (auto simp: chunk_start_io_def Let_def split: option.splits if_splits dest!: bind_outcome_eq_OkD)

lemma queues_storing: "chunk_schedule_storing P ans n nowait s = Ok (ret, s') \<Longrightarrow> cache_queues s' = cache_queues s"
  by (auto simp: chunk_schedule_storing_def chunk_async_store_diff_def Let_def split: if_splits option.splits sum.splits
      dest!: bind_outcome_eq_OkD queues_start_io)

lemma queues_release: "cache_release_chunk P ans n s = Ok s' \<Longrightarrow> cache_queues s' = cache_queues s"
  by (auto simp: cache_release_chunk_def split: if_splits dest!: bind_outcome_eq_OkD queues_failed queues_storing)

lemma cache_release_run:
  assumes "cow_inv img ctx s" "cached_chunks s \<le> fuel"
  shows "\<exists>s'. diff_area_cache_release P ans fuel s = Ok s' \<and> (cow_step P rw)\<^sup>*\<^sup>* (s, img, ctx) (s', img, ctx) \<and>
    (diff_area_is_corrupted (area s') \<or> diff_area_get_chunk_from_cache_and_write_lock P s' = None)"
  using assms
proof (induction fuel arbitrary: s)
  case 0
  show ?case
  proof (cases "diff_area_is_corrupted (area s)")
    case True
    then show ?thesis by (simp add: diff_area_cache_release.simps [of _ _ 0])
  next
    case False
    have "diff_area_get_chunk_from_cache_and_write_lock P s = None"
    proof (rule ccontr)
      assume "diff_area_get_chunk_from_cache_and_write_lock P s \<noteq> None"
      then obtain n s1 where "diff_area_get_chunk_from_cache_and_write_lock P s = Some (n, s1)" by auto
      from taken_from_caches [OF 0(1) this] 0(2) show False by simp
    qed
    with False show ?thesis by (simp add: diff_area_cache_release.simps [of _ _ 0])
  qed
next
  case (Suc fuel)
  show ?case
  proof (cases "diff_area_is_corrupted (area s) \<or> diff_area_get_chunk_from_cache_and_write_lock P s = None")
    case True
    then show ?thesis by (auto simp: diff_area_cache_release.simps [of _ _ "Suc fuel"])
  next
    case False
    then obtain n s1 where t: "diff_area_get_chunk_from_cache_and_write_lock P s = Some (n, s1)" and nc: "\<not> diff_area_is_corrupted (area s)"
      by auto
    from cache_release_inv [OF Suc.prems(1) t, of "ans (Suc fuel)"] obtain s2 where
      c: "cache_release_chunk P (ans (Suc fuel)) n s1 = Ok s2" "cow_inv img ctx s2" by blast
    have st: "cow_step P rw (s, img, ctx) (s2, img, ctx)" by (rule cow_step.release [OF nc t c(1)])
    have "cached_chunks s2 = cached_chunks s1" using queues_release [OF c(1)] by (simp add: cache_queues_def)
    also have "\<dots> < cached_chunks s" using taken_from_caches [OF Suc.prems(1) t] by blast
    finally have "cached_chunks s2 \<le> fuel" using Suc.prems(2) by simp
    from Suc.IH [OF c(2) this] obtain s3 where ih: "diff_area_cache_release P ans fuel s2 = Ok s3"
      "(cow_step P rw)\<^sup>*\<^sup>* (s2, img, ctx) (s3, img, ctx)"
      "diff_area_is_corrupted (area s3) \<or> diff_area_get_chunk_from_cache_and_write_lock P s3 = None"
      by (elim exE conjE) (rule that)
    have "diff_area_cache_release P ans (Suc fuel) s = Ok s3"
      using nc t c(1) ih(1) by (simp add: diff_area_cache_release.simps [of _ _ "Suc fuel"])
    moreover have "(cow_step P rw)\<^sup>*\<^sup>* (s, img, ctx) (s3, img, ctx)" using st ih(2) by (rule converse_rtranclp_into_rtranclp)
    ultimately show ?thesis using ih(3) by blast
  qed
qed

lemma caches_within_limits:
  assumes inv: "cow_inv img ctx s" and none: "diff_area_get_chunk_from_cache_and_write_lock P s = None"
    and max: "0 \<le> chunk_maximum_in_cache P"
  shows "read_cache_count (area s) \<le> chunk_maximum_in_cache P \<and> write_cache_count (area s) \<le> chunk_maximum_in_cache P"
proof -
  have aok: "area_ok (area s)" using inv by (simp add: cow_inv_def)
  have unl: "\<not> ck_locked (chunk_of s n)" if "n \<in> set (read_cache_queue (area s)) \<union> set (write_cache_queue (area s))" for n
  proof -
    have "n < nchunks s" using aok that by (auto simp: area_ok_def)
    with cow_invD(2) [OF inv this] that show ?thesis by (auto simp: control_ok_def Let_def)
  qed
  have fu: "first_unlocked s q = None \<Longrightarrow> q = []"
    if "set q \<subseteq> set (read_cache_queue (area s)) \<union> set (write_cache_queue (area s))" for q
    using that unl by (cases q) (auto simp: first_unlocked_def)
  have "read_cache_count (area s) > chunk_maximum_in_cache P \<longrightarrow> read_cache_queue (area s) = []"
    using none fu [of "read_cache_queue (area s)"]
    by (auto simp: diff_area_get_chunk_from_cache_and_write_lock_def get_chunk_from_read_cache_def split: option.splits if_splits)
  moreover have "write_cache_count (area s) > chunk_maximum_in_cache P \<longrightarrow> write_cache_queue (area s) = []"
    using none fu [of "write_cache_queue (area s)"]
    by (auto simp: diff_area_get_chunk_from_cache_and_write_lock_def get_chunk_from_write_cache_def split: option.splits if_splits)
  moreover have "read_cache_count (area s) = int (length (read_cache_queue (area s)))"
    "write_cache_count (area s) = int (length (write_cache_queue (area s)))" using aok by (simp_all add: area_ok_def)
  ultimately show ?thesis using max
    by (cases "read_cache_queue (area s) = []"; cases "write_cache_queue (area s) = []") simp_all
qed

text \<open>C11: the cleaner of the caches ends.  In every reachable state its loop makes at most one turn per
  cached chunk, is a sequence of steps of the system, and leaves, unless the snapshot got corrupted,
  no more chunks in either cache than the module parameter allows.\<close>

theorem cache_release_terminates:
  assumes "area_started info ds a" "(cow_step P rw)\<^sup>*\<^sup>* (start_sys info ds dk a) (s, img, ctx)" "0 \<le> chunk_maximum_in_cache P"
  shows "\<exists>s'. diff_area_cache_release P ans (length (read_cache_queue (area s)) + length (write_cache_queue (area s))) s = Ok s' \<and>
    (cow_step P rw)\<^sup>*\<^sup>* (s, img, ctx) (s', img, ctx) \<and>
    (\<not> diff_area_is_corrupted (area s') \<longrightarrow>
       read_cache_count (area s') \<le> chunk_maximum_in_cache P \<and> write_cache_count (area s') \<le> chunk_maximum_in_cache P)"
proof -
  note r = reachable_inv [OF assms(1,2)]
  from cache_release_run [OF r(1) order_refl, of P ans rw] obtain s' where
    c: "diff_area_cache_release P ans (cached_chunks s) s = Ok s'" "(cow_step P rw)\<^sup>*\<^sup>* (s, img, ctx) (s', img, ctx)"
    "diff_area_is_corrupted (area s') \<or> diff_area_get_chunk_from_cache_and_write_lock P s' = None"
    by (elim exE conjE) (rule that)
  have "cow_inv img ctx s'" using cow_steps_inv [OF c(2)] r(1) by simp
  note lim = caches_within_limits [OF this _ assms(3)]
  have "\<not> diff_area_is_corrupted (area s') \<longrightarrow>
      read_cache_count (area s') \<le> chunk_maximum_in_cache P \<and> write_cache_count (area s') \<le> chunk_maximum_in_cache P"
  proof
    assume "\<not> diff_area_is_corrupted (area s')"
    with c(3) have "diff_area_get_chunk_from_cache_and_write_lock P s' = None" by simp
    then show "read_cache_count (area s') \<le> chunk_maximum_in_cache P \<and> write_cache_count (area s') \<le> chunk_maximum_in_cache P"
      by (rule lim)
  qed
  with c(1,2) show ?thesis by (intro exI [of _ s'] conjI)
qed

section \<open>Copying without waiting\<close>

lemma store_failed_sets:
  assumes "chunk_store_failed P ans n e s = Ok s'" "n < nchunks s"
  shows "failed (chunk_of s' n)"
proof -
  have rel: "failed (chunk_of (chunk_diff_buffer_release P n t) n) = failed (chunk_of t n)" if "n < nchunks t" for t
    using that by (simp add: chunk_diff_buffer_release_def split: option.split)
  show ?thesis using assms
    by (auto simp: chunk_store_failed_def Let_def up_def rel load_release(3) split: option.splits dest!: load_corrupted)
qed

text \<open>C37: a copy that may not sleep (\<^verbatim>\<open>REQ_NOWAIT\<close>) and finds no memory for the buffer of a chunk that is
  not preserved yet reports \<open>EAGAIN\<close>, on which the caller lets the write be repeated, but has already
  marked the chunk as failed and the whole snapshot as corrupted.\<close>

theorem nowait_allocation_failure_corrupts:
  assumes "area_started info ds a" "(cow_step P rw)\<^sup>*\<^sup>* (start_sys info ds dk a) (s, img, ctx)"
    and "n < nchunks s" "\<not> ck_locked (chunk_of s n)" "\<not> preserved s n" "ck_buffer (chunk_of s n) = None"
    and "free_diff_buffers (area s) = []" "\<not> ans_buffer ans"
  shows "\<exists>s'. copy_locked_chunk P ans n True (down n s) = Ok (Some EAGAIN, s') \<and>
    failed (chunk_of s' n) \<and> diff_area_is_corrupted (area s')"
proof -
  note r = reachable_inv [OF assms(1,2)]
  have c: "control_ok ctx s n" by (rule cow_invD(2) [OF r(1) assms(3)])
  note u = unlocked_facts [OF c assms(4)]
  have br: "\<not> buffer_ready (chunk_of s n)" using c assms(6) by (auto simp: control_ok_def Let_def)
  have ch: "chunk_of (down n s) n = (chunk_of s n)\<lparr>ck_locked := True\<rparr>" using assms(3) by (simp add: down_def)
  have ar: "free_diff_buffers (area (down n s)) = []" using assms(7) by (simp add: down_def)
  have np: "\<not> failed (chunk_of s n)" "\<not> dirty (chunk_of s n)" "\<not> store_ready (chunk_of s n)"
    using assms(5) by (simp_all add: preserved_def)
  have tk: "\<exists>pool. diff_buffer_take (area (down n s)) cs True (ans_buffer ans) (ans_page ans) = (Inl EAGAIN, pool)" for cs
    using ar assms(8) by (simp add: diff_buffer_take_def pool_pop_def diff_buffer_new_def)
  from tk [of "diff_area_chunk_sectors (area (down n s))"] obtain pool where
    pool: "diff_buffer_take (area (down n s)) (diff_area_chunk_sectors (area (down n s))) True (ans_buffer ans) (ans_page ans) = (Inl EAGAIN, pool)"
    by blast
  from copy_chunk_inv [OF r(1) assms(3,4), of P ans True] obtain ret s' where
    run: "copy_locked_chunk P ans n True (down n s) = Ok (ret, s')" "cow_inv img ctx s'" "frame n s s'"
    by (elim exE conjE) (rule that)
  have "bind_outcome (chunk_store_failed P ans n (Some EAGAIN) ((down n s)\<lparr>area := pool\<rparr>)) (\<lambda>s''. Ok (Some EAGAIN, s'')) = Ok (ret, s')"
    using run(1) np u(5) br pool by (simp add: copy_locked_chunk_def Let_def ch)
  then have f: "ret = Some EAGAIN" "chunk_store_failed P ans n (Some EAGAIN) ((down n s)\<lparr>area := pool\<rparr>) = Ok s'"
    by (auto dest!: bind_outcome_eq_OkD)
  have "nchunks ((down n s)\<lparr>area := pool\<rparr>) = nchunks s" using diff_buffer_take_area(1) [OF pool] by (simp add: down_def)
  then have "failed (chunk_of s' n)" using store_failed_sets [OF f(2)] assms(3) by simp
  moreover have "n < nchunks s'" using run(3) assms(3) by (simp add: frame_def)
  ultimately have "diff_area_is_corrupted (area s')" using cow_invD(2) [OF run(2)]
    by (auto simp: control_ok_def Let_def diff_area_is_corrupted_def)
  with \<open>failed (chunk_of s' n)\<close> f(1) run(1) show ?thesis by blast
qed

section \<open>An example\<close>

text \<open>A device of 8 sectors, with its storage on another device.\<close>

definition example_info :: bdev_info where
  "example_info = \<lparr>bi_bdev = 1, bi_dev_id = 8, bi_nr_sectors = 8, bi_io_min = 512\<rparr>"

definition example_storage :: diff_storage where
  "example_storage = diff_storage_zero\<lparr>capacity := 2048,
     empty_blocks := [\<lparr>blk_bdev = 2, blk_sector = 0, blk_cnt = 2048, blk_used = 0\<rparr>]\<rparr>"

definition example_area :: diff_area where
  "example_area =
     (case diff_area_new area_default_params (Inr example_info) True (\<lambda>_. True) (\<lambda>_. None) example_storage of
        Fault \<Rightarrow> diff_area_zero
      | Ok na \<Rightarrow> (case na_result na of Inl e \<Rightarrow> diff_area_zero | Inr a \<Rightarrow> a))"

definition example_disks :: "bdev \<Rightarrow> nat \<Rightarrow> u8" where
  "example_disks d x = of_nat x"

definition example_params :: cow_params where
  "example_params = \<lparr>chunk_maximum_in_cache = 32, free_diff_buffer_pool_size = 128, diff_storage_minimum = 2097152\<rparr>"

definition example_answers :: answers where
  "example_answers = \<lparr>ans_io = True, ans_bio = (\<lambda>_. True), ans_buffer = True, ans_page = (\<lambda>_. Some (\<lambda>_. 0)),
     ans_region = True, ans_low_event = (True, 0), ans_bad_event = (True, 0), ans_status = (\<lambda>_. None)\<rparr>"

lemma example_good: "good_answers example_answers"
  by (simp add: good_answers_def example_answers_def)

lemma example_new:
  "case diff_area_new area_default_params (Inr example_info) True (\<lambda>_. True) (\<lambda>_. None) example_storage of
     Fault \<Rightarrow> False
   | Ok na \<Rightarrow> (case na_result na of Inl e \<Rightarrow> False | Inr a \<Rightarrow> chunk_shift a = 18 \<and> length (chunk_map a) = 1)"
  by code_simp

lemma example_started: "area_started example_info example_storage example_area"
proof -
  obtain na a where n: "diff_area_new area_default_params (Inr example_info) True (\<lambda>_. True) (\<lambda>_. None) example_storage = Ok na"
    "na_result na = Inr a" "chunk_shift a = 18"
    using example_new by (auto split: outcome.splits sum.splits)
  then have "example_area = a" by (simp add: example_area_def)
  moreover have "ds_wf example_storage" by (simp add: ds_wf_def example_storage_def blk_ok_def)
  moreover have "(bi_bdev example_info, x) \<notin> ds_avail example_storage" for x
    by (simp add: ds_avail_def example_storage_def blk_free_def example_info_def)
  moreover have "0 < unat (bi_nr_sectors example_info)" "unat (bi_nr_sectors example_info) < 2 ^ 55"
    by (simp_all add: example_info_def)
  ultimately show ?thesis using n new_area_kref [OF n(1,2)] unfolding area_started_def by auto
qed

abbreviation example_sys :: sys where
  "example_sys \<equiv> start_sys example_info example_storage example_disks example_area"

lemma example_chunk:
  "chunk_shift example_area = 18" "chunk_map example_area = [fresh_chunk 8 0]"
proof -
  obtain na a where n: "diff_area_new area_default_params (Inr example_info) True (\<lambda>_. True) (\<lambda>_. None) example_storage = Ok na"
    "na_result na = Inr a" "chunk_shift a = 18"
    using example_new by (auto split: outcome.splits sum.splits)
  then show sh: "chunk_shift example_area = 18" by (simp add: example_area_def)
  show "chunk_map example_area = [fresh_chunk 8 0]"
  proof (rule area_startedD [OF example_started], goal_cases)
    case (1 t r)
    from arg_cong [OF 1(7), of chunk_shift] sh have "t = 18" by simp
    with arg_cong [OF 1(7), of chunk_map] show ?case
      by (simp add: area_chunks_def example_info_def ceil_div_def last_sectors_def)
  qed
qed

lemma example_geometry:
  "chunk_number example_area x = x div 512" "diff_area_chunk_sectors example_area = 512"
  by (simp_all add: chunk_number_def diff_area_chunk_sectors_def example_chunk)

lemma example_quiet:
  "quiet (cow_start example_area example_storage example_disks) = (False, [], [])"
  "regions_of (cow_start example_area example_storage example_disks) = {}"
proof -
  have "corrupt_flag example_area = False"
  proof (rule area_startedD [OF example_started], goal_cases)
    case (1 t r)
    from arg_cong [OF 1(7), of corrupt_flag] show ?case by (simp add: diff_area_zero_def)
  qed
  then show "quiet (cow_start example_area example_storage example_disks) = (False, [], [])"
    by (simp add: quiet_def cow_start_def)
  show "regions_of (cow_start example_area example_storage example_disks) = {}"
    by (simp add: regions_of_def cow_start_def example_chunk fresh_chunk_def)
qed

lemma example_readable: "readable (cow_start example_area example_storage example_disks) 0"
  by (simp add: readable_def cow_start_def example_chunk fresh_chunk_def)



text \<open>A state with a dirty chunk: an image request has written to it.\<close>

lemma example_dirty:
  "\<exists>s. (cow_step example_params True)\<^sup>*\<^sup>* example_sys (s, example_disks 1, diff_area_image_ctx_init True) \<and>
     nchunks s = 1 \<and> \<not> ck_locked (chunk_of s 0) \<and> dirty (chunk_of s 0) \<and> \<not> failed (chunk_of s 0) \<and>
     \<not> corrupt_flag (area s)"
proof -
  let ?s = "cow_start example_area example_storage example_disks" and ?ctx = "diff_area_image_ctx_init True"
  let ?img = "example_disks 1" and ?P = example_params
  have inv: "cow_inv ?img ?ctx ?s" using start_inv [OF example_started] by (simp add: example_info_def)
  have n: "ctx_chunk ?ctx = None" "0 < nchunks ?s" "\<not> ck_locked (chunk_of ?s 0)"
    using example_readable by (simp_all add: readable_def diff_area_image_ctx_init_def)
  from get_locked_inv [OF inv n, of example_answers] example_good example_readable obtain s1 where
    g: "get_locked_chunk example_answers 0 (down 0 ?s) = Ok (None, s1)" "frame 0 ?s s1" "cow_inv ?img (?ctx\<lparr>ctx_chunk := Some 0\<rparr>) s1"
    by (auto simp: readable_def)
  have one: "nchunks s1 = 1" using g(2) by (simp add: frame_def cow_start_def example_chunk)
  have c: "control_ok (?ctx\<lparr>ctx_chunk := Some 0\<rparr>) s1 0" using cow_invD(2) [OF g(3)] one by simp
  have io: "ck_io (chunk_of s1 0) = None" using c by (cases "ck_io (chunk_of s1 0)") (auto simp: control_ok_def Let_def)
  then have h: "\<not> failed (chunk_of s1 0)" "\<not> chunk_in_cache s1 0"
    using c by (auto simp: control_ok_def Let_def chunk_in_cache_def)
  let ?s2 = "upd_chunk 0 (chunk_state_set CHUNK_ST_DIRTY) s1"
  have "\<not> chunk_in_cache ?s2 0" using h(2) by (simp add: chunk_in_cache_def)
  then obtain s3 where p: "diff_area_image_put_chunk ?P example_answers 0 True s1 = Ok s3"
    "chunk_map (area s3) = chunk_map (area (up 0 ?s2))"
    unfolding diff_area_image_put_chunk_def chunk_schedule_caching_def by (auto simp: Let_def up_def upd_chunk_def)
  have "cow_step ?P True (?s, ?img, diff_area_image_ctx_init False) (?s, ?img, ?ctx)"
    by (rule cow_step.image_begin) (simp add: diff_area_image_ctx_init_def)
  moreover have "cow_step ?P True (?s, ?img, ?ctx) (s1, ?img, ?ctx\<lparr>ctx_chunk := Some 0\<rparr>)"
    using cow_step.image_get [OF n g(1), of ?P True ?img] by simp
  moreover have "cow_step ?P True (s1, ?img, ?ctx\<lparr>ctx_chunk := Some 0\<rparr>) (s3, ?img, ?ctx\<lparr>ctx_chunk := Some 0\<rparr>\<lparr>ctx_chunk := None\<rparr>)"
    by (rule cow_step.image_put) (use p(1) in \<open>simp_all add: diff_area_image_ctx_init_def\<close>)
  ultimately have "(cow_step ?P True)\<^sup>*\<^sup>* example_sys (s3, ?img, ?ctx)"
    by (simp add: start_sys_def example_info_def diff_area_image_ctx_init_def)
  moreover have "nchunks s3 = 1" "\<not> ck_locked (chunk_of s3 0)" "dirty (chunk_of s3 0)" "\<not> failed (chunk_of s3 0)"
    using one h(1) unfolding p(2) by (simp_all add: up_def)
  moreover have "silent ?s ?s" by (simp add: silent_def)
  then have "silent ?s s3" using silent_get_locked [OF g(1)] silent_put [OF p(1)] by simp
  then have "\<not> corrupt_flag (area s3)" using example_quiet by (simp add: silent_def quiet_def)
  ultimately show ?thesis by blast
qed

theorem original_write_leaves_image_witness:
  "\<exists>s img ctx. dirty (chunk_of s 0) \<and> \<not> ck_locked (chunk_of s 0) \<and>
     cow_step example_params True (s, img, ctx) (s\<lparr>disks := (disks s)(1 := (disks s 1)(5 := 77))\<rparr>, img, ctx)"
proof -
  from example_dirty obtain s where s: "(cow_step example_params True)\<^sup>*\<^sup>* example_sys (s, example_disks 1, diff_area_image_ctx_init True)"
    "nchunks s = 1" "\<not> ck_locked (chunk_of s 0)" "dirty (chunk_of s 0)" "\<not> failed (chunk_of s 0)" by blast
  have n: "0 < nchunks s" using s(2) by simp
  have ch: "ck_state (chunk_of (down 0 s) 0) = ck_state (chunk_of s 0)" using n by (simp add: down_def)
  have "copy_loop example_params (\<lambda>_. example_answers) (\<lambda>_. False) False 0 1 s = Ok (Returned None, s)"
    using n s(3,4) up_down [OF n s(3)] by (simp add: take_lock_def copy_locked_chunk_def Let_def ch)
  then have ct: "copy_turn example_params False 0 s s" unfolding copy_turn_def by blast
  have "wait_loop (\<lambda>_. example_answers) (\<lambda>_. False) False 0 1 s = Ok (Returned None, s)"
    using n s(3-5) up_down [OF n s(3)] by (simp add: take_lock_def ch)
  then have wt: "wait_turn False 0 s s" unfolding wait_turn_def by blast
  have geo: "chunk_number example_area 0 = 0" "range_chunks example_area 0 8 = Suc 0"
    by (simp_all add: example_geometry range_chunks_def ceil_div_def)
  let ?x = "(s, example_disks 1, diff_area_image_ctx_init True)" and ?dk = "(disks s)(1 := (disks s 1)(5 := 77))"
  have ic: "interleaved (copy_turn example_params False) example_params True (chunk_number example_area 0) (range_chunks example_area 0 8) ?x ?x"
    unfolding geo by (rule interleaved.turn) (rule ct, rule interleaved.finished)
  have iw: "interleaved (wait_turn False) example_params True (chunk_number example_area 0) (range_chunks example_area 0 8) ?x ?x"
    unfolding geo by (rule interleaved.turn) (rule wt, rule interleaved.finished)
  have "d = bi_bdev example_info \<and> 0 * SECTOR_SIZE \<le> x \<and> x < (0 + 8) * SECTOR_SIZE" if "?dk d x \<noteq> disks s d x" for d x
    using that by (auto simp: example_info_def split: if_splits)
  from original_write_leaves_image [OF example_started s(1) ic iw this]
  have "cow_step example_params True ?x (s\<lparr>disks := ?dk\<rparr>, example_disks 1, diff_area_image_ctx_init True)" by blast
  with s(3,4) show ?thesis by blast
qed


theorem image_write_read_roundtrip_witness:
  "\<exists>ii ctx1 s1 s2 ii' ctx2 s3.
     diff_area_image_io example_params (\<lambda>_. example_answers) (\<lambda>_. False) (diff_area_image_ctx_init True) 512
       (replicate 512 7) 3 (cow_start example_area example_storage example_disks) = Ok (Returned ii, ctx1, s1) \<and> ii_ok ii \<and>
     diff_area_image_ctx_done example_params example_answers ctx1 s1 = Ok s2 \<and>
     diff_area_image_io example_params (\<lambda>_. example_answers) (\<lambda>_. False) (diff_area_image_ctx_init False) 512 [] 3 s2 =
       Ok (Returned ii', ctx2, s3) \<and> ii_ok ii' \<and> ii_out ii' = replicate 512 7"
proof -
  let ?s = "cow_start example_area example_storage example_disks" and ?P = example_params and ?A = "\<lambda>_::nat. example_answers"
  let ?k = "\<lambda>_::nat. False" and ?img = "example_disks 1" and ?d = "replicate 512 7 :: u8 list"
  have st: "(cow_step ?P False)\<^sup>*\<^sup>* example_sys (?s, ?img, diff_area_image_ctx_init False)"
    by (simp add: start_sys_def example_info_def)
  have inv: "cow_inv ?img (diff_area_image_ctx_init w) ?s" for w using start_inv [OF example_started] by (simp add: example_info_def)
  have len: "SECTOR_SIZE dvd length ?d" "3 * SECTOR_SIZE + length ?d \<le> unat (bi_nr_sectors example_info) * SECTOR_SIZE"
    by (simp_all add: example_info_def)
  have free: "readable s n" if "cow_inv img ctx s" "ctx_chunk ctx = None" "silent ?s s" "step_keeps ?s s"
      "n * chunk_bytes (area s) < 3 * SECTOR_SIZE + 512" for img ctx s n
  proof -
    have "chunk_bytes (area s) = 262144" "nchunks s = 1"
      using that(4) by (simp_all add: step_keeps_def diff_area_chunk_sectors_def cow_start_def example_chunk)
    with that(5) have "n < nchunks s" by (cases n) simp_all
    with silent_readable [OF that(1,2)] that(3) example_quiet show ?thesis by (auto simp: silent_def)
  qed
  let ?w = "\<lparr>ii_ok = True, ii_pos = 3, ii_data = ?d, ii_out = []\<rparr>" and ?r = "\<lparr>ii_ok = True, ii_pos = 3, ii_data = [], ii_out = []\<rparr>"
  have "\<exists>ii' ctx' s'. image_io_loop ?P ?A ?k 512 512 ?w (diff_area_image_ctx_init True) ?s = Ok (Returned ii', ctx', s') \<and> ii_ok ii'"
    by (rule image_io_good [OF inv]) (use free [OF inv] example_good in \<open>simp_all add: diff_area_image_ctx_init_def\<close>)
  then obtain ii ctx1 s1 where w: "image_io_loop ?P ?A ?k 512 512 ?w (diff_area_image_ctx_init True) ?s = Ok (Returned ii, ctx1, s1)" "ii_ok ii"
    by blast
  have wctx: "ctx_is_write (diff_area_image_ctx_init True)" by (simp add: diff_area_image_ctx_init_def)
  have "cow_inv (image_write (3 * SECTOR_SIZE) ?d ?img) ctx1 s1 \<and> step_keeps ?s s1"
    using image_io_write [OF inv wctx, of 512 512 ?w ?P ?A ?k] w by auto
  then have i1: "cow_inv (image_write (3 * SECTOR_SIZE) ?d ?img) ctx1 s1" "step_keeps ?s s1" by blast+
  from ctx_done_inv [OF i1(1), of ?P example_answers] obtain s2 where d: "diff_area_image_ctx_done ?P example_answers ctx1 s1 = Ok s2"
    "cow_inv (image_write (3 * SECTOR_SIZE) ?d ?img) (ctx1\<lparr>ctx_chunk := None\<rparr>) s2" "step_keeps s1 s2" by blast
  have sil: "silent ?s s2" using silent_ctx_done [OF d(1)] silent_image_io [OF w(1), of ?s] by simp
  have k2: "step_keeps ?s s2" using i1(2) d(3) by (rule step_keeps_trans)
  have none: "ctx_chunk (ctx1\<lparr>ctx_chunk := None\<rparr>) = None" by simp
  note i2 = ctx_init_inv [OF d(2) none, of False]
  have "ctx_chunk (diff_area_image_ctx_init False) = None" by (simp add: diff_area_image_ctx_init_def)
  note fr = free [OF i2 this sil k2]
  have "\<exists>ii' ctx' s'. image_io_loop ?P ?A ?k 512 512 ?r (diff_area_image_ctx_init False) s2 = Ok (Returned ii', ctx', s') \<and> ii_ok ii'"
    by (rule image_io_good [OF i2]) (use fr example_good in \<open>simp_all add: diff_area_image_ctx_init_def\<close>)
  then obtain ii' ctx2 s3 where r: "image_io_loop ?P ?A ?k 512 512 ?r (diff_area_image_ctx_init False) s2 = Ok (Returned ii', ctx2, s3)" "ii_ok ii'"
    by blast
  have nc: "\<not> diff_area_is_corrupted (area s2)" using sil example_quiet(1) by (simp add: silent_def quiet_def diff_area_is_corrupted_def)
  have w': "diff_area_image_io ?P ?A ?k (diff_area_image_ctx_init True) (length ?d) ?d 3 ?s = Ok (Returned ii, ctx1, s1)"
    using w(1) by (simp add: diff_area_image_io_def)
  have r': "diff_area_image_io ?P ?A ?k (diff_area_image_ctx_init False) (length ?d) [] 3 s2 = Ok (Returned ii', ctx2, s3)"
    using r(1) by (simp add: diff_area_image_io_def)
  have "ctx_chunk (diff_area_image_ctx_init False) = None" by (simp add: diff_area_image_ctx_init_def)
  from image_write_read_roundtrip [OF example_started st this len w' w(2) d(1) rtranclp.rtrancl_refl none r' r(2) nc]
  have "ii_out ii' = ?d" .
  moreover have "length ?d = 512" by simp
  ultimately show ?thesis using w' w(2) d(1) r' r(2) by auto
qed

theorem cache_release_terminates_witness:
  "\<exists>s s'. (cow_step example_params True)\<^sup>*\<^sup>* example_sys (s, example_disks 1, diff_area_image_ctx_init True) \<and> dirty (chunk_of s 0) \<and>
     diff_area_cache_release example_params (\<lambda>_. example_answers)
       (length (read_cache_queue (area s)) + length (write_cache_queue (area s))) s = Ok s'"
proof -
  from example_dirty obtain s where s: "(cow_step example_params True)\<^sup>*\<^sup>* example_sys (s, example_disks 1, diff_area_image_ctx_init True)"
    "dirty (chunk_of s 0)" by blast
  have "0 \<le> chunk_maximum_in_cache example_params" by (simp add: example_params_def)
  from cache_release_terminates [OF example_started s(1) this, of "\<lambda>_. example_answers"] s show ?thesis by blast
qed

theorem nowait_allocation_failure_corrupts_witness:
  "\<exists>s. copy_locked_chunk example_params (example_answers\<lparr>ans_buffer := False\<rparr>) 0 True
       (down 0 (cow_start example_area example_storage example_disks)) = Ok (Some EAGAIN, s) \<and>
     diff_area_is_corrupted (area s)"
proof -
  let ?s = "cow_start example_area example_storage example_disks" and ?ctx = "diff_area_image_ctx_init False"
  have st: "(cow_step example_params False)\<^sup>*\<^sup>* example_sys (?s, example_disks 1, ?ctx)"
    by (simp add: start_sys_def example_info_def)
  have "free_diff_buffers example_area = []"
  proof (rule area_startedD [OF example_started], goal_cases)
    case (1 t r)
    from arg_cong [OF 1(7), of free_diff_buffers] show ?case by (simp add: diff_area_zero_def)
  qed
  then have h: "0 < nchunks ?s" "\<not> ck_locked (chunk_of ?s 0)" "\<not> preserved ?s 0" "ck_buffer (chunk_of ?s 0) = None"
    "free_diff_buffers (area ?s) = []" "\<not> ans_buffer (example_answers\<lparr>ans_buffer := False\<rparr>)"
    by (simp_all add: cow_start_def example_chunk fresh_chunk_def preserved_def)
  from nowait_allocation_failure_corrupts [OF example_started st h] show ?thesis by blast
qed

end
