(* ===== verification/Bdev_Filter.thy ===== *)
theory Bdev_Filter
  imports Diff_Area
begin

text \<open>
  Block device filters, \<^verbatim>\<open>module/bdevfilter.c\<close> and \<^verbatim>\<open>module/bdevfilter.h\<close>: the list of extensions that ties
  a block device to a reference-counted filter, and the handler that stands before
  \<^verbatim>\<open>submit_bio_noacct\<close>.

  The struct \<^verbatim>\<open>bdev_filter\<close> is embedded in the client's object, so it is a record that the client
  extends.  A filter is named by a number; \<open>filters\<close> holds the filters whose memory is allocated, and
  using another one is a \<open>Fault\<close>.  The callbacks of \<^verbatim>\<open>struct bdev_filter_operations\<close> are arguments.
  \<open>submit_frozen\<close> says that the write side of \<^verbatim>\<open>submit_lock\<close> is held.  An extension is named by its
  device number: the list never has two extensions with the same one.
\<close>

section \<open>Data\<close>

record bdev_filter =
  flt_kref :: nat
  submit_frozen :: bool

record bdev_extension =
  ext_dev_id :: dev_t
  ext_bdev :: bdev
  bd_filter :: "nat option"

record 'f filter_state =
  bdev_extension_list :: "bdev_extension list"
  filters :: "nat \<Rightarrow> 'f bdev_filter_ext option"

text \<open>\<^verbatim>\<open>fops->release\<close>.\<close>

type_synonym ('f, 'm) release_fop = "nat \<Rightarrow> ('f, 'm) filter_state_scheme \<Rightarrow> ('f, 'm) filter_state_scheme"

definition upd_filter ::
  "nat \<Rightarrow> ('f bdev_filter_ext \<Rightarrow> 'f bdev_filter_ext) \<Rightarrow> ('f, 'm) filter_state_scheme \<Rightarrow>
     ('f, 'm) filter_state_scheme outcome" where
  "upd_filter f g s =
     (case filters s f of
        None \<Rightarrow> Fault
      | Some flt \<Rightarrow> Ok (s\<lparr>filters := (filters s)(f \<mapsto> g flt)\<rparr>))"

section \<open>Reference counts and the submit lock\<close>

definition bdev_filter_init :: "'f bdev_filter_ext \<Rightarrow> 'f bdev_filter_ext" where
  "bdev_filter_init flt = flt\<lparr>flt_kref := 1, submit_frozen := False\<rparr>"

definition bdev_filter_get :: "nat \<Rightarrow> ('f, 'm) filter_state_scheme \<Rightarrow> ('f, 'm) filter_state_scheme outcome" where
  "bdev_filter_get f = upd_filter f (\<lambda>flt. flt\<lparr>flt_kref := kref_get (flt_kref flt)\<rparr>)"

text \<open>The release callback, then \<^verbatim>\<open>percpu_free_rwsem\<close> on the semaphore inside the filter, which needs the
  memory of the filter; \<open>meanwhile\<close> is what other threads do between the two.\<close>

definition bdev_filter_free ::
  "('f, 'm) release_fop \<Rightarrow> (('f, 'm) filter_state_scheme \<Rightarrow> ('f, 'm) filter_state_scheme outcome) \<Rightarrow> nat \<Rightarrow>
     ('f, 'm) filter_state_scheme \<Rightarrow> ('f, 'm) filter_state_scheme outcome" where
  "bdev_filter_free release meanwhile f s =
     bind_outcome (meanwhile (release f s)) (upd_filter f (\<lambda>flt. flt))"

definition bdev_filter_put ::
  "('f, 'm) release_fop \<Rightarrow> nat \<Rightarrow> ('f, 'm) filter_state_scheme \<Rightarrow> ('f, 'm) filter_state_scheme outcome" where
  "bdev_filter_put release f s =
     (case filters s f of
        None \<Rightarrow> Fault
      | Some flt \<Rightarrow>
          (case kref_put (flt_kref flt) of (n, released) \<Rightarrow>
             let s' = s\<lparr>filters := (filters s)(f \<mapsto> flt\<lparr>flt_kref := n\<rparr>)\<rparr>
             in if released then bdev_filter_free release Ok f s' else Ok s'))"

text \<open>The write side of \<^verbatim>\<open>submit_lock\<close>.  The module takes and releases it in one thread only, so taking
  it twice is a wait that nothing ends; it counts as a fault.\<close>

definition bdevfilter_freeze_queue ::
  "nat \<Rightarrow> ('f, 'm) filter_state_scheme \<Rightarrow> ('f, 'm) filter_state_scheme outcome" where
  "bdevfilter_freeze_queue f s =
     (case filters s f of
        None \<Rightarrow> Fault
      | Some flt \<Rightarrow>
          if submit_frozen flt then Fault
          else Ok (s\<lparr>filters := (filters s)(f \<mapsto> flt\<lparr>submit_frozen := True\<rparr>)\<rparr>))"

definition bdevfilter_unfreeze_queue ::
  "nat \<Rightarrow> ('f, 'm) filter_state_scheme \<Rightarrow> ('f, 'm) filter_state_scheme outcome" where
  "bdevfilter_unfreeze_queue f = upd_filter f (\<lambda>flt. flt\<lparr>submit_frozen := False\<rparr>)"

section \<open>Extensions\<close>

definition bdev_extension_find :: "dev_t \<Rightarrow> bdev_extension list \<Rightarrow> bdev_extension option" where
  "bdev_extension_find dev_id l = find (\<lambda>ext. dev_id = ext_dev_id ext) l"

definition bdev_extension_find_bdev :: "bdev \<Rightarrow> bdev_extension list \<Rightarrow> bdev_extension option" where
  "bdev_extension_find_bdev bdev l = find (\<lambda>ext. bdev = ext_bdev ext) l"

text \<open>Storing a filter pointer in the extension of a device.\<close>

fun set_ext_filter :: "dev_t \<Rightarrow> nat option \<Rightarrow> bdev_extension list \<Rightarrow> bdev_extension list" where
  "set_ext_filter dev_id flt [] = []"
| "set_ext_filter dev_id flt (ext # l) =
     (if dev_id = ext_dev_id ext then ext\<lparr>bd_filter := flt\<rparr> # l else ext # set_ext_filter dev_id flt l)"

text \<open>The result says whether there is an extension: a failed allocation gives \<^verbatim>\<open>NULL\<close>.\<close>

definition bdev_extension_append ::
  "('f, 'm) release_fop \<Rightarrow> bool \<Rightarrow> bdev \<Rightarrow> dev_t \<Rightarrow> ('f, 'm) filter_state_scheme \<Rightarrow>
     (bool \<times> ('f, 'm) filter_state_scheme) outcome" where
  "bdev_extension_append release kzalloc_ok bdev dev_id s =
     (if \<not> kzalloc_ok then Ok (False, s)
      else
        let ext_tmp = \<lparr>ext_dev_id = dev_id, ext_bdev = bdev, bd_filter = None\<rparr>;
            l = bdev_extension_list s
        in case bdev_extension_find dev_id l of
             None \<Rightarrow> Ok (True, s\<lparr>bdev_extension_list := l @ [ext_tmp]\<rparr>)
           | Some ext \<Rightarrow>
               if ext_bdev ext = bdev then Ok (True, s)
               else
                 let s' = s\<lparr>bdev_extension_list := remove1 ext (l @ [ext_tmp])\<rparr>
                 in case bd_filter ext of
                      None \<Rightarrow> Ok (True, s')
                    | Some flt \<Rightarrow> bind_outcome (bdev_filter_put release flt s') (\<lambda>s''. Ok (True, s'')))"

definition bdev_filter_attach ::
  "('f, 'm) release_fop \<Rightarrow> bool \<Rightarrow> bdev \<Rightarrow> dev_t \<Rightarrow> nat \<Rightarrow> ('f, 'm) filter_state_scheme \<Rightarrow>
     (ret \<times> ('f, 'm) filter_state_scheme) outcome" where
  "bdev_filter_attach release kzalloc_ok bdev dev_id flt s =
     bind_outcome (bdev_extension_append release kzalloc_ok bdev dev_id s) (\<lambda>(found, s1).
       if \<not> found then Ok (Some ENOMEM, s1)
       else case bdev_extension_find dev_id (bdev_extension_list s1) of
              None \<Rightarrow> Fault
            | Some ext \<Rightarrow>
                (case bd_filter ext of
                   Some _ \<Rightarrow> Ok (Some EBUSY, s1)
                 | None \<Rightarrow> Ok (None, s1\<lparr>bdev_extension_list :=
                               set_ext_filter dev_id (Some flt) (bdev_extension_list s1)\<rparr>)))"

definition lp_bdev_filter_detach ::
  "('f, 'm) release_fop \<Rightarrow> dev_t \<Rightarrow> ('f, 'm) filter_state_scheme \<Rightarrow>
     (ret \<times> ('f, 'm) filter_state_scheme) outcome" where
  "lp_bdev_filter_detach release dev_id s =
     (case bdev_extension_find dev_id (bdev_extension_list s) of
        None \<Rightarrow> Ok (Some ENOENT, s)
      | Some ext \<Rightarrow>
          (case bd_filter ext of
             None \<Rightarrow> Ok (Some ENOENT, s)
           | Some flt \<Rightarrow>
               bind_outcome
                 (bdev_filter_put release flt
                    (s\<lparr>bdev_extension_list := set_ext_filter dev_id None (bdev_extension_list s)\<rparr>))
                 (\<lambda>s'. Ok (None, s'))))"

text \<open>A failure is only a warning in the log.\<close>

definition bdev_filter_detach ::
  "('f, 'm) release_fop \<Rightarrow> dev_t \<Rightarrow> ('f, 'm) filter_state_scheme \<Rightarrow> ('f, 'm) filter_state_scheme outcome" where
  "bdev_filter_detach release dev_id s =
     bind_outcome (lp_bdev_filter_detach release dev_id s) (\<lambda>(ret, s'). Ok s')"

definition bdev_filter_get_by_bdev ::
  "bdev \<Rightarrow> ('f, 'm) filter_state_scheme \<Rightarrow> (nat option \<times> ('f, 'm) filter_state_scheme) outcome" where
  "bdev_filter_get_by_bdev bdev s =
     (case bdev_extension_find_bdev bdev (bdev_extension_list s) of
        None \<Rightarrow> Ok (None, s)
      | Some ext \<Rightarrow>
          (case bd_filter ext of
             None \<Rightarrow> Ok (None, s)
           | Some flt \<Rightarrow> bind_outcome (bdev_filter_get flt s) (\<lambda>s'. Ok (Some flt, s'))))"

section \<open>Intercepting bios\<close>

text \<open>What becomes of a bio: the filter completed it, with \<^verbatim>\<open>BLK_STS_AGAIN\<close> if it may not wait; it goes
  on to the block layer; or its submitter sleeps, holding a reference.\<close>

datatype 'a submitted = Completed 'a | Continues 'a | Sleeps 'a

text \<open>\<^verbatim>\<open>bdev_filters_apply\<close>, with the submit callback of the filter as an argument; its Boolean says that the
  bio is completed, and it may sleep in it.\<close>

definition bdev_filters_apply ::
  "('f, 'm) release_fop \<Rightarrow>
     (nat \<Rightarrow> ('f, 'm) filter_state_scheme \<Rightarrow> (bool lock_result \<times> ('f, 'm) filter_state_scheme) outcome) \<Rightarrow>
     bool \<Rightarrow> bdev \<Rightarrow> ('f, 'm) filter_state_scheme \<Rightarrow> ('f, 'm) filter_state_scheme submitted outcome" where
  "bdev_filters_apply release submit_bio nowait bdev s =
     bind_outcome (bdev_filter_get_by_bdev bdev s) (\<lambda>(flt, s1).
       case flt of
         None \<Rightarrow> Ok (Continues s1)
       | Some f \<Rightarrow>
           (case filters s1 f of
              None \<Rightarrow> Fault
            | Some fl \<Rightarrow>
                if submit_frozen fl then
                  if nowait then bind_outcome (bdev_filter_put release f s1) (\<lambda>s2. Ok (Completed s2))
                  else Ok (Sleeps s1)
                else
                  bind_outcome (submit_bio f s1) (\<lambda>(res, s2).
                    case res of
                      Blocked _ \<Rightarrow> Ok (Sleeps s2)
                    | Returned completed \<Rightarrow>
                        bind_outcome (bdev_filter_put release f s2) (\<lambda>s3.
                          Ok (if completed then Completed s3 else Continues s3)))))"

text \<open>\<open>nested\<close> says that \<^verbatim>\<open>current->bio_list\<close> is set: the bio is submitted from within the submission of
  another one, and is not filtered.\<close>

definition submit_bio_noacct_handler ::
  "('f, 'm) release_fop \<Rightarrow>
     (nat \<Rightarrow> ('f, 'm) filter_state_scheme \<Rightarrow> (bool lock_result \<times> ('f, 'm) filter_state_scheme) outcome) \<Rightarrow>
     bool \<Rightarrow> bool \<Rightarrow> bdev \<Rightarrow> ('f, 'm) filter_state_scheme \<Rightarrow> ('f, 'm) filter_state_scheme submitted outcome" where
  "submit_bio_noacct_handler release submit_bio nested nowait bdev s =
     (if nested then Ok (Continues s) else bdev_filters_apply release submit_bio nowait bdev s)"

text \<open>Unloading: the extensions are freed one by one from the head of the list.\<close>

fun drop_extensions :: "bdev_extension list \<Rightarrow> bdev_extension list" where
  "drop_extensions [] = []"
| "drop_extensions (ext # l) = drop_extensions l"

definition lp_filter_done :: "('f, 'm) filter_state_scheme \<Rightarrow> ('f, 'm) filter_state_scheme" where
  "lp_filter_done s = s\<lparr>bdev_extension_list := drop_extensions (bdev_extension_list s)\<rparr>"

section \<open>References\<close>

text \<open>A reference to a filter is held by an extension or by a client.  \<open>held\<close> counts the references of
  the clients.  A filter without references waits for its release, and nothing else points to it.\<close>

definition ext_refs :: "bdev_extension list \<Rightarrow> nat \<Rightarrow> nat" where
  "ext_refs l f = length (filter (\<lambda>ext. bd_filter ext = Some f) l)"

definition ref_ok :: "'f bdev_filter_ext option \<Rightarrow> nat \<Rightarrow> nat \<Rightarrow> bool \<Rightarrow> bool" where
  "ref_ok flt exts clients queued \<longleftrightarrow>
     (case flt of
        None \<Rightarrow> exts = 0 \<and> clients = 0 \<and> \<not> queued
      | Some fl \<Rightarrow> flt_kref fl = exts + clients \<and> (flt_kref fl = 0 \<longleftrightarrow> queued))"

definition filter_refs_ok :: "nat set \<Rightarrow> (nat \<Rightarrow> nat) \<Rightarrow> ('f, 'm) filter_state_scheme \<Rightarrow> bool" where
  "filter_refs_ok queued held s \<longleftrightarrow>
     distinct (map ext_dev_id (bdev_extension_list s)) \<and>
     (\<forall>f. ref_ok (filters s f) (ext_refs (bdev_extension_list s) f) (held f) (f \<in> queued))"

lemma filter_refs_okI:
  assumes "distinct (map ext_dev_id (bdev_extension_list s))"
    and "\<And>f. ref_ok (filters s f) (ext_refs (bdev_extension_list s) f) (held f) (f \<in> queued)"
  shows "filter_refs_ok queued held s"
  using assms by (simp add: filter_refs_ok_def)

lemma filter_refs_ok_ref:
  "filter_refs_ok queued held s \<Longrightarrow> ref_ok (filters s f) (ext_refs (bdev_extension_list s) f) (held f) (f \<in> queued)"
  by (simp add: filter_refs_ok_def)

lemma ref_ok_simps [simp]:
  "ref_ok None e c q \<longleftrightarrow> e = 0 \<and> c = 0 \<and> \<not> q"
  "ref_ok (Some flt) e c q \<longleftrightarrow> flt_kref flt = e + c \<and> (e + c = 0 \<longleftrightarrow> q)"
  by (auto simp: ref_ok_def)

lemma filter_refs_okD:
  assumes "filter_refs_ok q held s"
  shows "distinct (map ext_dev_id (bdev_extension_list s))"
    "filters s f = Some flt \<Longrightarrow> flt_kref flt = ext_refs (bdev_extension_list s) f + held f"
    "filters s f = Some flt \<Longrightarrow> flt_kref flt = 0 \<longleftrightarrow> f \<in> q"
    "0 < held f \<Longrightarrow> \<exists>flt. filters s f = Some flt"
    "0 < ext_refs (bdev_extension_list s) f \<Longrightarrow> \<exists>flt. filters s f = Some flt"
  using assms filter_refs_ok_ref [OF assms, of f] by (cases "filters s f"; auto simp: filter_refs_ok_def)+

lemma ext_refs_simps [simp]:
  "ext_refs [] f = 0"
  "ext_refs (ext # l) f = (if bd_filter ext = Some f then 1 else 0) + ext_refs l f"
  "ext_refs (l @ l') f = ext_refs l f + ext_refs l' f"
  by (simp_all add: ext_refs_def)

lemma find_ext_SomeD:
  assumes "bdev_extension_find dev l = Some ext"
  shows "ext \<in> set l" "ext_dev_id ext = dev"
  using assms by (auto simp: bdev_extension_find_def find_Some_iff)

lemma find_bdev_SomeD:
  assumes "bdev_extension_find_bdev bdev l = Some ext"
  shows "ext \<in> set l" "ext_bdev ext = bdev"
  using assms by (auto simp: bdev_extension_find_bdev_def find_Some_iff)

lemma find_ext_None: "bdev_extension_find dev l = None \<longleftrightarrow> dev \<notin> ext_dev_id ` set l"
  by (auto simp: bdev_extension_find_def find_None_iff)

lemma ext_refs_pos: "ext \<in> set l \<Longrightarrow> bd_filter ext = Some f \<Longrightarrow> 0 < ext_refs l f"
  by (induction l) auto

lemma set_ext_filter_devs [simp]: "map ext_dev_id (set_ext_filter dev flt l) = map ext_dev_id l"
  by (induction l) auto

lemma set_ext_filter_refs:
  "bdev_extension_find dev l = Some ext \<Longrightarrow>
   ext_refs (set_ext_filter dev flt l) f + (if bd_filter ext = Some f then 1 else 0) =
   ext_refs l f + (if flt = Some f then 1 else 0)"
  by (induction l) (auto simp: bdev_extension_find_def split: if_splits)

lemma find_set_ext_filter:
  "bdev_extension_find dev l = Some ext \<Longrightarrow>
   bdev_extension_find dev' (set_ext_filter dev flt l) =
   (if dev' = dev then Some (ext\<lparr>bd_filter := flt\<rparr>) else bdev_extension_find dev' l)"
  by (induction l) (auto simp: bdev_extension_find_def split: if_splits)

lemma ext_refs_remove1:
  "ext \<in> set l \<Longrightarrow> ext_refs (remove1 ext l) f + (if bd_filter ext = Some f then 1 else 0) = ext_refs l f"
  by (induction l) auto

lemma upd_filter_Some [simp]:
  "filters s f = Some flt \<Longrightarrow> upd_filter f g s = Ok (s\<lparr>filters := (filters s)(f \<mapsto> g flt)\<rparr>)"
  by (simp add: upd_filter_def)

lemma upd_filter_id: "filters s f = Some flt \<Longrightarrow> upd_filter f (\<lambda>flt. flt) s = Ok s"
  by (simp add: fun_upd_idem)

text \<open>The client of a filter: \<open>queued\<close> are the filters whose release callback has run.\<close>

locale filter_client =
  fixes release :: "('f, 'm) release_fop"
    and queued :: "('f, 'm) filter_state_scheme \<Rightarrow> nat set"
  assumes queued_filters [simp]: "queued (s\<lparr>filters := x\<rparr>) = queued s"
    and queued_exts [simp]: "queued (s\<lparr>bdev_extension_list := l\<rparr>) = queued s"
    and release_exts [simp]: "bdev_extension_list (release f s) = bdev_extension_list s"
    and release_filters [simp]: "filters (release f s) = filters s"
    and release_queued [simp]: "queued (release f s) = insert f (queued s)"
begin

abbreviation refs_ok :: "(nat \<Rightarrow> nat) \<Rightarrow> ('f, 'm) filter_state_scheme \<Rightarrow> bool" where
  "refs_ok held s \<equiv> filter_refs_ok (queued s) held s"

lemma put_eq:
  assumes "filters s f = Some flt"
  shows "bdev_filter_put release f s =
    (let s' = s\<lparr>filters := (filters s)(f \<mapsto> flt\<lparr>flt_kref := flt_kref flt - 1\<rparr>)\<rparr>
     in Ok (if flt_kref flt = 1 then release f s' else s'))"
proof -
  let ?s = "s\<lparr>filters := (filters s)(f \<mapsto> flt\<lparr>flt_kref := flt_kref flt - 1\<rparr>)\<rparr>"
  have "upd_filter f (\<lambda>flt. flt) (release f ?s) = Ok (release f ?s)"
    by (rule upd_filter_id) simp
  then show ?thesis using assms by (simp add: bdev_filter_put_def kref_put_def bdev_filter_free_def Let_def)
qed

lemma put_refs:
  assumes ok: "refs_ok held s" and h: "0 < held f"
  shows "\<exists>flt s'. filters s f = Some flt \<and> bdev_filter_put release f s = Ok s' \<and>
    refs_ok (held(f := held f - 1)) s' \<and> bdev_extension_list s' = bdev_extension_list s \<and>
    filters s' = (filters s)(f \<mapsto> flt\<lparr>flt_kref := flt_kref flt - 1\<rparr>)"
proof -
  obtain flt where f: "filters s f = Some flt" using filter_refs_okD(4) [OF ok h] by blast
  have k: "flt_kref flt = ext_refs (bdev_extension_list s) f + held f" "f \<notin> queued s"
    using filter_refs_okD(2,3) [OF ok f] h by auto
  have r: "ref_ok (filters s g) (ext_refs (bdev_extension_list s) g) (held g) (g \<in> queued s)" for g
    using ok by (rule filter_refs_ok_ref)
  have d: "distinct (map ext_dev_id (bdev_extension_list s))" using ok by (rule filter_refs_okD)
  show ?thesis
    unfolding put_eq [OF f] Let_def using f k h r d by (auto intro!: filter_refs_okI)
qed

lemma get_refs:
  assumes ok: "refs_ok held s" and h: "0 < held f \<or> 0 < ext_refs (bdev_extension_list s) f"
  shows "\<exists>flt s'. filters s f = Some flt \<and> bdev_filter_get f s = Ok s' \<and>
    refs_ok (held(f := Suc (held f))) s' \<and> s' = s\<lparr>filters := (filters s)(f \<mapsto> flt\<lparr>flt_kref := Suc (flt_kref flt)\<rparr>)\<rparr>"
proof -
  obtain flt where f: "filters s f = Some flt" using filter_refs_okD(4,5) [OF ok] h by blast
  have k: "flt_kref flt = ext_refs (bdev_extension_list s) f + held f" "f \<notin> queued s"
    using filter_refs_okD(2,3) [OF ok f] h by auto
  have r: "ref_ok (filters s g) (ext_refs (bdev_extension_list s) g) (held g) (g \<in> queued s)" for g
    using ok by (rule filter_refs_ok_ref)
  have d: "distinct (map ext_dev_id (bdev_extension_list s))" using ok by (rule filter_refs_okD)
  show ?thesis
    using f k h r d by (auto simp: bdev_filter_get_def kref_get_def intro!: filter_refs_okI)
qed

text \<open>Taking a filter out of its extension leaves the reference with the caller, and the converse.\<close>

lemma unset_refs:
  assumes ok: "refs_ok held s" and e: "bdev_extension_find dev (bdev_extension_list s) = Some ext" "bd_filter ext = Some f"
  shows "refs_ok (held(f := Suc (held f))) (s\<lparr>bdev_extension_list := set_ext_filter dev None (bdev_extension_list s)\<rparr>)"
proof (rule filter_refs_okI, goal_cases)
  case 1
  show ?case using filter_refs_okD(1) [OF ok] by simp
next
  case (2 g)
  have "ext_refs (set_ext_filter dev None (bdev_extension_list s)) g + (if g = f then 1 else 0) =
    ext_refs (bdev_extension_list s) g"
    using set_ext_filter_refs [OF e(1), of None g] e(2) by auto
  with filter_refs_ok_ref [OF ok, of g] show ?case by (cases "filters s g") (auto split: if_splits)
qed

lemma set_refs:
  assumes ok: "refs_ok held s" and h: "0 < held f"
    and e: "bdev_extension_find dev (bdev_extension_list s) = Some ext" "bd_filter ext = None"
  shows "refs_ok (held(f := held f - 1)) (s\<lparr>bdev_extension_list := set_ext_filter dev (Some f) (bdev_extension_list s)\<rparr>)"
proof (rule filter_refs_okI, goal_cases)
  case 1
  show ?case using filter_refs_okD(1) [OF ok] by simp
next
  case (2 g)
  have "ext_refs (set_ext_filter dev (Some f) (bdev_extension_list s)) g =
    ext_refs (bdev_extension_list s) g + (if g = f then 1 else 0)"
    using set_ext_filter_refs [OF e(1), of "Some f" g] e(2) by auto
  with filter_refs_ok_ref [OF ok, of g] h show ?case by (cases "filters s g") (auto split: if_splits)
qed

lemma detach_refs:
  assumes ok: "refs_ok held s"
  shows "\<exists>ret s'. lp_bdev_filter_detach release dev s = Ok (ret, s') \<and> refs_ok held s' \<and>
    (ret = None \<longrightarrow> (\<exists>ext f flt. bdev_extension_find dev (bdev_extension_list s) = Some ext \<and> bd_filter ext = Some f \<and>
       filters s f = Some flt \<and> filters s' = (filters s)(f \<mapsto> flt\<lparr>flt_kref := flt_kref flt - 1\<rparr>) \<and>
       bdev_extension_list s' = set_ext_filter dev None (bdev_extension_list s))) \<and>
    (ret \<noteq> None \<longrightarrow> s' = s \<and> ret = Some ENOENT)"
proof (cases "bdev_extension_find dev (bdev_extension_list s)")
  case None
  with ok show ?thesis by (simp add: lp_bdev_filter_detach_def)
next
  case (Some ext)
  show ?thesis
  proof (cases "bd_filter ext")
    case None
    with ok Some show ?thesis by (simp add: lp_bdev_filter_detach_def)
  next
    case f: (Some f)
    from put_refs [OF unset_refs [OF ok Some f], of f] Some f show ?thesis
      by (auto simp: lp_bdev_filter_detach_def fun_upd_idem)
  qed
qed

lemma get_by_bdev_refs:
  assumes ok: "refs_ok held s"
  shows "\<exists>res s'. bdev_filter_get_by_bdev bdev s = Ok (res, s') \<and> bdev_extension_list s' = bdev_extension_list s \<and>
    (case res of
       None \<Rightarrow> s' = s \<and> refs_ok held s'
     | Some f \<Rightarrow> refs_ok (held(f := Suc (held f))) s' \<and>
         (\<exists>flt. filters s f = Some flt \<and> s' = s\<lparr>filters := (filters s)(f \<mapsto> flt\<lparr>flt_kref := Suc (flt_kref flt)\<rparr>)\<rparr>))"
proof (cases "bdev_extension_find_bdev bdev (bdev_extension_list s)")
  case None
  with ok show ?thesis by (simp add: bdev_filter_get_by_bdev_def)
next
  case (Some ext)
  show ?thesis
  proof (cases "bd_filter ext")
    case None
    with ok Some show ?thesis by (simp add: bdev_filter_get_by_bdev_def)
  next
    case f: (Some f)
    have "0 < ext_refs (bdev_extension_list s) f" using ext_refs_pos find_bdev_SomeD(1) [OF Some] f by blast
    with get_refs [OF ok, of f] Some f show ?thesis by (auto simp: bdev_filter_get_by_bdev_def)
  qed
qed


text \<open>Replacing a stale extension drops the reference that it held.\<close>

lemma remove_ext_refs:
  assumes ok: "refs_ok held s" and e: "ext \<in> set (bdev_extension_list s)" "bd_filter new = None" "ext_dev_id new = ext_dev_id ext"
    "ext \<noteq> new"
  shows "refs_ok (\<lambda>g. held g + (if bd_filter ext = Some g then 1 else 0))
    (s\<lparr>bdev_extension_list := remove1 ext (bdev_extension_list s @ [new])\<rparr>)"
proof (rule filter_refs_okI, goal_cases)
  case 1
  let ?l = "bdev_extension_list s"
  have d: "distinct (map ext_dev_id ?l)" using ok by (rule filter_refs_okD)
  from e(1) obtain a b where l: "?l = a @ ext # b" "ext \<notin> set a" by (meson split_list_first)
  have "remove1 ext (?l @ [new]) = a @ b @ [new]" using l by (simp add: remove1_append)
  with d l(1) e(3) show ?case by (auto simp: )
next
  case (2 g)
  have "ext_refs (remove1 ext (bdev_extension_list s @ [new])) g + (if bd_filter ext = Some g then 1 else 0) =
    ext_refs (bdev_extension_list s) g"
    using ext_refs_remove1 [of ext "bdev_extension_list s @ [new]" g] e by simp
  with filter_refs_ok_ref [OF ok, of g] show ?case by (cases "filters s g") (auto split: if_splits)
qed

lemma append_refs:
  assumes ok: "refs_ok held s"
  shows "\<exists>found s'. bdev_extension_append release kz bdev dev s = Ok (found, s') \<and> refs_ok held s' \<and>
    (found \<longrightarrow> bdev_extension_find dev (bdev_extension_list s') \<noteq> None) \<and> (\<not> found \<longrightarrow> s' = s)"
proof -
  let ?l = "bdev_extension_list s" and ?new = "\<lparr>ext_dev_id = dev, ext_bdev = bdev, bd_filter = None\<rparr>"
  consider "\<not> kz" | "kz" "bdev_extension_find dev ?l = None"
    | ext where "kz" "bdev_extension_find dev ?l = Some ext" "ext_bdev ext = bdev"
    | ext where "kz" "bdev_extension_find dev ?l = Some ext" "ext_bdev ext \<noteq> bdev"
    by (cases "bdev_extension_find dev ?l") auto
  then show ?thesis
  proof cases
    case 1
    with ok show ?thesis by (auto simp: bdev_extension_append_def)
  next
    case 2
    have "refs_ok held (s\<lparr>bdev_extension_list := ?l @ [?new]\<rparr>)"
      using ok 2(2) by (auto simp: filter_refs_ok_def find_ext_None)
    moreover have "bdev_extension_find dev (?l @ [?new]) \<noteq> None" by (auto simp: find_ext_None)
    ultimately show ?thesis using 2 by (auto simp: bdev_extension_append_def Let_def)
  next
    case 3
    with ok show ?thesis by (auto simp: bdev_extension_append_def Let_def)
  next
    case 4
    note e = find_ext_SomeD [OF 4(2)]
    have ne: "ext \<noteq> ?new" using 4(3) by auto
    have r: "refs_ok (\<lambda>g. held g + (if bd_filter ext = Some g then 1 else 0))
        (s\<lparr>bdev_extension_list := remove1 ext (?l @ [?new])\<rparr>)"
      by (rule remove_ext_refs [OF ok e(1)]) (use ne e in simp_all)
    have fnd: "bdev_extension_find dev (remove1 ext (?l @ [?new])) \<noteq> None"
      using ne e(1) by (auto simp: find_ext_None remove1_append)
    show ?thesis
    proof (cases "bd_filter ext")
      case None
      with 4 r fnd show ?thesis by (auto simp: bdev_extension_append_def Let_def)
    next
      case (Some f)
      have u: "(\<lambda>g. held g + (if f = g then 1 else 0))(f := held f) = held" by auto
      from put_refs [OF r, of f] Some 4 fnd u show ?thesis
        by (auto simp: bdev_extension_append_def Let_def)
    qed
  qed
qed

lemma attach_refs:
  assumes ok: "refs_ok held s" and h: "0 < held f"
  shows "\<exists>ret s'. bdev_filter_attach release kz bdev dev f s = Ok (ret, s') \<and>
    refs_ok (if ret = None then held(f := held f - 1) else held) s' \<and>
    (ret = None \<longrightarrow> (\<exists>ext. bdev_extension_find dev (bdev_extension_list s') = Some ext \<and> bd_filter ext = Some f)) \<and>
    ret \<in> {None, Some ENOMEM, Some EBUSY}"
proof -
  from append_refs [OF ok, of kz bdev dev] obtain found s1 where
    a: "bdev_extension_append release kz bdev dev s = Ok (found, s1)" "refs_ok held s1"
    "found \<longrightarrow> bdev_extension_find dev (bdev_extension_list s1) \<noteq> None" by blast
  show ?thesis
  proof (cases found)
    case False
    with a show ?thesis by (simp add: bdev_filter_attach_def)
  next
    case True
    then obtain ext where e: "bdev_extension_find dev (bdev_extension_list s1) = Some ext" using a(3) by blast
    show ?thesis
    proof (cases "bd_filter ext")
      case None
      from set_refs [OF a(2) h e None] a(1) True e None show ?thesis
        by (simp add: bdev_filter_attach_def find_set_ext_filter)
    next
      case (Some g)
      with a e True show ?thesis by (simp add: bdev_filter_attach_def)
    qed
  qed
qed

text \<open>Intercepting a bio gives back the reference it takes, whatever the callback does, provided the
  callback keeps the references.\<close>

lemma apply_refs:
  assumes ok: "refs_ok held s"
    and cb: "\<And>f s held. refs_ok held s \<Longrightarrow> 0 < held f \<Longrightarrow> \<exists>res s'. submit_bio f s = Ok (res, s') \<and> refs_ok held s'"
  shows "\<exists>r. bdev_filters_apply release submit_bio nowait bdev s = Ok r \<and>
    (case r of Completed s' \<Rightarrow> refs_ok held s' | Continues s' \<Rightarrow> refs_ok held s'
     | Sleeps s' \<Rightarrow> \<exists>f. refs_ok (held(f := Suc (held f))) s')"
proof -
  from get_by_bdev_refs [OF ok, of bdev] obtain res s1 where
    g: "bdev_filter_get_by_bdev bdev s = Ok (res, s1)"
    "case res of None \<Rightarrow> s1 = s \<and> refs_ok held s1
     | Some f \<Rightarrow> refs_ok (held(f := Suc (held f))) s1 \<and>
         (\<exists>flt. filters s f = Some flt \<and> s1 = s\<lparr>filters := (filters s)(f \<mapsto> flt\<lparr>flt_kref := Suc (flt_kref flt)\<rparr>)\<rparr>)"
    by blast
  show ?thesis
  proof (cases res)
    case None
    with g show ?thesis by (auto simp: bdev_filters_apply_def)
  next
    case (Some f)
    then have r: "refs_ok (held(f := Suc (held f))) s1" using g(2) by simp
    obtain fl where fl: "filters s1 f = Some fl" using filter_refs_okD(4) [OF r, of f] by auto
    show ?thesis
    proof (cases "submit_frozen fl")
      case True
      from put_refs [OF r, of f] obtain s2 where "bdev_filter_put release f s1 = Ok s2" "refs_ok held s2" by auto
      with g(1) Some fl True r show ?thesis by (cases nowait) (auto simp: bdev_filters_apply_def)
    next
      case False
      from cb [OF r, of f] obtain c s2 where c: "submit_bio f s1 = Ok (c, s2)" "refs_ok (held(f := Suc (held f))) s2" by auto
      from put_refs [OF c(2), of f] obtain s3 where "bdev_filter_put release f s2 = Ok s3" "refs_ok held s3" by auto
      with g(1) Some fl False c show ?thesis by (cases c) (auto simp: bdev_filters_apply_def)
    qed
  qed
qed

end

text \<open>What a client may rely on beyond the references: a relation between the states before and after,
  that holds whenever only counts, extensions and the release queue change.\<close>

locale filter_frame = filter_client +
  fixes same :: "('a, 'b) filter_state_scheme \<Rightarrow> ('a, 'b) filter_state_scheme \<Rightarrow> bool"
  assumes same_refl [simp, intro]: "same s s"
    and same_trans: "same s s' \<Longrightarrow> same s' s'' \<Longrightarrow> same s s''"
    and same_kref: "filters s f = Some flt \<Longrightarrow> same s (s\<lparr>filters := (filters s)(f \<mapsto> flt\<lparr>flt_kref := n\<rparr>)\<rparr>)"
    and same_exts: "same s (s\<lparr>bdev_extension_list := l\<rparr>)"
    and same_release: "same s (release f s)"
begin

lemma put_same: "bdev_filter_put release f s = Ok s' \<Longrightarrow> same s s'"
proof -
  assume put: "bdev_filter_put release f s = Ok s'"
  then obtain flt where f: "filters s f = Some flt" by (auto simp: bdev_filter_put_def split: option.splits)
  let ?s = "s\<lparr>filters := (filters s)(f \<mapsto> flt\<lparr>flt_kref := flt_kref flt - 1\<rparr>)\<rparr>"
  have 1: "same s ?s" using same_kref [OF f] .
  have "same s (release f ?s)" using same_trans [OF 1 same_release] .
  with put 1 show ?thesis unfolding put_eq [OF f] Let_def by (auto split: if_splits)
qed

lemma get_same: "bdev_filter_get f s = Ok s' \<Longrightarrow> same s s'"
  using same_kref by (auto simp: bdev_filter_get_def upd_filter_def split: option.splits)

lemma detach_same: "lp_bdev_filter_detach release dev s = Ok (ret, s') \<Longrightarrow> same s s'"
  by (auto simp: lp_bdev_filter_detach_def split: option.splits dest!: bind_outcome_eq_OkD put_same
      intro: same_trans same_exts)

lemma get_by_bdev_same: "bdev_filter_get_by_bdev bdev s = Ok (res, s') \<Longrightarrow> same s s'"
  by (auto simp: bdev_filter_get_by_bdev_def split: option.splits dest!: bind_outcome_eq_OkD get_same)

lemma append_same: "bdev_extension_append release kz bdev dev s = Ok (found, s') \<Longrightarrow> same s s'"
  by (auto simp: bdev_extension_append_def Let_def split: if_splits option.splits
      dest!: bind_outcome_eq_OkD put_same intro: same_trans same_exts)

lemma attach_same: "bdev_filter_attach release kz bdev dev f s = Ok (ret, s') \<Longrightarrow> same s s'"
  by (auto simp: bdev_filter_attach_def split: if_splits option.splits
      dest!: bind_outcome_eq_OkD append_same intro: same_trans [OF _ same_exts])

end

end
