(* ===== verification/Tracker.thy ===== *)
theory Tracker
  imports Bdev_Filter
begin

text \<open>
  Trackers, \<^verbatim>\<open>module/tracker.c\<close> and \<^verbatim>\<open>module/tracker.h\<close>: the filter that stands before every write to an
  original device, marks the change tracking map and starts copy-on-write; its creation, removal and
  release; and the switch of a device into and out of a snapshot.

  A tracker extends the record of its filter.  The state \<open>kern\<close> holds the objects that the module's
  components share, named by numbers: trackers, change tracking maps, difference areas with their
  requests, and difference storages, with the content of the disks and how often each file system is
  frozen.  The copy-on-write code works on the part of the state that belongs to one area, the view
  \<open>cow_of\<close>.  What the kernel answers is in the records \<open>tracker_env\<close> and \<open>submit_answers\<close>.
\<close>

section \<open>State\<close>

record tracker = bdev_filter +
  trk_dev_id :: dev_t
  snapshot_is_taken :: bool
  trk_cbt_map :: "nat option"
  trk_diff_area :: "nat option"
  is_frozen :: bool

record area_object =
  ao_area :: diff_area
  ao_storage :: nat
  ao_inflight :: "(nat \<times> bio) list"
  ao_notify :: "(nat \<times> notify_cb) list"

record kern = "unit tracker_ext filter_state" +
  cbt_maps :: "nat \<Rightarrow> cbt_map option"
  areas :: "nat \<Rightarrow> area_object option"
  storages :: "nat \<Rightarrow> diff_storage option"
  block_disks :: disk
  fs_freezes :: "bdev \<Rightarrow> nat"
  tracked_device_list :: "dev_t list"
  release_list :: "nat list"
  trackers_counter :: nat
  next_object :: nat

text \<open>What the kernel answers: opening a device, its size, freezing and thawing its file system, and the
  allocations.\<close>

record tracker_env =
  te_open :: "dev_t \<Rightarrow> bdev_info result"
  te_nr_sectors :: "bdev \<Rightarrow> sector_t"
  te_freeze :: "bdev \<Rightarrow> bool"
  te_thaw :: "bdev \<Rightarrow> bool"
  te_alloc_dev :: bool
  te_alloc_tracker :: bool
  te_alloc_map :: bool
  te_alloc_ext :: bool
  te_cbt :: "nat \<Rightarrow> cbt_env"

definition MKDEV :: "u32 \<Rightarrow> u32 \<Rightarrow> dev_t" where
  "MKDEV mj mn = unat (push_bit 20 mj OR mn)"

section \<open>The kernel's part\<close>

text \<open>\<^verbatim>\<open>freeze_bdev\<close> and \<^verbatim>\<open>thaw_bdev\<close> nest; the Boolean says that the file system was frozen.  A failed thaw
  is only logged.\<close>

definition freeze_bdev :: "tracker_env \<Rightarrow> bdev \<Rightarrow> kern \<Rightarrow> bool \<times> kern" where
  "freeze_bdev env b k =
     (if te_freeze env b then (True, k\<lparr>fs_freezes := (fs_freezes k)(b := Suc (fs_freezes k b))\<rparr>)
      else (False, k))"

definition thaw_bdev :: "tracker_env \<Rightarrow> bdev \<Rightarrow> kern \<Rightarrow> kern" where
  "thaw_bdev env b k =
     (if te_thaw env b then k\<lparr>fs_freezes := (fs_freezes k)(b := fs_freezes k b - 1)\<rparr> else k)"

definition cow_of :: "kern \<Rightarrow> area_object \<Rightarrow> diff_storage \<Rightarrow> cow" where
  "cow_of k ao ds =
     \<lparr>area = ao_area ao, storage = ds, disks = block_disks k, inflight = ao_inflight ao,
      notify = ao_notify ao\<rparr>"

definition put_cow :: "nat \<Rightarrow> area_object \<Rightarrow> cow \<Rightarrow> kern \<Rightarrow> kern" where
  "put_cow a ao s k =
     k\<lparr>areas := (areas k)(a \<mapsto> ao\<lparr>ao_area := area s, ao_inflight := inflight s, ao_notify := notify s\<rparr>),
       storages := (storages k)(ao_storage ao \<mapsto> storage s),
       block_disks := disks s\<rparr>"

text \<open>Running a function of the difference area.\<close>

definition with_area :: "nat \<Rightarrow> (cow \<Rightarrow> ('a \<times> cow) outcome) \<Rightarrow> kern \<Rightarrow> ('a \<times> kern) outcome" where
  "with_area a f k =
     (case areas k a of
        None \<Rightarrow> Fault
      | Some ao \<Rightarrow>
          (case storages k (ao_storage ao) of
             None \<Rightarrow> Fault
           | Some ds \<Rightarrow> bind_outcome (f (cow_of k ao ds)) (\<lambda>(x, s). Ok (x, put_cow a ao s k))))"

text \<open>Dropping a pointer to an area (which does not need the storage) and to a map; a null pointer is
  ignored.\<close>

definition put_area :: "cow_params \<Rightarrow> nat option \<Rightarrow> kern \<Rightarrow> kern outcome" where
  "put_area P p k =
     (case p of
        None \<Rightarrow> Ok k
      | Some a \<Rightarrow>
          (case areas k a of
             None \<Rightarrow> Fault
           | Some ao \<Rightarrow>
               (case diff_area_put P (cow_of k ao diff_storage_zero) of (s, released) \<Rightarrow>
                  Ok (k\<lparr>areas := (areas k)(a := if released then None else Some (ao\<lparr>ao_area := area s\<rparr>))\<rparr>))))"

definition put_map :: "nat option \<Rightarrow> kern \<Rightarrow> kern outcome" where
  "put_map p k =
     (case p of
        None \<Rightarrow> Ok k
      | Some c \<Rightarrow>
          (case cbt_maps k c of
             None \<Rightarrow> Fault
           | Some m \<Rightarrow> Ok (k\<lparr>cbt_maps := (cbt_maps k)(c := cbt_map_put m)\<rparr>)))"

section \<open>Release\<close>

definition tracker_free :: "cow_params \<Rightarrow> nat \<Rightarrow> kern \<Rightarrow> kern outcome" where
  "tracker_free P t k =
     (case filters k t of
        None \<Rightarrow> Fault
      | Some tr \<Rightarrow>
          bind_outcome (put_area P (trk_diff_area tr) k) (\<lambda>k1.
          bind_outcome (put_map (trk_cbt_map tr) k1) (\<lambda>k2.
            Ok (k2\<lparr>filters := (filters k2)(t := None), trackers_counter := trackers_counter k2 - 1\<rparr>))))"

definition tracker_release :: "nat \<Rightarrow> kern \<Rightarrow> kern" where
  "tracker_release t k = k\<lparr>release_list := release_list k @ [t]\<rparr>"

text \<open>The worker: the trackers are taken from the list one by one and freed.\<close>

fun release_loop :: "cow_params \<Rightarrow> nat list \<Rightarrow> kern \<Rightarrow> kern outcome" where
  "release_loop P [] k = Ok k"
| "release_loop P (t # ts) k = bind_outcome (tracker_free P t (k\<lparr>release_list := ts\<rparr>)) (release_loop P ts)"

definition tracker_release_work :: "cow_params \<Rightarrow> kern \<Rightarrow> kern outcome" where
  "tracker_release_work P k = release_loop P (release_list k) k"

definition tracker_put :: "nat \<Rightarrow> kern \<Rightarrow> kern outcome" where
  "tracker_put t = bdev_filter_put tracker_release t"

definition tracker_get_by_dev :: "bdev_info \<Rightarrow> kern \<Rightarrow> (nat option \<times> kern) outcome" where
  "tracker_get_by_dev info k = bdev_filter_get_by_bdev (bi_bdev info) k"

section \<open>Intercepting a bio\<close>

text \<open>What the filter looks at in a bio: whether it is a bio of the module itself, whether it writes, its
  sectors, whether they count from the start of the whole disk, and whether it may wait.\<close>

record write_bio =
  wb_own :: bool
  wb_write :: bool
  wb_sector :: sector_t
  wb_sectors :: sector_t
  wb_remapped :: bool
  wb_start_sect :: sector_t
  wb_nowait :: bool

text \<open>The answers during one submission; \<open>sa_meanwhile\<close> is what other threads do to the area after the
  module's own bios are submitted, while this one waits for their chunks.\<close>

record submit_answers =
  sa_copy :: "nat \<Rightarrow> answers"
  sa_copy_killed :: "nat \<Rightarrow> bool"
  sa_wait :: "nat \<Rightarrow> answers"
  sa_wait_killed :: "nat \<Rightarrow> bool"
  sa_meanwhile :: "cow \<Rightarrow> cow"

text \<open>The ways \<^verbatim>\<open>tracker_submit_bio\<close> returns.  Only for \<open>WouldBlock\<close> it has completed the bio; in all other
  cases the bio goes on to the device.\<close>

datatype verdict =
    NotFiltered | NotCopied | CopyFailed errno | WaitFailed errno | Copied | WouldBlock

definition verdict_completed :: "verdict \<Rightarrow> bool" where
  "verdict_completed v \<longleftrightarrow> v = WouldBlock"

definition bio_filtered :: "write_bio \<Rightarrow> bool" where
  "bio_filtered b \<longleftrightarrow> \<not> wb_own b \<and> wb_write b \<and> wb_sectors b \<noteq> 0"

definition bio_start :: "write_bio \<Rightarrow> sector_t" where
  "bio_start b = (if wb_remapped b then wb_sector b - wb_start_sect b else wb_sector b)"

text \<open>The part of \<^verbatim>\<open>tracker_submit_bio\<close> that works on the difference area.  If the copy fails, the bios it
  has put on the list of the stack frame are not submitted, and are gone.\<close>

definition submit_copy ::
  "cow_params \<Rightarrow> submit_answers \<Rightarrow> nat \<Rightarrow> nat \<Rightarrow> bool \<Rightarrow> cow \<Rightarrow> (verdict lock_result \<times> cow) outcome" where
  "submit_copy P sa sector cnt nowait s =
     (if diff_area_is_corrupted (area s) then Ok (Returned NotCopied, s)
      else bind_outcome (diff_area_copy P (sa_copy sa) (sa_copy_killed sa) sector cnt nowait s) (\<lambda>(res, s1).
        case res of
          Blocked n \<Rightarrow> Ok (Blocked n, s1)
        | Returned (Some e) \<Rightarrow>
            Ok (Returned (if e = EAGAIN then WouldBlock else CopyFailed e),
                s1\<lparr>inflight := take (length (inflight s)) (inflight s1)\<rparr>)
        | Returned None \<Rightarrow>
            bind_outcome
              (diff_area_wait (sa_wait sa) (sa_wait_killed sa) sector cnt nowait (sa_meanwhile sa s1)) (\<lambda>(res', s2).
              Ok (case res' of
                    Blocked n \<Rightarrow> Blocked n
                  | Returned None \<Rightarrow> Returned Copied
                  | Returned (Some e) \<Rightarrow> Returned (if e = EAGAIN then WouldBlock else WaitFailed e), s2))))"

definition tracker_submit_verdict ::
  "cow_params \<Rightarrow> submit_answers \<Rightarrow> write_bio \<Rightarrow> nat \<Rightarrow> kern \<Rightarrow> (verdict lock_result \<times> kern) outcome" where
  "tracker_submit_verdict P sa b t k =
     (if \<not> bio_filtered b then Ok (Returned NotFiltered, k)
      else case filters k t of
        None \<Rightarrow> Fault
      | Some tr \<Rightarrow>
          (case trk_cbt_map tr of
             None \<Rightarrow> Fault
           | Some c \<Rightarrow>
               (case cbt_maps k c of
                  None \<Rightarrow> Fault
                | Some m \<Rightarrow>
                    bind_outcome (cbt_map_set m (bio_start b) (wb_sectors b)) (\<lambda>(err, m').
                      let k1 = k\<lparr>cbt_maps := (cbt_maps k)(c \<mapsto> m')\<rparr>
                      in if err \<noteq> None \<or> \<not> snapshot_is_taken tr then Ok (Returned NotCopied, k1)
                         else case trk_diff_area tr of
                           None \<Rightarrow> Fault
                         | Some a \<Rightarrow>
                             with_area a
                               (submit_copy P sa (unat (bio_start b)) (unat (wb_sectors b)) (wb_nowait b)) k1))))"

definition tracker_submit_bio ::
  "cow_params \<Rightarrow> submit_answers \<Rightarrow> write_bio \<Rightarrow> nat \<Rightarrow> kern \<Rightarrow> (bool lock_result \<times> kern) outcome" where
  "tracker_submit_bio P sa b t k =
     bind_outcome (tracker_submit_verdict P sa b t k) (\<lambda>(res, k').
       Ok (case res of Blocked n \<Rightarrow> Blocked n | Returned v \<Rightarrow> Returned (verdict_completed v), k'))"

section \<open>Attaching, detaching, creating\<close>

definition upd_tracker :: "nat \<Rightarrow> (tracker \<Rightarrow> tracker) \<Rightarrow> kern \<Rightarrow> kern outcome" where
  "upd_tracker t g k = upd_filter t g k"

definition tracker_filter_attach :: "tracker_env \<Rightarrow> bdev_info \<Rightarrow> nat \<Rightarrow> kern \<Rightarrow> (ret \<times> kern) outcome" where
  "tracker_filter_attach env info t k =
     (case freeze_bdev env (bi_bdev info) k of (frozen, k1) \<Rightarrow>
      bind_outcome (if frozen then upd_tracker t (\<lambda>tr. tr\<lparr>is_frozen := True\<rparr>) k1 else Ok k1) (\<lambda>k2.
      bind_outcome (bdev_filter_attach tracker_release (te_alloc_ext env) (bi_bdev info) (bi_dev_id info) t k2)
        (\<lambda>(ret, k3).
      case filters k3 t of
        None \<Rightarrow> Fault
      | Some tr \<Rightarrow>
          if is_frozen tr
          then bind_outcome (upd_tracker t (\<lambda>tr. tr\<lparr>is_frozen := False\<rparr>) k3)
                 (\<lambda>k4. Ok (ret, thaw_bdev env (bi_bdev info) k4))
          else Ok (ret, k3))))"

definition tracker_filter_detach :: "tracker_env \<Rightarrow> bdev_info \<Rightarrow> kern \<Rightarrow> kern outcome" where
  "tracker_filter_detach env info k =
     (case freeze_bdev env (bi_bdev info) k of (frozen, k1) \<Rightarrow>
      bind_outcome (bdev_filter_detach tracker_release (bi_dev_id info) k1) (\<lambda>k2.
        Ok (if frozen then thaw_bdev env (bi_bdev info) k2 else k2)))"

definition tracker_zero :: tracker where
  "tracker_zero =
     \<lparr>flt_kref = 0, submit_frozen = False, trk_dev_id = 0, snapshot_is_taken = False,
      trk_cbt_map = None, trk_diff_area = None, is_frozen = False\<rparr>"

definition tracker_new ::
  "cbt_params \<Rightarrow> tracker_env \<Rightarrow> bdev_info \<Rightarrow> kern \<Rightarrow> (nat result \<times> kern) outcome" where
  "tracker_new p env info k =
     (if \<not> te_alloc_tracker env then Ok (Inl ENOMEM, k)
      else
        let t = next_object k;
            k1 = k\<lparr>filters := (filters k)(t \<mapsto> (bdev_filter_init tracker_zero)\<lparr>trk_dev_id := bi_dev_id info\<rparr>),
                   trackers_counter := Suc (trackers_counter k), next_object := Suc t\<rparr>;
            fail = (\<lambda>e k'. bind_outcome (tracker_put t k') (\<lambda>k''. Ok (Inl e, k'')))
        in bind_outcome (cbt_map_create p (te_cbt env t) (te_alloc_map env) (bi_nr_sectors info)) (\<lambda>mp.
           case mp of
             None \<Rightarrow> fail ENOMEM k1
           | Some m \<Rightarrow>
               bind_outcome
                 (upd_tracker t (\<lambda>tr. tr\<lparr>trk_cbt_map := Some t, is_frozen := False\<rparr>)
                    (k1\<lparr>cbt_maps := (cbt_maps k1)(t \<mapsto> m)\<rparr>)) (\<lambda>k2.
               bind_outcome (tracker_filter_attach env info t k2) (\<lambda>(ret, k3).
               case ret of
                 Some e \<Rightarrow> fail e k3
               | None \<Rightarrow> Ok (Inr t, k3)))))"

section \<open>Snapshots of a device\<close>

definition tracker_take_snapshot ::
  "cbt_params \<Rightarrow> tracker_env \<Rightarrow> nat \<Rightarrow> kern \<Rightarrow> (ret \<times> kern) outcome" where
  "tracker_take_snapshot p env t k =
     (case filters k t of
        None \<Rightarrow> Fault
      | Some tr \<Rightarrow>
          (case trk_diff_area tr of
             None \<Rightarrow> Fault
           | Some a \<Rightarrow>
               (case areas k a of
                  None \<Rightarrow> Fault
                | Some ao \<Rightarrow>
                    bind_outcome (bdevfilter_freeze_queue t k) (\<lambda>k1.
                    case trk_cbt_map tr of
                      None \<Rightarrow> Fault
                    | Some c \<Rightarrow>
                        (case cbt_maps k1 c of
                           None \<Rightarrow> Fault
                         | Some m \<Rightarrow>
                             let capacity = te_nr_sectors env (orig_bdev (ao_area ao))
                             in bind_outcome
                                  (if is_corrupted m \<or> device_capacity m \<noteq> capacity
                                   then cbt_map_reset p (te_cbt env t) m capacity
                                   else Ok (None, m)) (\<lambda>(ret, m1).
                                  let k2 = k1\<lparr>cbt_maps := (cbt_maps k1)(c \<mapsto> m1)\<rparr>
                                  in if ret \<noteq> None then Ok (ret, k2)
                                     else bind_outcome (cbt_map_switch (random_uuid (te_cbt env t)) m1) (\<lambda>m2.
                                          bind_outcome
                                            (upd_tracker t (\<lambda>tr. tr\<lparr>snapshot_is_taken := True\<rparr>)
                                               (k2\<lparr>cbt_maps := (cbt_maps k2)(c \<mapsto> m2)\<rparr>)) (\<lambda>k3.
                                          bind_outcome (bdevfilter_unfreeze_queue t k3) (\<lambda>k4.
                                            Ok (None, k4))))))))))"

definition tracker_release_snapshot :: "nat \<Rightarrow> kern \<Rightarrow> kern outcome" where
  "tracker_release_snapshot t k =
     bind_outcome (bdevfilter_freeze_queue t k) (\<lambda>k1.
     bind_outcome (upd_tracker t (\<lambda>tr. tr\<lparr>snapshot_is_taken := False\<rparr>) k1) (\<lambda>k2.
       bdevfilter_unfreeze_queue t k2))"

section \<open>The interface of the module\<close>

definition tracker_create_or_get ::
  "cbt_params \<Rightarrow> tracker_env \<Rightarrow> dev_t \<Rightarrow> kern \<Rightarrow> (nat result \<times> kern) outcome" where
  "tracker_create_or_get p env dev_id k =
     (case te_open env dev_id of
        Inl e \<Rightarrow> Ok (Inl e, k)
      | Inr info \<Rightarrow>
          bind_outcome (tracker_get_by_dev info k) (\<lambda>(found, k1).
          case found of
            Some t \<Rightarrow> Ok (Inr t, k1)
          | None \<Rightarrow>
              if \<not> te_alloc_dev env then Ok (Inl ENOMEM, k1)
              else bind_outcome (tracker_new p env info k1) (\<lambda>(res, k2).
                   case res of
                     Inl e \<Rightarrow> Ok (Inl e, k2)
                   | Inr t \<Rightarrow>
                       bind_outcome (bdev_filter_get t k2) (\<lambda>k3.
                         Ok (Inr t, k3\<lparr>tracked_device_list := tracked_device_list k3 @ [dev_id]\<rparr>)))))"

text \<open>On its successful path \<^verbatim>\<open>tracker_remove\<close> returns a variable that it has never assigned: \<open>garbage\<close>.\<close>

definition tracker_remove :: "tracker_env \<Rightarrow> ret \<Rightarrow> dev_t \<Rightarrow> kern \<Rightarrow> (ret \<times> kern) outcome" where
  "tracker_remove env garbage dev_id k =
     (case te_open env dev_id of
        Inl e \<Rightarrow> lp_bdev_filter_detach tracker_release dev_id k
      | Inr info \<Rightarrow>
          bind_outcome (tracker_get_by_dev info k) (\<lambda>(found, k1).
          case found of
            None \<Rightarrow> Ok (Some ENODATA, k1)
          | Some t \<Rightarrow>
              (case filters k1 t of
                 None \<Rightarrow> Fault
               | Some tr \<Rightarrow>
                   if snapshot_is_taken tr
                   then bind_outcome (tracker_put t k1) (\<lambda>k2. Ok (Some EBUSY, k2))
                   else bind_outcome (tracker_filter_detach env info k1) (\<lambda>k2.
                        bind_outcome
                          (tracker_put t (k2\<lparr>tracked_device_list := remove1 dev_id (tracked_device_list k2)\<rparr>)) (\<lambda>k3.
                          Ok (garbage, k3))))))"

definition tracker_init :: "kern \<Rightarrow> kern" where
  "tracker_init k = k\<lparr>release_list := []\<rparr>"

text \<open>The wait ends when the counter is back to 1.  Only the worker lowers it, so after the worker has
  emptied its list it is there or will never be: \<open>None\<close>.\<close>

definition tracker_wait_for_release :: "cow_params \<Rightarrow> kern \<Rightarrow> kern option outcome" where
  "tracker_wait_for_release P k =
     bind_outcome (tracker_release_work P k) (\<lambda>k'. Ok (if trackers_counter k' \<le> 1 then Some k' else None))"

text \<open>The loop of \<^verbatim>\<open>tracker_done\<close> takes one device from the list in each turn, so the length of the list is
  enough fuel.\<close>

fun remove_devices :: "tracker_env \<Rightarrow> nat \<Rightarrow> kern \<Rightarrow> kern outcome" where
  "remove_devices env fuel k =
     (case tracked_device_list k of
        [] \<Rightarrow> Ok k
      | dev_id # devs \<Rightarrow>
          (case fuel of
             0 \<Rightarrow> Fault
           | Suc fuel' \<Rightarrow>
               bind_outcome (tracker_remove env None dev_id (k\<lparr>tracked_device_list := devs\<rparr>))
                 (\<lambda>(_, k'). remove_devices env fuel' k')))"

declare remove_devices.simps [simp del]

definition tracker_done :: "cow_params \<Rightarrow> tracker_env \<Rightarrow> kern \<Rightarrow> kern option outcome" where
  "tracker_done P env k =
     bind_outcome (remove_devices env (length (tracked_device_list k)) k) (tracker_wait_for_release P)"

definition tracker_read_cbt_bitmap ::
  "tracker_env \<Rightarrow> dev_t \<Rightarrow> u32 \<Rightarrow> u64 \<Rightarrow> u64 \<Rightarrow> kern \<Rightarrow> ((errno + u8 list \<times> u64) \<times> kern) outcome" where
  "tracker_read_cbt_bitmap env dev_id offset len not_copied k =
     (case te_open env dev_id of
        Inl e \<Rightarrow> Ok (Inl e, k)
      | Inr info \<Rightarrow>
          bind_outcome (tracker_get_by_dev info k) (\<lambda>(found, k1).
          case found of
            None \<Rightarrow> Ok (Inl ENODATA, k1)
          | Some t \<Rightarrow>
              (case filters k1 t of
                 None \<Rightarrow> Fault
               | Some tr \<Rightarrow>
                   bind_outcome
                     (if \<not> snapshot_is_taken tr then Ok (Inl EPERM)
                      else case trk_cbt_map tr of
                        None \<Rightarrow> Fault
                      | Some c \<Rightarrow>
                          (case cbt_maps k1 c of
                             None \<Rightarrow> Fault
                           | Some m \<Rightarrow> cbt_map_read_to_user m (ucast offset) len not_copied)) (\<lambda>res.
                   bind_outcome (tracker_put t k1) (\<lambda>k2. Ok (res, k2))))))"

record cbt_info =
  ci_mj :: u32
  ci_mn :: u32
  ci_device_capacity :: u64
  ci_blk_size :: u32
  ci_blk_count :: u32
  ci_snap_number :: u8
  ci_generation_id :: uuid

definition cbt_info_zero :: cbt_info where
  "cbt_info_zero =
     \<lparr>ci_mj = 0, ci_mn = 0, ci_device_capacity = 0, ci_blk_size = 0, ci_blk_count = 0,
      ci_snap_number = 0, ci_generation_id = 0\<rparr>"

definition fill_cbt_info :: "cbt_map \<Rightarrow> cbt_info \<Rightarrow> cbt_info outcome" where
  "fill_cbt_info m ci =
     bind_outcome (cbt_map_blk_size m) (\<lambda>size.
       Ok (ci\<lparr>ci_device_capacity := push_bit SECTOR_SHIFT (device_capacity m), ci_blk_size := ucast size,
              ci_blk_count := ucast (blk_count m), ci_snap_number := ucast (snap_number_previous m),
              ci_generation_id := generation_id m\<rparr>))"

definition collect_cbt_info :: "tracker_env \<Rightarrow> dev_t \<Rightarrow> cbt_info \<Rightarrow> kern \<Rightarrow> (cbt_info \<times> kern) outcome" where
  "collect_cbt_info env dev_id ci k =
     (case te_open env dev_id of
        Inl e \<Rightarrow> Ok (ci, k)
      | Inr info \<Rightarrow>
          bind_outcome (tracker_get_by_dev info k) (\<lambda>(found, k1).
          case found of
            None \<Rightarrow> Ok (ci, k1)
          | Some t \<Rightarrow>
              (case filters k1 t of
                 None \<Rightarrow> Fault
               | Some tr \<Rightarrow>
                   bind_outcome
                     (case trk_cbt_map tr of
                        None \<Rightarrow> Ok ci
                      | Some c \<Rightarrow> (case cbt_maps k1 c of None \<Rightarrow> Fault | Some m \<Rightarrow> fill_cbt_info m ci)) (\<lambda>ci'.
                   bind_outcome (tracker_put t k1) (\<lambda>k2. Ok (ci', k2))))))"

fun collect_loop :: "tracker_env \<Rightarrow> cbt_info list \<Rightarrow> kern \<Rightarrow> (cbt_info list \<times> kern) outcome" where
  "collect_loop env [] k = Ok ([], k)"
| "collect_loop env (ci # cis) k =
     bind_outcome (collect_cbt_info env (MKDEV (ci_mj ci) (ci_mn ci)) ci k) (\<lambda>(ci', k1).
     bind_outcome (collect_loop env cis k1) (\<lambda>(cis', k2). Ok (ci' # cis', k2)))"

text \<open>\<^verbatim>\<open>tracker_collect\<close>: without a buffer only the number of devices, otherwise the entries written.\<close>

definition tracker_collect ::
  "tracker_env \<Rightarrow> int \<Rightarrow> bool \<Rightarrow> kern \<Rightarrow> ((errno + nat \<times> cbt_info list) \<times> kern) outcome" where
  "tracker_collect env max_count has_buffer k =
     (let devs = tracked_device_list k
      in if \<not> has_buffer then Ok (Inr (length devs, []), k)
         else if devs \<noteq> [] \<and> max_count < int (length devs) then Ok (Inl ENOBUFS, k)
         else bind_outcome
                (collect_loop env
                   (map (\<lambda>d. cbt_info_zero\<lparr>ci_mj := of_nat (MAJOR d), ci_mn := of_nat (MINOR d)\<rparr>) devs) k)
                (\<lambda>(cis, k'). Ok (Inr (length devs, cis), k')))"

definition tracker_mark_dirty_blocks ::
  "tracker_env \<Rightarrow> dev_t \<Rightarrow> (u64 \<times> u64) list \<Rightarrow> kern \<Rightarrow> (ret \<times> kern) outcome" where
  "tracker_mark_dirty_blocks env dev_id ranges k =
     (case te_open env dev_id of
        Inl e \<Rightarrow> Ok (Some e, k)
      | Inr info \<Rightarrow>
          bind_outcome (tracker_get_by_dev info k) (\<lambda>(found, k1).
          case found of
            None \<Rightarrow> Ok (Some ENODEV, k1)
          | Some t \<Rightarrow>
              (case filters k1 t of
                 None \<Rightarrow> Fault
               | Some tr \<Rightarrow>
                   (case trk_cbt_map tr of
                      None \<Rightarrow> Fault
                    | Some c \<Rightarrow>
                        (case cbt_maps k1 c of
                           None \<Rightarrow> Fault
                         | Some m \<Rightarrow>
                             bind_outcome (cbt_map_mark_dirty_blocks m ranges) (\<lambda>(ret, m').
                             bind_outcome (tracker_put t (k1\<lparr>cbt_maps := (cbt_maps k1)(c \<mapsto> m')\<rparr>)) (\<lambda>k2.
                               Ok (ret, k2))))))))"

section \<open>References and objects\<close>

interpretation trk: filter_client tracker_release "\<lambda>k. set (release_list k)"
  by unfold_locales (simp_all add: tracker_release_def)

text \<open>A tracker that is not waiting for its release has a change tracking map of its own.\<close>

definition tracker_obj_ok :: "kern \<Rightarrow> nat \<Rightarrow> tracker \<Rightarrow> bool" where
  "tracker_obj_ok k t tr \<longleftrightarrow>
     t < next_object k \<and>
     (trk_cbt_map tr = None \<longrightarrow> t \<in> set (release_list k)) \<and>
     (\<forall>c. trk_cbt_map tr = Some c \<longrightarrow> c = t \<and> (\<exists>m. cbt_maps k t = Some m \<and> cbt_wf m)) \<and>
     (\<forall>a. trk_diff_area tr = Some a \<longrightarrow> areas k a \<noteq> None)"

definition objects_ok :: "kern \<Rightarrow> bool" where
  "objects_ok k \<longleftrightarrow>
     finite (dom (filters k)) \<and> trackers_counter k = Suc (card (dom (filters k))) \<and>
     (\<forall>t tr. filters k t = Some tr \<longrightarrow> tracker_obj_ok k t tr) \<and>
     (\<forall>t t' tr tr' a. filters k t = Some tr \<longrightarrow> filters k t' = Some tr' \<longrightarrow>
        trk_diff_area tr = Some a \<longrightarrow> trk_diff_area tr' = Some a \<longrightarrow> t = t')"

definition trackers_ok :: "(nat \<Rightarrow> nat) \<Rightarrow> kern \<Rightarrow> bool" where
  "trackers_ok held k \<longleftrightarrow>
     filter_refs_ok (set (release_list k)) held k \<and> distinct (release_list k) \<and> objects_ok k"

text \<open>What the filter code leaves as it is.\<close>

definition strip_refs :: "tracker \<Rightarrow> tracker" where
  "strip_refs tr = tr\<lparr>flt_kref := 0\<rparr>"

definition same_objects :: "kern \<Rightarrow> kern \<Rightarrow> bool" where
  "same_objects k k' \<longleftrightarrow>
     (\<forall>t. map_option strip_refs (filters k' t) = map_option strip_refs (filters k t)) \<and>
     set (release_list k) \<subseteq> set (release_list k') \<and>
     cbt_maps k' = cbt_maps k \<and> areas k' = areas k \<and> storages k' = storages k \<and> block_disks k' = block_disks k \<and>
     fs_freezes k' = fs_freezes k \<and> tracked_device_list k' = tracked_device_list k \<and>
     trackers_counter k' = trackers_counter k \<and> next_object k' = next_object k"

lemma strip_refs_eqD:
  assumes "strip_refs tr' = strip_refs tr"
  shows "trk_dev_id tr' = trk_dev_id tr" "snapshot_is_taken tr' = snapshot_is_taken tr"
    "trk_cbt_map tr' = trk_cbt_map tr" "trk_diff_area tr' = trk_diff_area tr" "is_frozen tr' = is_frozen tr"
    "submit_frozen tr' = submit_frozen tr"
  using assms by (cases tr; cases tr'; simp add: strip_refs_def)+

lemma same_objects_tracker:
  assumes "same_objects k k'" "filters k' t = Some tr'"
  shows "\<exists>tr. filters k t = Some tr \<and> strip_refs tr' = strip_refs tr"
proof -
  have "map_option strip_refs (filters k' t) = map_option strip_refs (filters k t)" using assms(1) by (simp add: same_objects_def)
  with assms(2) show ?thesis by (cases "filters k t") auto
qed

lemma same_objects_refl [simp]: "same_objects k k"
  by (simp add: same_objects_def)

interpretation trk: filter_frame tracker_release "\<lambda>k. set (release_list k)" same_objects
  by unfold_locales (auto simp: same_objects_def tracker_release_def strip_refs_def)

lemma same_objects_dom: "same_objects k k' \<Longrightarrow> dom (filters k') = dom (filters k)"
  unfolding same_objects_def dom_def by (metis option.map_disc_iff)

lemma objects_okD: "objects_ok k \<Longrightarrow> filters k t = Some tr \<Longrightarrow> tracker_obj_ok k t tr"
  by (simp add: objects_ok_def)

lemma objects_ok_inj:
  "objects_ok k \<Longrightarrow> filters k t = Some tr \<Longrightarrow> filters k t' = Some tr' \<Longrightarrow> trk_diff_area tr = Some a \<Longrightarrow>
     trk_diff_area tr' = Some a \<Longrightarrow> t = t'"
  unfolding objects_ok_def by blast

lemma objects_okI:
  assumes "finite (dom (filters k))" "trackers_counter k = Suc (card (dom (filters k)))"
    and "\<And>t tr. filters k t = Some tr \<Longrightarrow> tracker_obj_ok k t tr"
    and "\<And>t t' tr tr' a. filters k t = Some tr \<Longrightarrow> filters k t' = Some tr' \<Longrightarrow> trk_diff_area tr = Some a \<Longrightarrow>
      trk_diff_area tr' = Some a \<Longrightarrow> t = t'"
  shows "objects_ok k"
  unfolding objects_ok_def using assms by (intro conjI allI impI)

lemma objects_ok_count:
  "objects_ok k \<Longrightarrow> finite (dom (filters k))" "objects_ok k \<Longrightarrow> trackers_counter k = Suc (card (dom (filters k)))"
  by (simp_all add: objects_ok_def)

lemma objects_ok_same:
  assumes ok: "objects_ok k" and s: "same_objects k k'"
  shows "objects_ok k'"
proof -
  have st: "\<exists>tr. filters k t = Some tr \<and> trk_cbt_map tr' = trk_cbt_map tr \<and> trk_diff_area tr' = trk_diff_area tr"
    if "filters k' t = Some tr'" for t tr'
    using same_objects_tracker [OF s that] strip_refs_eqD by blast
  have rest: "set (release_list k) \<subseteq> set (release_list k')" "cbt_maps k' = cbt_maps k" "areas k' = areas k"
    "trackers_counter k' = trackers_counter k" "next_object k' = next_object k"
    using s by (simp_all add: same_objects_def)
  have "tracker_obj_ok k' t tr'" if "filters k' t = Some tr'" for t tr'
  proof -
    from st [OF that] obtain tr where "filters k t = Some tr" "trk_cbt_map tr' = trk_cbt_map tr" "trk_diff_area tr' = trk_diff_area tr"
      by blast
    with objects_okD [OF ok, of t tr] rest show ?thesis by (auto simp: tracker_obj_ok_def split: option.splits)
  qed
  moreover have "t = t'" if "filters k' t = Some tr" "filters k' t' = Some tr'" "trk_diff_area tr = Some a" "trk_diff_area tr' = Some a"
    for t t' tr tr' a
    using st [OF that(1)] st [OF that(2)] that(3,4) objects_ok_inj [OF ok] by metis
  ultimately show ?thesis
    using ok rest same_objects_dom [OF s] unfolding objects_ok_def by auto
qed

text \<open>The operations of the filter that the tracker code uses.\<close>

lemma put_distinct:
  assumes "filter_refs_ok (set (release_list k)) held k" "distinct (release_list k)" "0 < held t" "bdev_filter_put tracker_release t k = Ok k'"
  shows "distinct (release_list k')"
proof -
  obtain tr where f: "filters k t = Some tr" using filter_refs_okD(4) [OF assms(1,3)] by blast
  have "t \<notin> set (release_list k)" using filter_refs_okD(2,3) [OF assms(1) f] assms(3) by auto
  with assms(2,4) show ?thesis
    unfolding trk.put_eq [OF f] Let_def by (auto simp: tracker_release_def split: if_splits)
qed

lemma tracker_put_ok:
  assumes ok: "trackers_ok held k" and h: "0 < held t"
  shows "\<exists>k'. tracker_put t k = Ok k' \<and> trackers_ok (held(t := held t - 1)) k' \<and> same_objects k k'"
proof -
  have r: "filter_refs_ok (set (release_list k)) held k" "distinct (release_list k)" "objects_ok k"
    using ok by (simp_all add: trackers_ok_def)
  from trk.put_refs [OF r(1) h] obtain k' where p: "bdev_filter_put tracker_release t k = Ok k'"
    "filter_refs_ok (set (release_list k')) (held(t := held t - 1)) k'" by blast
  have s: "same_objects k k'" using trk.put_same [OF p(1)] .
  show ?thesis
    unfolding tracker_put_def trackers_ok_def
    using p s objects_ok_same [OF r(3) s] put_distinct [OF r(1,2) h p(1)] by blast
qed

lemma tracker_get_ok:
  assumes ok: "trackers_ok held k" and h: "0 < held t \<or> 0 < ext_refs (bdev_extension_list k) t"
  shows "\<exists>k'. bdev_filter_get t k = Ok k' \<and> trackers_ok (held(t := Suc (held t))) k' \<and> same_objects k k'"
proof -
  have r: "filter_refs_ok (set (release_list k)) held k" "distinct (release_list k)" "objects_ok k"
    using ok by (simp_all add: trackers_ok_def)
  from trk.get_refs [OF r(1), of t] h obtain tr k' where g: "bdev_filter_get t k = Ok k'"
    "filter_refs_ok (set (release_list k')) (held(t := Suc (held t))) k'"
    "k' = k\<lparr>filters := (filters k)(t \<mapsto> tr\<lparr>flt_kref := Suc (flt_kref tr)\<rparr>)\<rparr>" by blast
  have s: "same_objects k k'" using trk.get_same [OF g(1)] .
  have "release_list k' = release_list k" by (simp add: g(3))
  with g(1,2) s objects_ok_same [OF r(3) s] r(2) show ?thesis unfolding trackers_ok_def by auto
qed

lemma tracker_get_by_dev_ok:
  assumes ok: "trackers_ok held k"
  shows "\<exists>found k'. tracker_get_by_dev info k = Ok (found, k') \<and> same_objects k k' \<and>
    (case found of
       None \<Rightarrow> k' = k \<and> trackers_ok held k'
     | Some t \<Rightarrow> trackers_ok (held(t := Suc (held t))) k' \<and> (\<exists>tr. filters k' t = Some tr))"
proof -
  have r: "filter_refs_ok (set (release_list k)) held k" "distinct (release_list k)" "objects_ok k"
    using ok by (simp_all add: trackers_ok_def)
  from trk.get_by_bdev_refs [OF r(1), of "bi_bdev info"] obtain res k' where
    g: "bdev_filter_get_by_bdev (bi_bdev info) k = Ok (res, k')"
    "case res of None \<Rightarrow> k' = k \<and> filter_refs_ok (set (release_list k')) held k'
     | Some f \<Rightarrow> filter_refs_ok (set (release_list k')) (held(f := Suc (held f))) k' \<and>
         (\<exists>flt. filters k f = Some flt \<and> k' = k\<lparr>filters := (filters k)(f \<mapsto> flt\<lparr>flt_kref := Suc (flt_kref flt)\<rparr>)\<rparr>)"
    by blast
  have s: "same_objects k k'" using trk.get_by_bdev_same [OF g(1)] .
  show ?thesis
  proof (cases res)
    case None
    with g s ok show ?thesis by (auto simp: tracker_get_by_dev_def)
  next
    case (Some t)
    with g(2) obtain tr where "filter_refs_ok (set (release_list k')) (held(t := Suc (held t))) k'"
      "k' = k\<lparr>filters := (filters k)(t \<mapsto> tr\<lparr>flt_kref := Suc (flt_kref tr)\<rparr>)\<rparr>" by auto
    moreover have "trackers_ok (held(t := Suc (held t))) k'"
      using calculation objects_ok_same [OF r(3) s] r(2) by (auto simp: trackers_ok_def)
    ultimately show ?thesis using g(1) s Some by (auto simp: tracker_get_by_dev_def)
  qed
qed

section \<open>Every operation keeps them\<close>

lemma trackers_ok_simps [simp]:
  "trackers_ok held (k\<lparr>fs_freezes := x\<rparr>) = trackers_ok held k"
  "trackers_ok held (k\<lparr>tracked_device_list := d\<rparr>) = trackers_ok held k"
  "trackers_ok held (k\<lparr>block_disks := dk\<rparr>) = trackers_ok held k"
  "trackers_ok held (k\<lparr>storages := ss\<rparr>) = trackers_ok held k"
  by (simp_all add: trackers_ok_def filter_refs_ok_def objects_ok_def tracker_obj_ok_def)

lemma trackers_ok_thaw [simp]: "trackers_ok held (thaw_bdev env b k) = trackers_ok held k"
  by (simp add: thaw_bdev_def)

lemma trackers_ok_live:
  assumes "trackers_ok held k" "0 < held t"
  shows "\<exists>tr. filters k t = Some tr \<and> tracker_obj_ok k t tr \<and> t \<notin> set (release_list k)"
proof -
  have r: "filter_refs_ok (set (release_list k)) held k" "objects_ok k" using assms(1) by (simp_all add: trackers_ok_def)
  obtain tr where f: "filters k t = Some tr" using filter_refs_okD(4) [OF r(1) assms(2)] by blast
  with filter_refs_okD(2,3) [OF r(1) f] assms(2) objects_okD [OF r(2) f] show ?thesis by auto
qed

text \<open>Changing the flags of a tracker.\<close>

lemma trackers_ok_flags:
  assumes ok: "trackers_ok held k" and f: "filters k t = Some tr"
    and e: "flt_kref tr' = flt_kref tr" "trk_cbt_map tr' = trk_cbt_map tr" "trk_diff_area tr' = trk_diff_area tr"
  shows "trackers_ok held (k\<lparr>filters := (filters k)(t \<mapsto> tr')\<rparr>)"
proof -
  let ?k = "k\<lparr>filters := (filters k)(t \<mapsto> tr')\<rparr>"
  have r: "filter_refs_ok (set (release_list k)) held k" "distinct (release_list k)" "objects_ok k"
    using ok by (simp_all add: trackers_ok_def)
  have old: "\<exists>y. filters k v = Some y \<and> trk_diff_area y = trk_diff_area z \<and> trk_cbt_map y = trk_cbt_map z"
    if "filters ?k v = Some z" for v z
    using that f e(2,3) by (auto split: if_splits)
  have d: "dom (filters ?k) = dom (filters k)" using f by auto
  have "ref_ok (filters ?k g) (ext_refs (bdev_extension_list ?k) g) (held g) (g \<in> set (release_list ?k))" for g
    using filter_refs_ok_ref [OF r(1), of g] f e(1) by (cases "g = t") simp_all
  then have "filter_refs_ok (set (release_list ?k)) held ?k"
    using filter_refs_okD(1) [OF r(1)] by (intro filter_refs_okI) simp_all
  moreover have "objects_ok ?k"
  proof (rule objects_okI)
    show "finite (dom (filters ?k))" "trackers_counter ?k = Suc (card (dom (filters ?k)))"
      unfolding d using objects_ok_count [OF r(3)] by simp_all
    show "tracker_obj_ok ?k u x" if "filters ?k u = Some x" for u x
      using old [OF that] objects_okD [OF r(3), of u] by (auto simp: tracker_obj_ok_def)
    show "u = u'" if "filters ?k u = Some x" "filters ?k u' = Some x'" "trk_diff_area x = Some a" "trk_diff_area x' = Some a"
      for u u' x x' a
      using old [OF that(1)] old [OF that(2)] that(3,4) objects_ok_inj [OF r(3)] by metis
  qed
  ultimately show ?thesis using r(2) by (simp add: trackers_ok_def)
qed

text \<open>Changing the map of a tracker.\<close>

lemma trackers_ok_map:
  assumes ok: "trackers_ok held k" and m: "cbt_wf m"
  shows "trackers_ok held (k\<lparr>cbt_maps := (cbt_maps k)(c \<mapsto> m)\<rparr>)"
proof -
  have o: "objects_ok k" using ok by (simp add: trackers_ok_def)
  have "tracker_obj_ok (k\<lparr>cbt_maps := (cbt_maps k)(c \<mapsto> m)\<rparr>) t tr" if "filters k t = Some tr" for t tr
    using objects_okD [OF o that] m by (auto simp: tracker_obj_ok_def split: option.splits)
  then show ?thesis using ok by (simp add: trackers_ok_def objects_ok_def filter_refs_ok_def)
qed

lemma fresh_tracker:
  assumes "trackers_ok held k"
  shows "filters k (next_object k) = None" "held (next_object k) = 0" "next_object k \<notin> set (release_list k)"
    "ext_refs (bdev_extension_list k) (next_object k) = 0"
proof -
  have r: "filter_refs_ok (set (release_list k)) held k" "objects_ok k" using assms by (simp_all add: trackers_ok_def)
  show n: "filters k (next_object k) = None"
    using objects_okD [OF r(2), of "next_object k"] by (cases "filters k (next_object k)") (auto simp: tracker_obj_ok_def)
  show "held (next_object k) = 0" "next_object k \<notin> set (release_list k)" "ext_refs (bdev_extension_list k) (next_object k) = 0"
    using filter_refs_ok_ref [OF r(1), of "next_object k"] n by simp_all
qed

text \<open>A new tracker: with a map and one reference, or already waiting for its release.\<close>

lemma add_tracker:
  assumes ok: "trackers_ok held k" and t: "t = next_object k" and a: "trk_diff_area tr = None"
    and k': "k' = k\<lparr>filters := (filters k)(t \<mapsto> tr), trackers_counter := Suc (trackers_counter k), next_object := Suc t,
        cbt_maps := maps, release_list := rl\<rparr>"
    and new: "flt_kref tr = 1 \<and> rl = release_list k \<and> trk_cbt_map tr = Some t \<and> maps = (cbt_maps k)(t \<mapsto> m) \<and> cbt_wf m \<or>
      flt_kref tr = 0 \<and> rl = release_list k @ [t] \<and> trk_cbt_map tr = None \<and> maps = cbt_maps k"
  shows "trackers_ok (held(t := flt_kref tr)) k'"
proof -
  have r: "filter_refs_ok (set (release_list k)) held k" "distinct (release_list k)" "objects_ok k"
    using ok by (simp_all add: trackers_ok_def)
  note fr = fresh_tracker [OF ok, folded t]
  have "ref_ok (filters k' g) (ext_refs (bdev_extension_list k') g) ((held(t := flt_kref tr)) g) (g \<in> set (release_list k'))" for g
    using filter_refs_ok_ref [OF r(1), of g] fr(3,4) new by (cases "g = t") (auto simp: k')
  then have "filter_refs_ok (set (release_list k')) (held(t := flt_kref tr)) k'"
    using filter_refs_okD(1) [OF r(1)] by (intro filter_refs_okI) (simp_all add: k')
  moreover have "distinct (release_list k')" using r(2) fr(3) new by (auto simp: k')
  moreover have "objects_ok k'"
  proof (rule objects_okI)
    have d: "dom (filters k') = insert t (dom (filters k))" by (auto simp: k')
    show "finite (dom (filters k'))" using objects_ok_count [OF r(3)] by (simp add: d)
    show "trackers_counter k' = Suc (card (dom (filters k')))"
      unfolding d using objects_ok_count [OF r(3)] fr(1) by (simp add: k' domIff)
    show "tracker_obj_ok k' u x" if "filters k' u = Some x" for u x
    proof (cases "u = t")
      case True
      with that new a show ?thesis by (auto simp: k' tracker_obj_ok_def)
    next
      case False
      with that have "tracker_obj_ok k u x" using objects_okD [OF r(3)] by (simp add: k')
      with False new t show ?thesis by (auto simp: k' tracker_obj_ok_def)
    qed
    show "u = u'" if "filters k' u = Some x" "filters k' u' = Some x'" "trk_diff_area x = Some b" "trk_diff_area x' = Some b"
      for u u' x x' b
      using that objects_ok_inj [OF r(3)] a by (auto simp: k' split: if_splits)
  qed
  ultimately show ?thesis by (simp add: trackers_ok_def)
qed

lemma append_distinct:
  assumes "filter_refs_ok (set (release_list k)) held k" "distinct (release_list k)"
    "bdev_extension_append tracker_release kz bdev dev k = Ok (found, k')"
  shows "distinct (release_list k')"
proof -
  consider "release_list k' = release_list k"
    | ext f k1 where "bdev_extension_find dev (bdev_extension_list k) = Some ext" "bd_filter ext = Some f" "ext_bdev ext \<noteq> bdev"
      "k1 = k\<lparr>bdev_extension_list := remove1 ext (bdev_extension_list k @ [\<lparr>ext_dev_id = dev, ext_bdev = bdev, bd_filter = None\<rparr>])\<rparr>"
      "bdev_filter_put tracker_release f k1 = Ok k'"
    using assms(3) by (auto simp: bdev_extension_append_def Let_def split: if_splits option.splits dest!: bind_outcome_eq_OkD)
  then show ?thesis
  proof cases
    case 1
    with assms(2) show ?thesis by simp
  next
    case 2
    note e = find_ext_SomeD [OF 2(1)]
    have "filter_refs_ok (set (release_list k1)) (\<lambda>g. held g + (if bd_filter ext = Some g then 1 else 0)) k1"
      unfolding 2(4) by (rule trk.remove_ext_refs [OF assms(1) e(1)]) (use e 2(3) in \<open>auto dest: arg_cong [where f = ext_bdev]\<close>)
    from put_distinct [OF this _ _ 2(5)] assms(2) 2(2,4) show ?thesis by simp
  qed
qed

lemma attach_distinct:
  assumes "filter_refs_ok (set (release_list k)) held k" "distinct (release_list k)"
    "bdev_filter_attach tracker_release kz bdev dev t k = Ok (ret, k')"
  shows "distinct (release_list k')"
  using assms(3) append_distinct [OF assms(1,2)]
  by (auto simp: bdev_filter_attach_def split: if_splits option.splits dest!: bind_outcome_eq_OkD)

lemma detach_distinct:
  assumes "filter_refs_ok (set (release_list k)) held k" "distinct (release_list k)"
    "lp_bdev_filter_detach tracker_release dev k = Ok (ret, k')"
  shows "distinct (release_list k')"
proof -
  consider "k' = k"
    | ext f where "bdev_extension_find dev (bdev_extension_list k) = Some ext" "bd_filter ext = Some f"
      "bdev_filter_put tracker_release f (k\<lparr>bdev_extension_list := set_ext_filter dev None (bdev_extension_list k)\<rparr>) = Ok k'"
    using assms(3) by (auto simp: lp_bdev_filter_detach_def split: if_splits option.splits dest!: bind_outcome_eq_OkD)
  then show ?thesis
  proof cases
    case 1
    with assms(2) show ?thesis by simp
  next
    case 2
    from put_distinct [OF trk.unset_refs [OF assms(1) 2(1,2)] _ _ 2(3)] assms(2) show ?thesis by simp
  qed
qed

lemma filter_attach_ok:
  assumes ok: "trackers_ok held k" and h: "0 < held t"
  shows "\<exists>ret k'. bdev_filter_attach tracker_release kz bdev dev t k = Ok (ret, k') \<and> same_objects k k' \<and>
    trackers_ok (if ret = None then held(t := held t - 1) else held) k' \<and>
    (ret = None \<longrightarrow> 0 < ext_refs (bdev_extension_list k') t)"
proof -
  have r: "filter_refs_ok (set (release_list k)) held k" "distinct (release_list k)" "objects_ok k"
    using ok by (simp_all add: trackers_ok_def)
  from trk.attach_refs [OF r(1) h, of kz bdev dev] obtain ret k' where
    a: "bdev_filter_attach tracker_release kz bdev dev t k = Ok (ret, k')"
    "filter_refs_ok (set (release_list k')) (if ret = None then held(t := held t - 1) else held) k'"
    "ret = None \<longrightarrow> (\<exists>ext. bdev_extension_find dev (bdev_extension_list k') = Some ext \<and> bd_filter ext = Some t)"
    by blast
  have s: "same_objects k k'" using trk.attach_same [OF a(1)] .
  have "distinct (release_list k')"
    using a(1) r(2) attach_distinct [OF r(1,2) a(1)] by simp
  moreover have "0 < ext_refs (bdev_extension_list k') t" if "ret = None"
    using a(3) that ext_refs_pos find_ext_SomeD(1) by blast
  ultimately show ?thesis using a(1,2) s objects_ok_same [OF r(3) s] by (auto simp: trackers_ok_def)
qed

lemma detach_ok:
  assumes ok: "trackers_ok held k"
  shows "\<exists>ret k'. lp_bdev_filter_detach tracker_release dev k = Ok (ret, k') \<and> same_objects k k' \<and> trackers_ok held k'"
proof -
  have r: "filter_refs_ok (set (release_list k)) held k" "distinct (release_list k)" "objects_ok k"
    using ok by (simp_all add: trackers_ok_def)
  from trk.detach_refs [OF r(1), of dev] obtain ret k' where
    d: "lp_bdev_filter_detach tracker_release dev k = Ok (ret, k')" "filter_refs_ok (set (release_list k')) held k'" by blast
  have s: "same_objects k k'" using trk.detach_same [OF d(1)] .
  with d detach_distinct [OF r(1,2) d(1)] objects_ok_same [OF r(3) s] show ?thesis by (simp add: trackers_ok_def)
qed

lemma upd_tracker_ok:
  assumes "trackers_ok held k" "filters k t = Some tr"
    and "flt_kref (g tr) = flt_kref tr" "trk_cbt_map (g tr) = trk_cbt_map tr" "trk_diff_area (g tr) = trk_diff_area tr"
  shows "\<exists>k'. upd_tracker t g k = Ok k' \<and> trackers_ok held k' \<and> k' = k\<lparr>filters := (filters k)(t \<mapsto> g tr)\<rparr>"
  using trackers_ok_flags [OF assms] assms(2) by (simp add: upd_tracker_def)

lemma trackers_ok_freeze: "freeze_bdev env b k = (fz, k') \<Longrightarrow> trackers_ok held k' = trackers_ok held k \<and> filters k' = filters k"
  by (auto simp: freeze_bdev_def split: if_splits)

lemma tracker_filter_attach_ok:
  assumes ok: "trackers_ok held k" and h: "0 < held t"
  shows "\<exists>ret k'. tracker_filter_attach env info t k = Ok (ret, k') \<and>
    trackers_ok (if ret = None then held(t := held t - 1) else held) k' \<and>
    (ret = None \<longrightarrow> 0 < ext_refs (bdev_extension_list k') t)"
proof -
  obtain fz k1 where f: "freeze_bdev env (bi_bdev info) k = (fz, k1)" by (cases "freeze_bdev env (bi_bdev info) k")
  have k1: "trackers_ok held k1" using trackers_ok_freeze [OF f] ok by simp
  obtain tr where tr: "filters k1 t = Some tr" using trackers_ok_live [OF k1 h] by blast
  obtain k2 where k2: "(if fz then upd_tracker t (\<lambda>tr. tr\<lparr>is_frozen := True\<rparr>) k1 else Ok k1) = Ok k2" "trackers_ok held k2"
    using upd_tracker_ok [OF k1 tr, of "\<lambda>tr. tr\<lparr>is_frozen := True\<rparr>"] k1 by (cases fz) auto
  from filter_attach_ok [OF k2(2) h, of "te_alloc_ext env" "bi_bdev info" "bi_dev_id info"] obtain ret k3 where
    a: "bdev_filter_attach tracker_release (te_alloc_ext env) (bi_bdev info) (bi_dev_id info) t k2 = Ok (ret, k3)"
    "trackers_ok (if ret = None then held(t := held t - 1) else held) k3" "ret = None \<longrightarrow> 0 < ext_refs (bdev_extension_list k3) t"
    by blast
  have "\<exists>tr. filters k3 t = Some tr"
  proof (cases ret)
    case None
    with a(2,3) show ?thesis using filter_refs_okD(5) by (auto simp: trackers_ok_def)
  next
    case (Some e)
    with a(2) h trackers_ok_live [of held k3 t] show ?thesis by auto
  qed
  then obtain tr3 where tr3: "filters k3 t = Some tr3" by blast
  from upd_tracker_ok [OF a(2) tr3, of "\<lambda>tr. tr\<lparr>is_frozen := False\<rparr>"] obtain k4 where
    k4: "upd_tracker t (\<lambda>tr. tr\<lparr>is_frozen := False\<rparr>) k3 = Ok k4"
    "trackers_ok (if ret = None then held(t := held t - 1) else held) k4"
    "k4 = k3\<lparr>filters := (filters k3)(t \<mapsto> tr3\<lparr>is_frozen := False\<rparr>)\<rparr>" by auto
  have "bdev_extension_list (thaw_bdev env (bi_bdev info) k4) = bdev_extension_list k3" by (simp add: k4(3) thaw_bdev_def)
  with f k2(1) a tr3 k4(1,2) show ?thesis by (auto simp: tracker_filter_attach_def)
qed

lemma tracker_filter_detach_ok:
  assumes ok: "trackers_ok held k"
  shows "\<exists>k'. tracker_filter_detach env info k = Ok k' \<and> trackers_ok held k'"
proof -
  obtain fz k1 where f: "freeze_bdev env (bi_bdev info) k = (fz, k1)" by (cases "freeze_bdev env (bi_bdev info) k")
  have k1: "trackers_ok held k1" using trackers_ok_freeze [OF f] ok by simp
  from detach_ok [OF k1, of "bi_dev_id info"] f show ?thesis by (auto simp: tracker_filter_detach_def bdev_filter_detach_def)
qed

text \<open>Devices as the kernel has them: their size in bytes fits in 63 bits.\<close>

definition env_ok :: "tracker_env \<Rightarrow> bool" where
  "env_ok env \<longleftrightarrow>
     (\<forall>dev info. te_open env dev = Inr info \<longrightarrow> unat (bi_nr_sectors info) < 2 ^ 54) \<and>
     (\<forall>b. unat (te_nr_sectors env b) < 2 ^ 54)"

lemma cbt_map_create_total:
  assumes "unat cap < 2 ^ 55"
  shows "\<exists>mp. cbt_map_create cbt_default_params env kz cap = Ok mp \<and> (\<forall>m. mp = Some m \<longrightarrow> cbt_wf m)"
proof (cases "kz \<and> vmalloc_read env \<and> vmalloc_write env")
  case True
  with cbt_map_create_wf [OF assms, of env] show ?thesis by auto
next
  case False
  from cbt_calculate_default [of "cbt_map_zero\<lparr>device_capacity := cap\<rparr>"] assms obtain s c where
    "cbt_map_calculate_block_size cbt_default_params (cbt_map_zero\<lparr>device_capacity := cap\<rparr>) =
       Ok (cbt_map_zero\<lparr>device_capacity := cap, blk_size_shift := s, blk_count := c\<rparr>)" by auto
  with False show ?thesis
    by (auto simp: cbt_map_create_def cbt_map_allocate_def cbt_map_zero_def cbt_map_destroy_def Let_def)
qed

lemma tracker_new_ok:
  assumes ok: "trackers_ok held k" and cap: "unat (bi_nr_sectors info) < 2 ^ 55"
  shows "\<exists>res k'. tracker_new cbt_default_params env info k = Ok (res, k') \<and> trackers_ok held k' \<and>
    (\<forall>t. res = Inr t \<longrightarrow> 0 < ext_refs (bdev_extension_list k') t)"
proof (cases "te_alloc_tracker env")
  case False
  with ok show ?thesis by (simp add: tracker_new_def)
next
  case True
  let ?t = "next_object k" and ?tr = "(bdev_filter_init tracker_zero)\<lparr>trk_dev_id := bi_dev_id info\<rparr>"
  let ?k1 = "k\<lparr>filters := (filters k)(?t \<mapsto> ?tr), trackers_counter := Suc (trackers_counter k), next_object := Suc ?t\<rparr>"
  note fr = fresh_tracker [OF ok]
  have kr: "flt_kref ?tr = 1" "trk_diff_area ?tr = None" "trk_cbt_map ?tr = None"
    by (simp_all add: bdev_filter_init_def tracker_zero_def)
  from cbt_map_create_total [OF cap, of "te_cbt env ?t" "te_alloc_map env"] obtain mp where
    mp: "cbt_map_create cbt_default_params (te_cbt env ?t) (te_alloc_map env) (bi_nr_sectors info) = Ok mp"
    "\<forall>m. mp = Some m \<longrightarrow> cbt_wf m" by blast
  show ?thesis
  proof (cases mp)
    case None
    let ?k2 = "?k1\<lparr>filters := (filters ?k1)(?t \<mapsto> ?tr\<lparr>flt_kref := 0\<rparr>)\<rparr>"
    have p: "tracker_put ?t ?k1 = Ok (tracker_release ?t ?k2)"
      using trk.put_eq [of ?k1 ?t ?tr] kr(1) by (simp add: tracker_put_def)
    have "trackers_ok (held(?t := flt_kref (?tr\<lparr>flt_kref := 0\<rparr>))) (tracker_release ?t ?k2)"
      by (rule add_tracker [OF ok refl, where maps = "cbt_maps k" and rl = "release_list k @ [?t]"])
        (use kr in \<open>simp_all add: tracker_release_def\<close>)
    then have "trackers_ok held (tracker_release ?t ?k2)" using fr(2) by (simp add: fun_upd_idem)
    with True mp None p show ?thesis by (simp add: tracker_new_def Let_def)
  next
    case (Some m)
    let ?tr2 = "?tr\<lparr>trk_cbt_map := Some ?t, is_frozen := False\<rparr>"
    let ?k2 = "?k1\<lparr>cbt_maps := (cbt_maps k)(?t \<mapsto> m), filters := (filters ?k1)(?t \<mapsto> ?tr2)\<rparr>"
    have u: "upd_tracker ?t (\<lambda>tr. tr\<lparr>trk_cbt_map := Some ?t, is_frozen := False\<rparr>) (?k1\<lparr>cbt_maps := (cbt_maps ?k1)(?t \<mapsto> m)\<rparr>) = Ok ?k2"
      by (simp add: upd_tracker_def)
    have "trackers_ok (held(?t := flt_kref ?tr2)) ?k2"
      by (rule add_tracker [OF ok refl, where maps = "(cbt_maps k)(?t \<mapsto> m)" and rl = "release_list k" and m = m])
        (use kr mp(2) Some in simp_all)
    then have k2: "trackers_ok (held(?t := 1)) ?k2" using kr(1) by simp
    from tracker_filter_attach_ok [OF k2, of ?t env info] obtain ret k3 where
      a: "tracker_filter_attach env info ?t ?k2 = Ok (ret, k3)"
      "trackers_ok (if ret = None then (held(?t := 1))(?t := (held(?t := 1)) ?t - 1) else held(?t := 1)) k3"
      "ret = None \<longrightarrow> 0 < ext_refs (bdev_extension_list k3) ?t" by (simp only: fun_upd_same zero_less_one simp_thms) blast
    have h0: "held(?t := 0) = held" using fr(2) by (simp add: fun_upd_idem)
    show ?thesis
    proof (cases ret)
      case None
      with True mp Some u a h0 show ?thesis by (simp add: tracker_new_def Let_def)
    next
      case e: (Some e)
      with a(2) have k3: "trackers_ok (held(?t := 1)) k3" by simp
      from tracker_put_ok [OF k3, of ?t] obtain k4 where "tracker_put ?t k3 = Ok k4" "trackers_ok held k4"
        using h0 by auto
      with True mp Some u a(1) e show ?thesis by (simp add: tracker_new_def Let_def)
    qed
  qed
qed

lemma tracker_create_or_get_ok:
  assumes ok: "trackers_ok held k" and env: "env_ok env"
  shows "\<exists>res k'. tracker_create_or_get cbt_default_params env dev k = Ok (res, k') \<and>
    (case res of Inl e \<Rightarrow> trackers_ok held k' | Inr t \<Rightarrow> trackers_ok (held(t := Suc (held t))) k')"
proof (cases "te_open env dev")
  case (Inl e)
  with ok show ?thesis by (simp add: tracker_create_or_get_def)
next
  case (Inr info)
  have "unat (bi_nr_sectors info) < 2 ^ 54" using env Inr by (auto simp: env_ok_def)
  then have cap: "unat (bi_nr_sectors info) < 2 ^ 55" by simp
  from tracker_get_by_dev_ok [OF ok, of info] obtain found k1 where
    g: "tracker_get_by_dev info k = Ok (found, k1)"
    "case found of None \<Rightarrow> k1 = k \<and> trackers_ok held k1
     | Some t \<Rightarrow> trackers_ok (held(t := Suc (held t))) k1 \<and> (\<exists>tr. filters k1 t = Some tr)" by blast
  show ?thesis
  proof (cases found)
    case (Some t)
    with g Inr show ?thesis by (simp add: tracker_create_or_get_def)
  next
    case None
    then have k1: "trackers_ok held k1" using g(2) by auto
    from tracker_new_ok [OF k1 cap, of env] obtain res k2 where
      n: "tracker_new cbt_default_params env info k1 = Ok (res, k2)" "trackers_ok held k2"
      "\<forall>t. res = Inr t \<longrightarrow> 0 < ext_refs (bdev_extension_list k2) t" by blast
    show ?thesis
    proof (cases res)
      case (Inl e)
      with g(1) None n k1 \<open>te_open env dev = Inr info\<close> show ?thesis by (simp add: tracker_create_or_get_def)
    next
      case t: (Inr t)
      from tracker_get_ok [OF n(2), of t] n(3) t obtain k3 where
        "bdev_filter_get t k2 = Ok k3" "trackers_ok (held(t := Suc (held t))) k3" by auto
      with g(1) None n k1 t \<open>te_open env dev = Inr info\<close> show ?thesis by (simp add: tracker_create_or_get_def)
    qed
  qed
qed

lemma tracker_remove_ok:
  assumes ok: "trackers_ok held k"
  shows "\<exists>ret k'. tracker_remove env garbage dev k = Ok (ret, k') \<and> trackers_ok held k'"
proof (cases "te_open env dev")
  case (Inl e)
  with detach_ok [OF ok, of dev] show ?thesis by (auto simp: tracker_remove_def)
next
  case (Inr info)
  from tracker_get_by_dev_ok [OF ok, of info] obtain found k1 where
    g: "tracker_get_by_dev info k = Ok (found, k1)"
    "case found of None \<Rightarrow> k1 = k \<and> trackers_ok held k1
     | Some t \<Rightarrow> trackers_ok (held(t := Suc (held t))) k1 \<and> (\<exists>tr. filters k1 t = Some tr)" by blast
  show ?thesis
  proof (cases found)
    case None
    with g Inr show ?thesis by (auto simp: tracker_remove_def)
  next
    case (Some t)
    then obtain tr where k1: "trackers_ok (held(t := Suc (held t))) k1" "filters k1 t = Some tr" using g(2) by auto
    have h: "(held(t := Suc (held t)))(t := held t) = held" by simp
    show ?thesis
    proof (cases "snapshot_is_taken tr")
      case True
      from tracker_put_ok [OF k1(1), of t] h obtain k2 where "tracker_put t k1 = Ok k2" "trackers_ok held k2" by auto
      with True g(1) Inr Some k1(2) show ?thesis by (simp add: tracker_remove_def)
    next
      case False
      from tracker_filter_detach_ok [OF k1(1), of env info] obtain k2 where
        d: "tracker_filter_detach env info k1 = Ok k2" "trackers_ok (held(t := Suc (held t))) k2" by blast
      let ?k2 = "k2\<lparr>tracked_device_list := remove1 dev (tracked_device_list k2)\<rparr>"
      from tracker_put_ok [of "held(t := Suc (held t))" ?k2 t] d(2) h obtain k3 where
        "tracker_put t ?k2 = Ok k3" "trackers_ok held k3" by auto
      with False g(1) Inr Some k1(2) d(1) show ?thesis by (simp add: tracker_remove_def)
    qed
  qed
qed

lemma put_area_ok:
  assumes "\<And>a. p = Some a \<Longrightarrow> areas k a \<noteq> None"
  shows "\<exists>as. put_area P p k = Ok (k\<lparr>areas := as\<rparr>) \<and> (\<forall>a. p \<noteq> Some a \<longrightarrow> as a = areas k a)"
proof (cases p)
  case None
  then have "put_area P p k = Ok (k\<lparr>areas := areas k\<rparr>)" by (simp add: put_area_def)
  then show ?thesis by blast
next
  case (Some a)
  then obtain ao where "areas k a = Some ao" using assms by blast
  with Some show ?thesis
    by (cases "diff_area_put P (cow_of k ao diff_storage_zero)") (auto simp: put_area_def)
qed

text \<open>Freeing the tracker at the head of the release list.\<close>

lemma tracker_free_ok:
  assumes ok: "trackers_ok held k" and l: "release_list k = t # ts"
  shows "\<exists>k'. tracker_free P t (k\<lparr>release_list := ts\<rparr>) = Ok k' \<and> trackers_ok held k' \<and> release_list k' = ts \<and>
    filters k' = (filters k)(t := None)"
proof -
  have r: "filter_refs_ok (set (release_list k)) held k" "distinct (release_list k)" "objects_ok k"
    using ok by (simp_all add: trackers_ok_def)
  obtain tr where f: "filters k t = Some tr"
    using filter_refs_ok_ref [OF r(1), of t] l by (cases "filters k t") auto
  have z: "held t = 0" "ext_refs (bdev_extension_list k) t = 0"
    using filter_refs_ok_ref [OF r(1), of t] l f by simp_all
  note o = objects_okD [OF r(3) f, unfolded tracker_obj_ok_def]
  from put_area_ok [of "trk_diff_area tr" "k\<lparr>release_list := ts\<rparr>" P] o obtain as where
    a: "put_area P (trk_diff_area tr) (k\<lparr>release_list := ts\<rparr>) = Ok (k\<lparr>release_list := ts, areas := as\<rparr>)"
    "\<forall>b. trk_diff_area tr \<noteq> Some b \<longrightarrow> as b = areas k b" by auto
  have "\<exists>ms. put_map (trk_cbt_map tr) (k\<lparr>release_list := ts, areas := as\<rparr>) = Ok (k\<lparr>release_list := ts, areas := as, cbt_maps := ms\<rparr>) \<and>
    (\<forall>u. u \<noteq> t \<longrightarrow> ms u = cbt_maps k u)"
    using o by (cases "trk_cbt_map tr") (auto simp: put_map_def intro: exI [of _ "cbt_maps k"])
  then obtain ms where m: "put_map (trk_cbt_map tr) (k\<lparr>release_list := ts, areas := as\<rparr>) = Ok (k\<lparr>release_list := ts, areas := as, cbt_maps := ms\<rparr>)"
    "\<forall>u. u \<noteq> t \<longrightarrow> ms u = cbt_maps k u" by blast
  let ?k = "k\<lparr>release_list := ts, areas := as, cbt_maps := ms, filters := (filters k)(t := None),
    trackers_counter := trackers_counter k - 1\<rparr>"
  have run: "tracker_free P t (k\<lparr>release_list := ts\<rparr>) = Ok ?k" using f a(1) m(1) by (simp add: tracker_free_def)
  have "ref_ok (filters ?k g) (ext_refs (bdev_extension_list ?k) g) (held g) (g \<in> set (release_list ?k))" for g
    using filter_refs_ok_ref [OF r(1), of g] z r(2) l by (cases "g = t") auto
  then have "filter_refs_ok (set (release_list ?k)) held ?k"
    using filter_refs_okD(1) [OF r(1)] by (intro filter_refs_okI) simp_all
  moreover have "objects_ok ?k"
  proof (rule objects_okI)
    have d: "dom (filters ?k) = dom (filters k) - {t}" by auto
    show "finite (dom (filters ?k))" using objects_ok_count [OF r(3)] by (simp add: d)
    show "trackers_counter ?k = Suc (card (dom (filters ?k)))"
    proof -
      have "Suc (card (dom (filters k) - {t})) = card (dom (filters k))"
        by (rule card_Suc_Diff1 [OF objects_ok_count(1) [OF r(3)]]) (use f in blast)
      moreover have "trackers_counter ?k = trackers_counter k - 1" by simp
      ultimately show ?thesis unfolding d using objects_ok_count(2) [OF r(3)] by linarith
    qed
    show "tracker_obj_ok ?k u x" if "filters ?k u = Some x" for u x
    proof -
      have u: "u \<noteq> t" "filters k u = Some x" using that by (auto split: if_splits)
      have "trk_diff_area tr \<noteq> Some b" if "trk_diff_area x = Some b" for b
        using objects_ok_inj [OF r(3) u(2) f that] u(1) by blast
      with objects_okD [OF r(3) u(2)] a(2) m(2) u(1) l show ?thesis by (auto simp: tracker_obj_ok_def)
    qed
    show "u = u'" if "filters ?k u = Some x" "filters ?k u' = Some x'" "trk_diff_area x = Some b" "trk_diff_area x' = Some b"
      for u u' x x' b
      using that objects_ok_inj [OF r(3)] by (auto split: if_splits)
  qed
  ultimately show ?thesis using run r(2) l by (simp add: trackers_ok_def)
qed

lemma release_loop_ok:
  "trackers_ok held k \<Longrightarrow> release_list k = ts \<Longrightarrow>
   \<exists>k'. release_loop P ts k = Ok k' \<and> trackers_ok held k' \<and> release_list k' = [] \<and>
     filters k' = (\<lambda>t. if t \<in> set ts then None else filters k t)"
proof (induction ts arbitrary: k)
  case (Cons t ts)
  from tracker_free_ok [OF Cons.prems, of P] obtain k1 where
    k1: "tracker_free P t (k\<lparr>release_list := ts\<rparr>) = Ok k1" "trackers_ok held k1" "release_list k1 = ts"
    "filters k1 = (filters k)(t := None)" by blast
  from Cons.IH [OF k1(2,3)] k1 show ?case by (auto simp: fun_eq_iff)
qed simp

lemma release_work_ok:
  assumes "trackers_ok held k"
  shows "\<exists>k'. tracker_release_work P k = Ok k' \<and> trackers_ok held k' \<and> release_list k' = [] \<and>
    dom (filters k') = {t. 0 < ext_refs (bdev_extension_list k) t + held t}"
proof -
  have r: "filter_refs_ok (set (release_list k)) held k" using assms by (simp add: trackers_ok_def)
  from release_loop_ok [OF assms refl, of P] obtain k' where
    k': "release_loop P (release_list k) k = Ok k'" "trackers_ok held k'" "release_list k' = []"
    "filters k' = (\<lambda>t. if t \<in> set (release_list k) then None else filters k t)" by blast
  have "t \<in> dom (filters k') \<longleftrightarrow> 0 < ext_refs (bdev_extension_list k) t + held t" for t
    using filter_refs_ok_ref [OF r, of t] by (cases "filters k t") (simp_all add: k'(4) domIff, auto)
  then have "dom (filters k') = {t. 0 < ext_refs (bdev_extension_list k) t + held t}"
    by (intro set_eqI) (simp only: mem_Collect_eq)
  with k'(1-3) show ?thesis by (simp add: tracker_release_work_def)
qed

lemma tracker_mark_dirty_blocks_ok:
  assumes ok: "trackers_ok held k"
  shows "\<exists>ret k'. tracker_mark_dirty_blocks env dev ranges k = Ok (ret, k') \<and> trackers_ok held k'"
proof (cases "te_open env dev")
  case (Inl e)
  with ok show ?thesis by (simp add: tracker_mark_dirty_blocks_def)
next
  case (Inr info)
  from tracker_get_by_dev_ok [OF ok, of info] obtain found k1 where
    g: "tracker_get_by_dev info k = Ok (found, k1)"
    "case found of None \<Rightarrow> k1 = k \<and> trackers_ok held k1
     | Some t \<Rightarrow> trackers_ok (held(t := Suc (held t))) k1 \<and> (\<exists>tr. filters k1 t = Some tr)" by blast
  show ?thesis
  proof (cases found)
    case None
    with g Inr show ?thesis by (auto simp: tracker_mark_dirty_blocks_def)
  next
    case (Some t)
    then have k1: "trackers_ok (held(t := Suc (held t))) k1" using g(2) by auto
    obtain tr where tr: "filters k1 t = Some tr" "tracker_obj_ok k1 t tr" "t \<notin> set (release_list k1)"
      using trackers_ok_live [OF k1, of t] by auto
    then obtain m where m: "trk_cbt_map tr = Some t" "cbt_maps k1 t = Some m" "cbt_wf m"
      by (cases "trk_cbt_map tr") (auto simp: tracker_obj_ok_def)
    from cbt_map_mark_dirty_blocks_wf [OF m(3), of ranges] obtain ret m' where
      d: "cbt_map_mark_dirty_blocks m ranges = Ok (ret, m')" "cbt_wf m'" by blast
    let ?k2 = "k1\<lparr>cbt_maps := (cbt_maps k1)(t \<mapsto> m')\<rparr>"
    from tracker_put_ok [OF trackers_ok_map [OF k1 d(2), of t], of t] obtain k3 where
      "tracker_put t ?k2 = Ok k3" "trackers_ok held k3" by auto
    with g(1) Inr Some tr(1) m d(1) show ?thesis by (simp add: tracker_mark_dirty_blocks_def)
  qed
qed

text \<open>A sequence of calls: the clients of the module take and drop references to trackers, devices are
  removed, blocks are marked, and the release worker runs.\<close>

inductive tracker_step :: "cow_params \<Rightarrow> (nat \<Rightarrow> nat) \<times> kern \<Rightarrow> (nat \<Rightarrow> nat) \<times> kern \<Rightarrow> bool" for P where
  get: "env_ok env \<Longrightarrow> tracker_create_or_get cbt_default_params env dev k = Ok (Inr t, k') \<Longrightarrow>
    tracker_step P (held, k) (held(t := Suc (held t)), k')"
| get_failed: "env_ok env \<Longrightarrow> tracker_create_or_get cbt_default_params env dev k = Ok (Inl e, k') \<Longrightarrow>
    tracker_step P (held, k) (held, k')"
| put: "0 < held t \<Longrightarrow> tracker_put t k = Ok k' \<Longrightarrow> tracker_step P (held, k) (held(t := held t - 1), k')"
| remove: "tracker_remove env garbage dev k = Ok (ret, k') \<Longrightarrow> tracker_step P (held, k) (held, k')"
| mark: "tracker_mark_dirty_blocks env dev ranges k = Ok (ret, k') \<Longrightarrow> tracker_step P (held, k) (held, k')"
| work: "tracker_release_work P k = Ok k' \<Longrightarrow> tracker_step P (held, k) (held, k')"

definition kern_init :: "(bdev \<Rightarrow> nat \<Rightarrow> u8) \<Rightarrow> kern" where
  "kern_init dk =
     \<lparr>bdev_extension_list = [], filters = (\<lambda>_. None), cbt_maps = (\<lambda>_. None), areas = (\<lambda>_. None),
      storages = (\<lambda>_. None), block_disks = dk, fs_freezes = (\<lambda>_. 0), tracked_device_list = [],
      release_list = [], trackers_counter = 1, next_object = 0\<rparr>"

lemma trackers_ok_init: "trackers_ok (\<lambda>_. 0) (kern_init dk)"
  by (simp add: trackers_ok_def objects_ok_def filter_refs_ok_def kern_init_def)

lemma tracker_step_ok:
  assumes "tracker_step P x y" "trackers_ok (fst x) (snd x)"
  shows "trackers_ok (fst y) (snd y)"
  using assms
proof cases
  case (get env dev k t k' held)
  with assms(2) tracker_create_or_get_ok [of held k env dev] show ?thesis by auto
next
  case (get_failed env dev k e k' held)
  with assms(2) tracker_create_or_get_ok [of held k env dev] show ?thesis by auto
next
  case (put held t k k')
  with assms(2) tracker_put_ok [of held k t] show ?thesis by auto
next
  case (remove env garbage dev k ret k' held)
  with assms(2) tracker_remove_ok [of held k env garbage dev] show ?thesis by auto
next
  case (mark env dev ranges k ret k' held)
  with assms(2) tracker_mark_dirty_blocks_ok [of held k env dev ranges] show ?thesis by auto
next
  case (work k k' held)
  with assms(2) release_work_ok [of held k P] show ?thesis by auto
qed

lemma tracker_steps_ok:
  assumes "(tracker_step P)\<^sup>*\<^sup>* x y" "trackers_ok (fst x) (snd x)"
  shows "trackers_ok (fst y) (snd y)"
  using assms by (induction rule: rtranclp_induct) (auto dest: tracker_step_ok)


definition tracker_example_env :: tracker_env where
  "tracker_example_env =
     \<lparr>te_open = (\<lambda>dev. Inr \<lparr>bi_bdev = dev, bi_dev_id = dev, bi_nr_sectors = 200, bi_io_min = 512\<rparr>),
      te_nr_sectors = (\<lambda>_. 200), te_freeze = (\<lambda>_. True), te_thaw = (\<lambda>_. True), te_alloc_dev = True,
      te_alloc_tracker = True, te_alloc_map = True, te_alloc_ext = True,
      te_cbt = (\<lambda>_. \<lparr>vmalloc_read = True, vmalloc_write = True, random_uuid = 5\<rparr>)\<rparr>"

lemma tracker_example_env_ok: "env_ok tracker_example_env"
  by (simp add: env_ok_def tracker_example_env_def)

text \<open>The first tracker of a device.\<close>

lemma tracker_example_new:
  "\<exists>m. cbt_wf m \<and> \<not> is_corrupted m \<and> device_capacity m = 200 \<and>
     tracker_create_or_get cbt_default_params tracker_example_env 7 (kern_init dk) =
       Ok (Inr 0, (kern_init dk)
         \<lparr>bdev_extension_list := [\<lparr>ext_dev_id = 7, ext_bdev = 7, bd_filter = Some 0\<rparr>],
          filters := [0 \<mapsto> tracker_zero\<lparr>flt_kref := 2, trk_dev_id := 7, trk_cbt_map := Some 0\<rparr>],
          cbt_maps := [0 \<mapsto> m], fs_freezes := (\<lambda>_. 0), tracked_device_list := [7], trackers_counter := 2,
          next_object := 1\<rparr>)"
proof -
  let ?env = "te_cbt tracker_example_env 0"
  have "unat (200 :: u64) < 2 ^ 55" by simp
  from cbt_map_create_wf [OF this, of ?env] obtain m where
    m: "cbt_map_create cbt_default_params ?env True 200 = Ok (Some m)" "cbt_wf m" "\<not> is_corrupted m" "device_capacity m = 200"
    by (auto simp: tracker_example_env_def)
  have "tracker_create_or_get cbt_default_params tracker_example_env 7 (kern_init dk) =
       Ok (Inr 0, (kern_init dk)
         \<lparr>bdev_extension_list := [\<lparr>ext_dev_id = 7, ext_bdev = 7, bd_filter = Some 0\<rparr>],
          filters := [0 \<mapsto> tracker_zero\<lparr>flt_kref := 2, trk_dev_id := 7, trk_cbt_map := Some 0\<rparr>],
          cbt_maps := [0 \<mapsto> m], fs_freezes := (\<lambda>_. 0), tracked_device_list := [7], trackers_counter := 2,
          next_object := 1\<rparr>)"
    using m(1)
    by (simp add: tracker_create_or_get_def tracker_get_by_dev_def bdev_filter_get_by_bdev_def bdev_extension_find_bdev_def
        bdev_extension_find_def tracker_new_def Let_def bdev_filter_init_def tracker_filter_attach_def freeze_bdev_def
        thaw_bdev_def upd_tracker_def upd_filter_def bdev_filter_attach_def bdev_extension_append_def bdev_filter_get_def
        kref_get_def kern_init_def tracker_example_env_def tracker_zero_def numeral_2_eq_2 fun_eq_iff)
  with m(2-4) show ?thesis by blast
qed


end
