(* ===== verification/Tracker_Copy.thy ===== *)
theory Tracker_Copy
  imports Cow_Properties Tracker
begin

text \<open>
  What the filter of the trackers means for the snapshot image: \<^verbatim>\<open>tracker_submit_bio\<close> composed with
  copy-on-write.  A write that it has copied leaves the image alone; the writes that it lets pass on its
  error paths do not, and a failed copy leaves chunks locked.
\<close>

section \<open>Runs of the loops inside a submission\<close>

lemma steps_interleaved:
  "(cow_step P rw)\<^sup>*\<^sup>* x y \<Longrightarrow> interleaved turn P rw n k y z \<Longrightarrow> interleaved turn P rw n k x z"
  by (induction rule: converse_rtranclp_induct) (auto intro: interleaved.others)

lemma wait_loop_interleaved:
  assumes "wait_loop ans killed nowait n k s = Ok (Returned None, s')"
  shows "interleaved (wait_turn nowait) P rw n k (s, img, ctx) (s', img, ctx)"
  using assms
proof (induction k arbitrary: n s)
  case 0
  then show ?case by (auto intro: interleaved.finished)
next
  case (Suc k)
  have n: "\<not> nchunks s \<le> n" "take_lock nowait (killed n) n s = (Returned None, down n s)"
    using Suc.prems by (auto simp: take_lock_def split: if_splits dest!: bind_outcome_eq_OkD)
  with Suc.prems obtain s2 where c: "wait_loop ans killed nowait n 1 s = Ok (Returned None, s2)"
    "wait_loop ans killed nowait (Suc n) k s2 = Ok (Returned None, s')"
    by (auto split: if_splits)
  then have "wait_turn nowait n s s2" unfolding wait_turn_def by blast
  then show ?case using Suc.IH [OF c(2)] by (rule interleaved.turn)
qed

text \<open>A submission that copied, as a run of the system.\<close>

lemma submit_copy_run:
  assumes st: "area_started info ds a" and r: "(cow_step P rw)\<^sup>*\<^sup>* (start_sys info ds dk a) (s0, img0, ctx0)"
    and others: "\<And>s1. (cow_step P rw)\<^sup>*\<^sup>* (s1, img0, ctx0) (sa_meanwhile sa s1, img, ctx)"
    and run: "submit_copy P sa sector cnt nowait s0 = Ok (Returned Copied, s)"
  shows "\<exists>s1. interleaved (copy_turn P nowait) P rw (chunk_number a sector) (range_chunks a sector cnt) (s0, img0, ctx0) (s1, img0, ctx0) \<and>
    interleaved (wait_turn nowait) P rw (chunk_number a sector) (range_chunks a sector cnt) (s1, img0, ctx0) (s, img, ctx)"
proof -
  from run obtain s1 where c: "diff_area_copy P (sa_copy sa) (sa_copy_killed sa) sector cnt nowait s0 = Ok (Returned None, s1)"
    "diff_area_wait (sa_wait sa) (sa_wait_killed sa) sector cnt nowait (sa_meanwhile sa s1) = Ok (Returned None, s)"
    by (auto simp: submit_copy_def split: if_splits lock_result.splits option.splits dest!: bind_outcome_eq_OkD)
  note r0 = reachable_inv [OF st r]
  have geo: "chunk_number (area s') sector = chunk_number a sector" "range_chunks (area s') sector cnt = range_chunks a sector cnt"
    if "chunk_shift (area s') = chunk_shift a" for s'
    using that by (simp_all add: chunk_number_def range_chunks_def diff_area_chunk_sectors_def Let_def)
  have g0: "chunk_shift (area s0) = chunk_shift a" using r0(2) by (simp add: step_keeps_def cow_start_def)
  have i: "interleaved (copy_turn P nowait) P rw (chunk_number a sector) (range_chunks a sector cnt) (s0, img0, ctx0) (s1, img0, ctx0)"
    using copy_loop_interleaved [OF c(1) [unfolded diff_area_copy_def]] geo [OF g0] by simp
  have "cow_inv img0 ctx0 s1" "step_keeps s0 s1" using interleaved_copy [OF i] r0(1) by simp_all
  then have "step_keeps s0 (sa_meanwhile sa s1)" using cow_steps_inv [OF others [of s1]] step_keeps_trans by simp
  then have g2: "chunk_shift (area (sa_meanwhile sa s1)) = chunk_shift a" using g0 by (simp add: step_keeps_def)
  have "interleaved (wait_turn nowait) P rw (chunk_number a sector) (range_chunks a sector cnt)
      (sa_meanwhile sa s1, img, ctx) (s, img, ctx)"
    using wait_loop_interleaved [OF c(2) [unfolded diff_area_wait_def]] geo [OF g2] by simp
  with i steps_interleaved [OF others [of s1]] show ?thesis by blast
qed

section \<open>Writes that were copied\<close>

text \<open>The view of an area in the state of the module.\<close>

definition area_view :: "kern \<Rightarrow> nat \<Rightarrow> cow option" where
  "area_view k x =
     (case areas k x of
        None \<Rightarrow> None
      | Some ao \<Rightarrow> map_option (cow_of k ao) (storages k (ao_storage ao)))"

lemma area_viewD: "area_view k x = Some s \<Longrightarrow> \<exists>ao ds. areas k x = Some ao \<and> storages k (ao_storage ao) = Some ds \<and> s = cow_of k ao ds"
  by (auto simp: area_view_def split: option.splits)

lemma with_area_view:
  assumes "area_view k x = Some s" "with_area x f k = Ok (v, k')"
  shows "\<exists>s'. f s = Ok (v, s') \<and> area_view k' x = Some s'"
proof -
  from area_viewD [OF assms(1)] obtain ao ds where v: "areas k x = Some ao" "storages k (ao_storage ao) = Some ds" "s = cow_of k ao ds"
    by blast
  with assms(2) obtain s' where "f s = Ok (v, s')" "k' = put_cow x ao s' k"
    by (auto simp: with_area_def dest!: bind_outcome_eq_OkD)
  then show ?thesis by (auto simp: area_view_def put_cow_def cow_of_def)
qed

lemma cow_of_maps [simp]: "cow_of (k\<lparr>cbt_maps := m\<rparr>) = cow_of k"
  by (simp add: cow_of_def fun_eq_iff)

lemma area_view_maps [simp]: "area_view (k\<lparr>cbt_maps := m\<rparr>) x = area_view k x"
  by (simp add: area_view_def split: option.split)

lemma submit_verdict_copied:
  assumes tr: "filters k t = Some tr" "trk_diff_area tr = Some x" "area_view k x = Some s0"
    and run: "tracker_submit_verdict P sa b t k = Ok (Returned v, k')" "v \<notin> {NotFiltered, NotCopied}"
  shows "\<exists>s. submit_copy P sa (unat (bio_start b)) (unat (wb_sectors b)) (wb_nowait b) s0 = Ok (Returned v, s) \<and>
    area_view k' x = Some s \<and> snapshot_is_taken tr"
proof -
  from run tr(1,2) obtain c m' where w: "snapshot_is_taken tr"
    "with_area x (submit_copy P sa (unat (bio_start b)) (unat (wb_sectors b)) (wb_nowait b)) (k\<lparr>cbt_maps := (cbt_maps k)(c \<mapsto> m')\<rparr>) = Ok (Returned v, k')"
    by (auto simp: tracker_submit_verdict_def Let_def split: if_splits option.splits dest!: bind_outcome_eq_OkD)
  have "area_view (k\<lparr>cbt_maps := (cbt_maps k)(c \<mapsto> m')\<rparr>) x = Some s0" using tr(3) by simp
  from with_area_view [OF this w(2)] w(1) show ?thesis by blast
qed


section \<open>Writes that pass without a copy\<close>

text \<open>C32: once the change tracking map of a device is corrupted, copy-on-write of the device is off.  Every
  write to it passes, the snapshot is not marked corrupted and nobody is told, and the bytes it puts on a
  chunk that was not copied before show up in the snapshot image.\<close>

theorem cbt_corruption_bypasses_copy:
  assumes "filters k t = Some tr" "trk_cbt_map tr = Some c" "cbt_maps k c = Some m" "is_corrupted m" "bio_filtered b"
    and "area_view k x = Some s" "\<not> diff_area_is_corrupted (area s)"
  shows "tracker_submit_bio P sa b t k = Ok (Returned False, k) \<and>
    (\<forall>y. let n = y div chunk_bytes (area s) in
       \<not> buffer_ready (chunk_of s n) \<longrightarrow> \<not> store_ready (chunk_of s n) \<longrightarrow>
       (\<exists>s'. area_view (k\<lparr>block_disks := dk'\<rparr>) x = Some s' \<and> \<not> diff_area_is_corrupted (area s') \<and>
          image_of s' y = dk' (orig_bdev (area s)) y))"
proof -
  have "cbt_map_set m (bio_start b) (wb_sectors b) = Ok (Some EINVAL, m)" using assms(4) by (simp add: cbt_map_set_def)
  moreover have "k\<lparr>cbt_maps := (cbt_maps k)(c \<mapsto> m)\<rparr> = k" using assms(3) by (simp add: fun_upd_idem)
  ultimately have run: "tracker_submit_bio P sa b t k = Ok (Returned False, k)"
    using assms(1-3,5) by (simp add: tracker_submit_bio_def tracker_submit_verdict_def verdict_completed_def)
  from area_viewD [OF assms(6)] obtain ao ds where v: "areas k x = Some ao" "storages k (ao_storage ao) = Some ds" "s = cow_of k ao ds"
    by blast
  let ?s = "cow_of (k\<lparr>block_disks := dk'\<rparr>) ao ds"
  have s': "area_view (k\<lparr>block_disks := dk'\<rparr>) x = Some ?s" "area ?s = area s" "disks ?s = dk'"
    using v by (simp_all add: area_view_def cow_of_def)
  have "image_of ?s y = dk' (orig_bdev (area s)) y"
    if "\<not> buffer_ready (chunk_of s (y div chunk_bytes (area s)))" "\<not> store_ready (chunk_of s (y div chunk_bytes (area s)))" for y
    using that by (simp add: image_of_def Let_def s'(2,3))
  with run s' assms(7) show ?thesis by (auto simp: Let_def)
qed

section \<open>Copies that fail\<close>

text \<open>Copying only appends bios, and queues no notification.\<close>

definition only_adds_bios :: "cow \<Rightarrow> cow \<Rightarrow> bool" where
  "only_adds_bios s s' \<longleftrightarrow> (\<exists>bios. inflight s' = inflight s @ bios) \<and> notify s' = notify s"

lemma only_adds_refl [simp, intro]: "only_adds_bios s s"
  by (simp add: only_adds_bios_def)

lemma only_adds_trans: "only_adds_bios s s' \<Longrightarrow> only_adds_bios s' s'' \<Longrightarrow> only_adds_bios s s''"
  by (auto simp: only_adds_bios_def)

lemma only_adds_upd [simp]:
  "only_adds_bios s0 (upd_chunk n f s) = only_adds_bios s0 s"
  "only_adds_bios s0 (upd_area g s) = only_adds_bios s0 s"
  "only_adds_bios s0 (s\<lparr>area := a\<rparr>) = only_adds_bios s0 s"
  "only_adds_bios s0 (s\<lparr>storage := ds\<rparr>) = only_adds_bios s0 s"
  "only_adds_bios s0 (up n s) = only_adds_bios s0 s"
  "only_adds_bios s0 (down n s) = only_adds_bios s0 s"
  "only_adds_bios s0 (chunk_diff_buffer_release P n s) = only_adds_bios s0 s"
  "only_adds_bios s0 (diff_area_take_chunk_from_cache n s) = only_adds_bios s0 s"
  by (simp_all add: only_adds_bios_def upd_chunk_def upd_area_def up_def down_def chunk_diff_buffer_release_def
      diff_area_take_chunk_from_cache_def Let_def split: option.split)

abbreviation adds :: "cow \<Rightarrow> cow \<Rightarrow> bool" where
  "adds s s' \<equiv> \<forall>s0. only_adds_bios s0 s \<longrightarrow> only_adds_bios s0 s'"

lemma adds_corrupted: "diff_area_set_corrupted ans e s = Ok s' \<Longrightarrow> adds s s'"
  by (auto simp: diff_area_set_corrupted_def diff_area_event_corrupted_def split: if_splits dest!: bind_outcome_eq_OkD)

lemma adds_failed: "chunk_store_failed P ans n e s = Ok s' \<Longrightarrow> adds s s'"
  by (auto simp: chunk_store_failed_def Let_def split: option.splits dest!: adds_corrupted)

lemma adds_inflight [simp]: "only_adds_bios s0 s \<Longrightarrow> only_adds_bios s0 (s\<lparr>inflight := inflight s @ bios\<rparr>)"
  by (auto simp: only_adds_bios_def)

lemma adds_start_io: "chunk_start_io ans n w st r nowait s = Ok (ret, s') \<Longrightarrow> adds s s'"
  by (auto simp: chunk_start_io_def Let_def only_adds_bios_def upd_chunk_def upd_area_def
      split: option.splits if_splits dest!: bind_outcome_eq_OkD)

lemma adds_storing: "chunk_schedule_storing P ans n nowait s = Ok (ret, s') \<Longrightarrow> adds s s'"
  by (auto simp: chunk_schedule_storing_def chunk_async_store_diff_def Let_def split: if_splits option.splits sum.splits
      dest!: bind_outcome_eq_OkD adds_start_io)

lemma adds_copy: "copy_locked_chunk P ans n nowait s = Ok (ret, s') \<Longrightarrow> adds s s'"
  by (auto simp: copy_locked_chunk_def chunk_async_load_orig_def Let_def split: if_splits prod.splits sum.splits
      dest!: bind_outcome_eq_OkD adds_start_io adds_storing adds_failed)

lemma adds_copy_loop: "copy_loop P ans killed nowait n k s = Ok (res, s') \<Longrightarrow> adds s s'"
proof (induction k arbitrary: n s)
  case (Suc k)
  from Suc.prems show ?case
    by (auto simp: take_lock_def split: if_splits dest!: bind_outcome_eq_OkD adds_corrupted adds_copy Suc.IH)
qed simp

text \<open>With memory and bios granted, copying a chunk that was never touched starts reading it.\<close>

lemma copy_good:
  assumes inv: "cow_inv img ctx s" and n: "n < nchunks s" "\<not> ck_locked (chunk_of s n)" and good: "good_answers ans"
    and fresh: "\<not> failed (chunk_of s n)" "\<not> dirty (chunk_of s n)" "\<not> store_ready (chunk_of s n)" "\<not> buffer_ready (chunk_of s n)"
  shows "\<exists>s'. copy_locked_chunk P ans n nowait (down n s) = Ok (None, s') \<and> ck_locked (chunk_of s' n)"
proof -
  note i = cow_invD [OF inv n(1)]
  note u = unlocked_facts [OF i(2) n(2)]
  have w: "working n img ctx (down n s)" using fresh u(6) by (intro enter_working [OF inv n]) simp
  have cs: "0 < diff_area_chunk_sectors (area (down n s))" by (simp add: diff_area_chunk_sectors_def)
  obtain b a where tk: "diff_buffer_take (area (down n s)) (diff_area_chunk_sectors (area (down n s))) nowait
      (ans_buffer ans) (ans_page ans) = (Inr b, a)"
    using take_good [OF good cs, of "area (down n s)" nowait] by (metis prod.collapse)
  note wt = working_take [OF w tk]
  let ?s2 = "upd_chunk n (\<lambda>c. c\<lparr>ck_buffer := Some b\<rparr>) ((down n s)\<lparr>area := a\<rparr>)"
  have w2: "working n img ctx ?s2" and bf: "buffer_for (diff_area_chunk_sectors (area (down n s))) b" using wt(5) by blast+
  note w2' = workingD [OF w2]
  let ?c = "chunk_of ?s2 n" and ?r = "chunk_orig_region (area ?s2) (chunk_of ?s2 n)"
  note org = orig_region_base [OF others_okD(2) [OF w2'(1)] w2'(2,3)]
  have n1: "n < nchunks ((down n s)\<lparr>area := a\<rparr>)" by (rule workingD(2) [OF wt(1)])
  have c2: "?c = (chunk_of s n)\<lparr>ck_locked := True, ck_buffer := Some b\<rparr>" using n1 wt(3) n(1) by (simp add: down_def)
  have "io_fits ?r b"
  proof -
    have "ck_sector_count ?c \<le> diff_area_chunk_sectors (area ?s2)" "0 < ck_sector_count ?c"
      "buffer_for (diff_area_chunk_sectors (area ?s2)) b" using w2'(3) c2 by (simp_all add: chunk_shape_def)
    with ceil_div_mono [OF this(1), of PAGE_SECTORS] area_ok_sectors(5) [OF others_okD(2) [OF w2'(1)]] org(2,3)
    show ?thesis by (simp add: io_fits_def buffer_for_def check_page_aligned_iff)
  qed
  then obtain io' bios where "diff_io_do \<lparr>io_error = None, io_bio_count = 0, io_is_write = False, io_is_sync = False\<rparr> ?r b (ans_bio ans) =
      Ok (None, io', bios)"
    by (rule diff_io_do_fits [where alloc = "ans_bio ans" and io = "\<lparr>io_error = None, io_bio_count = 0, io_is_write = False, io_is_sync = False\<rparr>"])
      (use good in \<open>auto simp: good_answers_def\<close>)
  then have "\<exists>s'. chunk_async_load_orig ans n nowait ?s2 = Ok (None, s') \<and> ck_locked (chunk_of s' n)"
    using good w2'(2) c2 by (simp add: chunk_async_load_orig_def chunk_start_io_def new_async good_answers_def Let_def chunk_state_set_def)
  then obtain s' where "chunk_async_load_orig ans n nowait ?s2 = Ok (None, s')" "ck_locked (chunk_of s' n)" by blast
  with tk fresh u(5) n(1) show ?thesis by (auto simp: copy_locked_chunk_def Let_def down_def)
qed

text \<open>C33: a copy that fails strands chunks.  If \<^verbatim>\<open>diff_area_copy\<close> fails for a chunk after it has started to
  read others, the bios it has created are dropped with the stack frame: the filter returns, and the
  chunks it had begun with stay locked with no bio in flight and no notification queued that could ever
  unlock them.  This happens without any fault of a device, when a write that may not wait meets a chunk
  that is in use.\<close>

theorem failed_copy_strands_chunks:
  assumes "area_started info ds a" "(cow_step P rw)\<^sup>*\<^sup>* (start_sys info ds dk a) (s, img, ctx)"
    and "\<not> diff_area_is_corrupted (area s)"
    and "diff_area_copy P (sa_copy sa) (sa_copy_killed sa) sector cnt nowait s = Ok (Returned (Some e), s1)"
    and "n < nchunks s" "\<not> ck_locked (chunk_of s n)" "ck_locked (chunk_of s1 n)"
  shows "\<exists>s'. submit_copy P sa sector cnt nowait s = Ok (Returned (if e = EAGAIN then WouldBlock else CopyFailed e), s') \<and>
    ck_locked (chunk_of s' n) \<and> bios_of s' n = [] \<and> notes_of s' n = [] \<and> inflight s' = inflight s"
proof -
  have inv: "cow_inv img ctx s" by (rule reachable_inv(1) [OF assms(1,2)])
  note u = unlocked_facts [OF cow_invD(2) [OF inv assms(5)] assms(6)]
  have "only_adds_bios s s1" using adds_copy_loop [OF assms(4) [unfolded diff_area_copy_def]] by blast
  then obtain bios where b: "inflight s1 = inflight s @ bios" "notify s1 = notify s" by (auto simp: only_adds_bios_def)
  let ?s' = "s1\<lparr>inflight := inflight s\<rparr>"
  have "submit_copy P sa sector cnt nowait s = Ok (Returned (if e = EAGAIN then WouldBlock else CopyFailed e), ?s')"
    using assms(3,4) b(1) by (simp add: submit_copy_def)
  moreover have "bios_of ?s' n = []" "notes_of ?s' n = []" using u b(2) by (simp_all add: bios_of_def notes_of_def)
  ultimately show ?thesis using assms(7) by (intro exI [of _ ?s']) simp
qed

section \<open>Examples\<close>

text \<open>A module with one tracker, whose area is in a given state.\<close>

definition example_kern :: "cbt_map \<Rightarrow> cow \<Rightarrow> kern" where
  "example_kern m s = (kern_init (disks s))
     \<lparr>bdev_extension_list := [\<lparr>ext_dev_id = 8, ext_bdev = 1, bd_filter = Some 0\<rparr>],
      filters := [0 \<mapsto> tracker_zero\<lparr>flt_kref := 2, trk_dev_id := 8, trk_cbt_map := Some 0, trk_diff_area := Some 0,
                            snapshot_is_taken := True\<rparr>],
      cbt_maps := [0 \<mapsto> m],
      areas := [0 \<mapsto> \<lparr>ao_area = area s, ao_storage = 0, ao_inflight = inflight s, ao_notify = notify s\<rparr>],
      storages := [0 \<mapsto> storage s], tracked_device_list := [8], trackers_counter := 2, next_object := 1\<rparr>"

definition example_bio :: write_bio where
  "example_bio = \<lparr>wb_own = False, wb_write = True, wb_sector = 0, wb_sectors = 8, wb_remapped = False, wb_start_sect = 0,
     wb_nowait = False\<rparr>"

definition example_submit :: submit_answers where
  "example_submit = \<lparr>sa_copy = (\<lambda>_. example_answers), sa_copy_killed = (\<lambda>_. False), sa_wait = (\<lambda>_. example_answers),
     sa_wait_killed = (\<lambda>_. False), sa_meanwhile = (\<lambda>s. s)\<rparr>"

lemma kern_init_disks [simp]: "block_disks (kern_init dk) = dk"
  by (simp add: kern_init_def)

lemma cow_eta [simp]:
  "\<lparr>area = area s, storage = storage s, disks = disks s, inflight = inflight s, notify = notify s\<rparr> = (s :: cow)"
  by simp

lemma example_kern_view [simp]: "area_view (example_kern m s) 0 = Some s"
  by (simp add: area_view_def example_kern_def cow_of_def)

lemma example_bio_simps [simp]: "bio_filtered example_bio" "bio_start example_bio = 0" "wb_sectors example_bio = 8" "\<not> wb_nowait example_bio"
  by (simp_all add: example_bio_def bio_filtered_def bio_start_def)

lemma cbt_sample_set: "\<exists>m'. cbt_map_set cbt_sample 0 8 = Ok (None, m')"
proof -
  have "case cbt_map_set cbt_sample 0 8 of Fault \<Rightarrow> False | Ok (r, _) \<Rightarrow> r = None" by code_simp
  then show ?thesis by (auto split: outcome.splits prod.splits)
qed


theorem cbt_corruption_bypasses_copy_witness:
  "\<exists>m s s'. is_corrupted m \<and> tracker_submit_bio example_params example_submit example_bio 0 (example_kern m s) = Ok (Returned False, example_kern m s) \<and>
     area_view ((example_kern m s)\<lparr>block_disks := (\<lambda>_ _. 77)\<rparr>) 0 = Some s' \<and> image_of s 5 = 5 \<and> image_of s' 5 = 77 \<and>
     \<not> diff_area_is_corrupted (area s')"
proof -
  let ?m = "cbt_sample\<lparr>is_corrupted := True\<rparr>" and ?s = "cow_start example_area example_storage example_disks"
  let ?k = "example_kern ?m ?s"
  have f: "filters ?k 0 = Some (tracker_zero\<lparr>flt_kref := 2, trk_dev_id := 8, trk_cbt_map := Some 0, trk_diff_area := Some 0,
      snapshot_is_taken := True\<rparr>)" "cbt_maps ?k 0 = Some ?m" by (simp_all add: example_kern_def)
  have nc: "\<not> diff_area_is_corrupted (area ?s)" using example_quiet by (simp add: quiet_def diff_area_is_corrupted_def)
  have y: "5 div chunk_bytes (area ?s) = 0" by (simp add: example_geometry cow_start_def)
  have c: "\<not> buffer_ready (chunk_of ?s 0)" "\<not> store_ready (chunk_of ?s 0)"
    by (simp_all add: cow_start_def example_chunk fresh_chunk_def)
  have "orig_bdev example_area = 1"
  proof (rule area_startedD [OF example_started], goal_cases)
    case (1 t r)
    from arg_cong [OF 1(7), of orig_bdev] show ?case by (simp add: example_info_def)
  qed
  then have i: "image_of ?s 5 = 5" using c y by (simp add: image_of_def Let_def) (simp add: cow_start_def example_disks_def)
  from cbt_corruption_bypasses_copy [OF f(1) _ f(2), where b = example_bio and x = 0 and s = ?s and P = example_params and
      sa = example_submit and dk' = "\<lambda>_ _. 77"] nc
  have T: "tracker_submit_bio example_params example_submit example_bio 0 ?k = Ok (Returned False, ?k)"
    "\<exists>s'. area_view (?k\<lparr>block_disks := \<lambda>_ _. 77\<rparr>) 0 = Some s' \<and> \<not> diff_area_is_corrupted (area s') \<and> image_of s' 5 = 77"
    using c y by (auto simp: Let_def)
  moreover have "is_corrupted ?m" by simp
  ultimately show ?thesis using i by blast
qed

text \<open>A device of two chunks, the second of which an image request has locked.\<close>

definition two_info :: bdev_info where
  "two_info = \<lparr>bi_bdev = 1, bi_dev_id = 8, bi_nr_sectors = 1024, bi_io_min = 512\<rparr>"

lemma two_new:
  "case diff_area_new area_default_params (Inr two_info) True (\<lambda>_. True) (\<lambda>_. None) example_storage of
     Fault \<Rightarrow> False
   | Ok na \<Rightarrow> (case na_result na of Inl e \<Rightarrow> False | Inr a \<Rightarrow> chunk_shift a = 18 \<and> length (chunk_map a) = 2)"
  by code_simp

lemma two_started: "\<exists>a. area_started two_info example_storage a \<and> chunk_shift a = 18 \<and> length (chunk_map a) = 2"
proof -
  obtain na a where n: "diff_area_new area_default_params (Inr two_info) True (\<lambda>_. True) (\<lambda>_. None) example_storage = Ok na"
    "na_result na = Inr a" "chunk_shift a = 18" "length (chunk_map a) = 2"
    using two_new by (auto split: outcome.splits sum.splits)
  have "ds_wf example_storage" by (simp add: ds_wf_def example_storage_def blk_ok_def)
  moreover have "(bi_bdev two_info, x) \<notin> ds_avail example_storage" for x
    by (simp add: ds_avail_def example_storage_def blk_free_def two_info_def)
  moreover have "0 < unat (bi_nr_sectors two_info)" "unat (bi_nr_sectors two_info) < 2 ^ 55"
    by (simp_all add: two_info_def)
  ultimately have "area_started two_info example_storage a" using n new_area_kref unfolding area_started_def by auto
  with n(3,4) show ?thesis by blast
qed

theorem failed_copy_strands_chunks_witness:
  "\<exists>s s'. submit_copy example_params example_submit 0 1024 True s = Ok (Returned WouldBlock, s') \<and>
     \<not> ck_locked (chunk_of s 0) \<and> ck_locked (chunk_of s' 0) \<and> bios_of s' 0 = [] \<and> notes_of s' 0 = []"
proof -
  from two_started obtain a where a: "area_started two_info example_storage a" "chunk_shift a = 18" "length (chunk_map a) = 2" by blast
  let ?s = "cow_start a example_storage example_disks" and ?ctx = "diff_area_image_ctx_init False" and ?img = "example_disks 1"
  have inv: "cow_inv ?img ?ctx ?s" using start_inv [OF a(1)] by (simp add: two_info_def)
  have ch: "chunk_map a ! n = fresh_chunk 512 n" if "n < 2" for n
  proof (rule area_startedD [OF a(1)], goal_cases)
    case (1 t r)
    from arg_cong [OF 1(7), of chunk_shift] a(2) have "t = 18" by simp
    with arg_cong [OF 1(7), of chunk_map] that show ?case
      by (auto simp: less_2_cases_iff area_chunks_def two_info_def ceil_div_def last_sectors_def upt_rec)
  qed
  have quiet: "quiet ?s = (False, [], [])"
  proof (rule area_startedD [OF a(1)], goal_cases)
    case (1 t r)
    from arg_cong [OF 1(7), of corrupt_flag] show ?case by (simp add: quiet_def cow_start_def diff_area_zero_def)
  qed
  have n: "ctx_chunk ?ctx = None" "1 < nchunks ?s" "\<not> ck_locked (chunk_of ?s 1)" "\<not> failed (chunk_of ?s 1)"
    "\<forall>r. ck_region (chunk_of ?s 1) = Some r \<longrightarrow> check_page_aligned (reg_sector r)"
    using a(3) ch [of 1] by (simp_all add: cow_start_def diff_area_image_ctx_init_def fresh_chunk_def)
  from get_locked_inv [OF inv n(1-3), of example_answers] example_good n(4,5) obtain s where
    g: "get_locked_chunk example_answers 1 (down 1 ?s) = Ok (None, s)" "frame 1 ?s s" "cow_inv ?img (?ctx\<lparr>ctx_chunk := Some 1\<rparr>) s"
    by auto
  have st: "(cow_step example_params False)\<^sup>*\<^sup>* (start_sys two_info example_storage example_disks a) (s, ?img, ?ctx\<lparr>ctx_chunk := Some 1\<rparr>)"
    using cow_step.image_get [OF n(1-3) g(1), of example_params False ?img] by (simp add: start_sys_def two_info_def)
  have nc: "nchunks s = 2" "chunk_of s 0 = fresh_chunk 512 0" "chunk_shift (area s) = 18"
    using frameD(6) [OF g(2), of 0] g(2) ch [of 0] a by (auto simp: frame_def cow_start_def)
  have l1: "ck_locked (chunk_of s 1)"
    using cow_invD(2) [OF g(3), of 1] nc(1) by (auto simp: control_ok_def Let_def split: option.splits)
  have z: "0 < nchunks s" "\<not> ck_locked (chunk_of s 0)" "\<not> failed (chunk_of s 0)" "\<not> dirty (chunk_of s 0)"
    "\<not> store_ready (chunk_of s 0)" "\<not> buffer_ready (chunk_of s 0)"
    using nc by (simp_all add: fresh_chunk_def)
  from copy_good [OF g(3) z(1,2) example_good z(3-6), of example_params True] obtain s1 where
    c: "copy_locked_chunk example_params example_answers 0 True (down 0 s) = Ok (None, s1)" "ck_locked (chunk_of s1 0)" by blast
  from copy_chunk_inv [OF g(3) z(1,2), of example_params example_answers True] c(1) have f: "frame 0 s s1" by auto
  then have s1: "nchunks s1 = 2" "chunk_of s1 1 = chunk_of s 1" using nc(1) frameD(6) [OF f, of 1] by (auto simp: frame_def)
  have geo: "chunk_number (area s) 0 = 0" "range_chunks (area s) 0 1024 = Suc (Suc 0)"
    using nc(3) by (simp_all add: chunk_number_def range_chunks_def diff_area_chunk_sectors_def ceil_div_def Let_def)
  have cp: "diff_area_copy example_params (sa_copy example_submit) (sa_copy_killed example_submit) 0 1024 True s = Ok (Returned (Some EAGAIN), s1)"
    using z(1,2) c(1) s1 l1 by (simp add: diff_area_copy_def geo take_lock_def example_submit_def nc(1))
  have "silent ?s ?s" by (simp add: silent_def)
  then have "silent ?s s" using silent_get_locked [OF g(1)] by simp
  then have "\<not> diff_area_is_corrupted (area s)" using quiet by (simp add: silent_def quiet_def diff_area_is_corrupted_def)
  from failed_copy_strands_chunks [OF a(1) st this cp z(1,2) c(2)] z(2) show ?thesis by auto
qed

end
