(* ===== verification/Snapimage.thy ===== *)
theory Snapimage
  imports Tracker_Copy
begin

text \<open>
  Snapshot images, \<^verbatim>\<open>module/snapimage.c\<close> and \<^verbatim>\<open>module/snapimage.h\<close>: the block device that presents the
  snapshot.  Its bios are queued by \<^verbatim>\<open>snapimage_submit_bio\<close> and processed by one worker thread, segment by
  segment, with the image functions of the difference area.

  A bio carries the bytes of its segments, so that a processed read bio carries what it delivers.  The
  answers of the kernel are in \<open>image_answers\<close>; \<open>ia_meanwhile\<close> is what other threads do before a segment
  is processed, also while \<^verbatim>\<open>diff_area_throttling_io\<close> delays the worker.
\<close>

section \<open>Bios of the image\<close>

record image_bio =
  ib_write :: bool
  ib_sector :: sector_t
  ib_vecs :: "u8 list list"
  ib_status :: ret

record image_answers =
  ia_io :: "nat \<Rightarrow> nat \<Rightarrow> answers"
  ia_killed :: "nat \<Rightarrow> nat \<Rightarrow> bool"
  ia_done :: answers
  ia_meanwhile :: "nat \<Rightarrow> cow \<Rightarrow> cow"

text \<open>The bytes of a segment after \<^verbatim>\<open>diff_area_image_io\<close>: a read fills it from the start.\<close>

definition segment_after :: "bool \<Rightarrow> u8 list \<Rightarrow> u8 list \<Rightarrow> u8 list" where
  "segment_after is_write out v = (if is_write then v else out @ drop (length out) v)"

text \<open>The loop over the segments, which ends at the first that fails.  The Boolean is the status of the
  last segment processed.\<close>

fun image_segments ::
  "cow_params \<Rightarrow> image_answers \<Rightarrow> nat \<Rightarrow> nat \<Rightarrow> u8 list list \<Rightarrow> diff_area_image_ctx \<Rightarrow> cow \<Rightarrow>
     ((bool \<times> u8 list list) lock_result \<times> diff_area_image_ctx \<times> cow) outcome" where
  "image_segments P ia i pos [] ctx s = Ok (Returned (True, []), ctx, s)"
| "image_segments P ia i pos (v # vs) ctx s =
     bind_outcome
       (diff_area_image_io P (ia_io ia i) (ia_killed ia i) ctx (length v) (if ctx_is_write ctx then v else []) pos
          (ia_meanwhile ia i s))
       (\<lambda>(res, ctx1, s1).
          case res of
            Blocked n \<Rightarrow> Ok (Blocked n, ctx1, s1)
          | Returned ii \<Rightarrow>
              let v' = segment_after (ctx_is_write ctx) (ii_out ii) v
              in if \<not> ii_ok ii then Ok (Returned (False, v' # vs), ctx1, s1)
                 else bind_outcome (image_segments P ia (Suc i) (ii_pos ii) vs ctx1 s1) (\<lambda>(res', ctx2, s2).
                        Ok (case res' of
                              Blocked n \<Rightarrow> Blocked n
                            | Returned (ok, vs') \<Rightarrow> Returned (ok, v' # vs'), ctx2, s2)))"

text \<open>\<^verbatim>\<open>snapimage_process_bio\<close>: \<^verbatim>\<open>bio_endio\<close> ends the bio with the status it came with; the status of the
  segments, which is returned here beside the bio, is dropped by the code.\<close>

definition snapimage_process_bio ::
  "cow_params \<Rightarrow> image_answers \<Rightarrow> image_bio \<Rightarrow> cow \<Rightarrow> ((bool \<times> image_bio) lock_result \<times> cow) outcome" where
  "snapimage_process_bio P ia b s =
     bind_outcome
       (image_segments P ia 0 (unat (ib_sector b)) (ib_vecs b) (diff_area_image_ctx_init (ib_write b)) s)
       (\<lambda>(res, ctx, s1).
          case res of
            Blocked n \<Rightarrow> Ok (Blocked n, s1)
          | Returned (st, vecs) \<Rightarrow>
              bind_outcome (diff_area_image_ctx_done P (ia_done ia) ctx s1) (\<lambda>s2.
                Ok (Returned (st, b\<lparr>ib_vecs := vecs\<rparr>), s2)))"

section \<open>The queue and the worker\<close>

record snapimage =
  si_capacity :: sector_t
  si_worker :: bool
  si_queue :: "image_bio list"
  si_disk :: "u32 \<times> u32"
  si_diff_area :: nat
  si_cbt_map :: nat

definition bio_list_add :: "image_bio \<Rightarrow> snapimage \<Rightarrow> snapimage" where
  "bio_list_add b si = si\<lparr>si_queue := si_queue si @ [b]\<rparr>"

definition get_bio_from_queue :: "snapimage \<Rightarrow> image_bio option \<times> snapimage" where
  "get_bio_from_queue si =
     (case si_queue si of [] \<Rightarrow> (None, si) | b # bs \<Rightarrow> (Some b, si\<lparr>si_queue := bs\<rparr>))"

text \<open>A submitted bio is queued, or ended with an error at once when the snapshot is corrupted: the second
  component.\<close>

definition snapimage_submit_bio :: "image_bio \<Rightarrow> cow \<Rightarrow> snapimage \<Rightarrow> snapimage \<times> image_bio option" where
  "snapimage_submit_bio b s si =
     (if \<not> diff_area_is_corrupted (area s) then (bio_list_add b si, None)
      else (si, Some (b\<lparr>ib_status := Some EIO\<rparr>)))"

text \<open>The inner loop of the worker: it returns the bios it has ended, and the chunk at which it sleeps, if it
  does.\<close>

function worker_loop ::
  "cow_params \<Rightarrow> (nat \<Rightarrow> image_answers) \<Rightarrow> nat \<Rightarrow> snapimage \<Rightarrow> cow \<Rightarrow>
     ((bool \<times> image_bio) list \<times> nat option \<times> snapimage \<times> cow) outcome" where
  "worker_loop P ia i si s =
     (case get_bio_from_queue si of
        (None, si') \<Rightarrow> Ok ([], None, si', s)
      | (Some b, si') \<Rightarrow>
          bind_outcome (snapimage_process_bio P (ia i) b s) (\<lambda>(res, s1).
            case res of
              Blocked n \<Rightarrow> Ok ([], Some n, si', s1)
            | Returned e \<Rightarrow>
                bind_outcome (worker_loop P ia (Suc i) si' s1) (\<lambda>(es, slept, si2, s2).
                  Ok (e # es, slept, si2, s2))))"
  by pat_completeness auto
termination
  by (relation "measure (\<lambda>(_, _, _, si, _). length (si_queue si))")
    (auto simp: get_bio_from_queue_def split: list.splits)

declare worker_loop.simps [simp del]

text \<open>The thread: between two runs of the inner loop new bios are submitted, and after the last one the
  thread is told to stop.\<close>

fun submit_all :: "image_bio list \<Rightarrow> cow \<Rightarrow> snapimage \<Rightarrow> snapimage \<times> image_bio list" where
  "submit_all [] s si = (si, [])"
| "submit_all (b # bs) s si =
     (case snapimage_submit_bio b s si of (si1, e) \<Rightarrow>
      case submit_all bs s si1 of (si2, es) \<Rightarrow> (si2, (case e of None \<Rightarrow> es | Some b' \<Rightarrow> b' # es)))"

fun snapimage_kthread_worker_fn ::
  "cow_params \<Rightarrow> (nat \<Rightarrow> image_answers) \<Rightarrow> nat \<Rightarrow> image_bio list list \<Rightarrow> snapimage \<Rightarrow> cow \<Rightarrow>
     ((bool \<times> image_bio) list \<times> nat option \<times> snapimage \<times> cow) outcome" where
  "snapimage_kthread_worker_fn P ia i [] si s = worker_loop P ia i si s"
| "snapimage_kthread_worker_fn P ia i (bs # bss) si s =
     bind_outcome (worker_loop P ia i si s) (\<lambda>(es, slept, si1, s1).
       if slept \<noteq> None then Ok (es, slept, si1, s1)
       else case submit_all bs s1 si1 of (si2, errs) \<Rightarrow>
         bind_outcome (snapimage_kthread_worker_fn P ia (i + length es) bss si2 s1) (\<lambda>(es', slept', si3, s3).
           Ok (es @ map (Pair True) errs @ es', slept', si3, s3)))"

interpretation ibq: fifo bio_list_add get_bio_from_queue si_queue
  by unfold_locales (auto simp: bio_list_add_def get_bio_from_queue_def)

section \<open>Creation and release\<close>

text \<open>The module with its images.\<close>

record image_state =
  ms_kern :: kern
  snapimages :: "nat \<Rightarrow> snapimage option"
  next_image :: nat

text \<open>The answers to \<^verbatim>\<open>snapimage_create\<close>: the allocation, the thread, the disk, its name, \<^verbatim>\<open>add_disk\<close> and the numbers
  it assigns.  \<open>ie_put_frees\<close> says whether \<^verbatim>\<open>put_disk\<close> calls \<^verbatim>\<open>free_disk\<close> for a disk that was not added; that
  differs between kernels.\<close>

record image_env =
  ie_kzalloc :: bool
  ie_kthread :: ret
  ie_alloc_disk :: bool
  ie_name_ok :: bool
  ie_add_disk :: ret
  ie_disk :: "u32 \<times> u32"
  ie_put_frees :: bool

text \<open>An operation that may fall asleep on a chunk, followed by another.\<close>

definition bind_lock ::
  "('a lock_result \<times> 's) outcome \<Rightarrow> ('a \<Rightarrow> 's \<Rightarrow> ('b lock_result \<times> 's) outcome) \<Rightarrow> ('b lock_result \<times> 's) outcome" where
  "bind_lock m f =
     bind_outcome m (\<lambda>(r, s). case r of Blocked n \<Rightarrow> Ok (Blocked n, s) | Returned x \<Rightarrow> f x s)"

lemma bind_lock_simps [simp]:
  "bind_lock Fault f = Fault" "bind_lock (Ok (Blocked n, s)) f = Ok (Blocked n, s)"
  "bind_lock (Ok (Returned x, s)) f = f x s"
  by (simp_all add: bind_lock_def)

definition get_area :: "nat \<Rightarrow> kern \<Rightarrow> kern outcome" where
  "get_area a k =
     (case areas k a of
        None \<Rightarrow> Fault
      | Some ao \<Rightarrow> Ok (k\<lparr>areas := (areas k)(a \<mapsto> ao\<lparr>ao_area := diff_area_get (ao_area ao)\<rparr>)\<rparr>))"

definition get_map :: "nat \<Rightarrow> kern \<Rightarrow> kern outcome" where
  "get_map c k =
     (case cbt_maps k c of
        None \<Rightarrow> Fault
      | Some m \<Rightarrow> Ok (k\<lparr>cbt_maps := (cbt_maps k)(c \<mapsto> cbt_map_get m)\<rparr>))"

definition snapimage_free_disk ::
  "cow_params \<Rightarrow> nat \<Rightarrow> 'm image_state_scheme \<Rightarrow> 'm image_state_scheme outcome" where
  "snapimage_free_disk P i st =
     (case snapimages st i of
        None \<Rightarrow> Fault
      | Some si \<Rightarrow>
          bind_outcome (put_area P (Some (si_diff_area si)) (ms_kern st)) (\<lambda>k1.
          bind_outcome (put_map (Some (si_cbt_map si)) k1) (\<lambda>k2.
            Ok (st\<lparr>ms_kern := k2, snapimages := (snapimages st)(i := None)\<rparr>))))"

text \<open>\<^verbatim>\<open>kthread_stop\<close> lets the worker finish its queue; then the last reference to the disk is dropped, which calls
  \<^verbatim>\<open>snapimage_free_disk\<close>.\<close>

definition snapimage_free ::
  "cow_params \<Rightarrow> (nat \<Rightarrow> image_answers) \<Rightarrow> nat \<Rightarrow> 'm image_state_scheme \<Rightarrow>
     (unit lock_result \<times> 'm image_state_scheme) outcome" where
  "snapimage_free P ia i st =
     (case snapimages st i of
        None \<Rightarrow> Fault
      | Some si \<Rightarrow>
          bind_outcome
            (with_area (si_diff_area si)
               (\<lambda>s. bind_outcome (snapimage_kthread_worker_fn P ia 0 [] si s)
                      (\<lambda>(es, slept, si', s'). Ok ((slept, si'), s'))) (ms_kern st))
            (\<lambda>((slept, si'), k).
               let st1 = st\<lparr>ms_kern := k, snapimages := (snapimages st)(i \<mapsto> si'\<lparr>si_worker := slept \<noteq> None\<rparr>)\<rparr>
               in case slept of
                    Some n \<Rightarrow> Ok (Blocked n, st1)
                  | None \<Rightarrow> bind_outcome (snapimage_free_disk P i st1) (\<lambda>st2. Ok (Returned (), st2))))"

definition snapimage_create ::
  "cow_params \<Rightarrow> image_env \<Rightarrow> nat \<Rightarrow> nat \<Rightarrow> 'm image_state_scheme \<Rightarrow>
     (nat result \<times> 'm image_state_scheme) outcome" where
  "snapimage_create P env a c st =
     (case (areas (ms_kern st) a, cbt_maps (ms_kern st) c) of
        (Some ao, Some m) \<Rightarrow>
          if \<not> ie_kzalloc env then Ok (Inl ENOMEM, st)
          else (case ie_kthread env of
            Some e \<Rightarrow> Ok (Inl e, st)
          | None \<Rightarrow>
              if \<not> ie_alloc_disk env then Ok (Inl ENOMEM, st)
              else
                bind_outcome (get_area a (ms_kern st)) (\<lambda>k1.
                bind_outcome (get_map c k1) (\<lambda>k2.
                  let i = next_image st;
                      si = \<lparr>si_capacity = device_capacity m, si_worker = True, si_queue = [], si_disk = ie_disk env,
                            si_diff_area = a, si_cbt_map = c\<rparr>;
                      st1 = st\<lparr>ms_kern := k2, snapimages := (snapimages st)(i \<mapsto> si), next_image := Suc i\<rparr>;
                      fail_cleanup_disk = (\<lambda>e.
                        let st2 = st1\<lparr>snapimages := (snapimages st)(i \<mapsto> si\<lparr>si_worker := False\<rparr>)\<rparr>
                        in if ie_put_frees env
                           then bind_outcome (snapimage_free_disk P i st2) (\<lambda>st3. Ok (Inl e, st3))
                           else Ok (Inl e, st2))
                  in if \<not> ie_name_ok env then fail_cleanup_disk EINVAL
                     else case ie_add_disk env of
                       Some e \<Rightarrow> fail_cleanup_disk e
                     | None \<Rightarrow> Ok (Inr i, st1))))
      | _ \<Rightarrow> Fault)"

section \<open>Processing a bio\<close>

text \<open>One turn of the loop inside a segment, and the position that a successful segment ends at.\<close>

lemma image_io_turn:
  assumes inv: "cow_inv img ctx s" and dl: "SECTOR_SIZE dvd left" and l0: "left \<noteq> 0"
    and ld: "ctx_is_write ctx \<longrightarrow> left \<le> length (ii_data ii)"
  shows "\<exists>img1 ctx1 s1. cow_inv img1 ctx1 s1 \<and> ctx_is_write ctx1 = ctx_is_write ctx \<and>
    ((\<exists>res. image_io_loop P ans killed (Suc fuel) left ii ctx s = Ok (res, ctx1, s1) \<and>
        (\<forall>ii'. res = Returned ii' \<longrightarrow> \<not> ii_ok ii')) \<or>
     (\<exists>m ii1. image_io_loop P ans killed (Suc fuel) left ii ctx s = image_io_loop P ans killed fuel (left - m) ii1 ctx1 s1 \<and>
        0 < m \<and> m \<le> left \<and> SECTOR_SIZE dvd m \<and> ii_pos ii1 * SECTOR_SIZE = ii_pos ii * SECTOR_SIZE + m \<and>
        (ctx_is_write ctx \<longrightarrow> left - m \<le> length (ii_data ii1))))"
proof (cases "ctx_is_write ctx")
  case True
  with ld have "left \<le> length (ii_data ii)" by simp
  from image_io_write_turn [OF inv True dl l0 this, of P ans killed fuel] obtain ctx1 s1 m where
    t: "cow_inv (image_write (ii_pos ii * SECTOR_SIZE) (take m (ii_data ii)) img) ctx1 s1" "ctx_is_write ctx1 = ctx_is_write ctx"
    "(\<exists>res. image_io_loop P ans killed (Suc fuel) left ii ctx s = Ok (res, ctx1, s1) \<and> m = 0 \<and>
        (\<forall>ii'. res = Returned ii' \<longrightarrow> \<not> ii_ok ii')) \<or>
     (\<exists>ii1. image_io_loop P ans killed (Suc fuel) left ii ctx s = image_io_loop P ans killed fuel (left - m) ii1 ctx1 s1 \<and>
        ii_ok ii1 \<and> 0 < m \<and> m \<le> left \<and> SECTOR_SIZE dvd m \<and>
        ii_pos ii1 * SECTOR_SIZE = ii_pos ii * SECTOR_SIZE + m \<and> ii_data ii1 = drop m (ii_data ii))"
    by (elim exE conjE) (rule that)
  have "left - m \<le> length (drop m (ii_data ii))" using ld True by simp
  with t show ?thesis by metis
next
  case False
  from image_io_read_turn [OF inv False dl l0, of P ans killed fuel ii] False show ?thesis by blast
qed

lemma image_io_position:
  assumes "cow_inv img ctx s" "SECTOR_SIZE dvd left" "ctx_is_write ctx \<longrightarrow> left \<le> length (ii_data ii)"
    and "image_io_loop P ans killed fuel left ii ctx s = Ok (res, ctx', s')"
  shows "ctx_is_write ctx' = ctx_is_write ctx \<and>
    (\<forall>ii'. res = Returned ii' \<longrightarrow> ii_ok ii' \<longrightarrow> ii_pos ii' * SECTOR_SIZE = ii_pos ii * SECTOR_SIZE + left)"
  using assms
proof (induction fuel arbitrary: left ii ctx s img)
  case 0
  then show ?case by (auto simp: image_io_loop.simps [of _ _ _ 0] split: if_splits)
next
  case (Suc fuel)
  show ?case
  proof (cases "left = 0")
    case True
    with Suc.prems(4) show ?thesis by (auto simp: image_io_loop.simps [of _ _ _ "Suc fuel"])
  next
    case False
    from image_io_turn [OF Suc.prems(1,2) False Suc.prems(3), of P ans killed fuel] obtain img1 ctx1 s1 where
      t: "cow_inv img1 ctx1 s1" "ctx_is_write ctx1 = ctx_is_write ctx"
      "(\<exists>res. image_io_loop P ans killed (Suc fuel) left ii ctx s = Ok (res, ctx1, s1) \<and>
        (\<forall>ii'. res = Returned ii' \<longrightarrow> \<not> ii_ok ii')) \<or>
       (\<exists>m ii1. image_io_loop P ans killed (Suc fuel) left ii ctx s = image_io_loop P ans killed fuel (left - m) ii1 ctx1 s1 \<and>
        0 < m \<and> m \<le> left \<and> SECTOR_SIZE dvd m \<and> ii_pos ii1 * SECTOR_SIZE = ii_pos ii * SECTOR_SIZE + m \<and>
        (ctx_is_write ctx \<longrightarrow> left - m \<le> length (ii_data ii1)))"
      by (elim exE conjE) (rule that)
    from t(3) show ?thesis
    proof (rule disjE, goal_cases)
      case 1
      with Suc.prems(4) t(2) show ?thesis by auto
    next
      case 2
      then obtain m ii1 where m: "image_io_loop P ans killed (Suc fuel) left ii ctx s = image_io_loop P ans killed fuel (left - m) ii1 ctx1 s1"
        "0 < m" "m \<le> left" "SECTOR_SIZE dvd m" "ii_pos ii1 * SECTOR_SIZE = ii_pos ii * SECTOR_SIZE + m"
        "ctx_is_write ctx \<longrightarrow> left - m \<le> length (ii_data ii1)"
        by (elim exE conjE) (rule that)
      have "SECTOR_SIZE dvd left - m" using Suc.prems(2) m(4) by (rule dvd_diff_nat)
      from Suc.IH [OF t(1) this] m Suc.prems(4) t(2) show ?thesis by simp
    qed
  qed
qed

text \<open>Other threads, which do not write to the image, run before a segment is processed.\<close>

definition others_run :: "cow_params \<Rightarrow> image_answers \<Rightarrow> bool" where
  "others_run P ia \<longleftrightarrow> (\<forall>i s img ctx. (cow_step P False)\<^sup>*\<^sup>* (s, img, ctx) (ia_meanwhile ia i s, img, ctx))"

lemma meanwhile_inv:
  assumes "others_run P ia" "cow_inv img ctx s"
  shows "cow_inv img ctx (ia_meanwhile ia i s)" "step_keeps s (ia_meanwhile ia i s)" "sizes (ia_meanwhile ia i s) = sizes s"
proof -
  have st: "(cow_step P False)\<^sup>*\<^sup>* (s, img, ctx) (ia_meanwhile ia i s, img, ctx)" using assms(1) by (simp add: others_run_def)
  from cow_steps_inv [OF st] assms(2) show "cow_inv img ctx (ia_meanwhile ia i s)" "step_keeps s (ia_meanwhile ia i s)" by simp_all
  from sizes_steps [OF st] show "sizes (ia_meanwhile ia i s) = sizes s" by simp
qed

lemma image_segments_read:
  assumes mw: "others_run P ia" and "cow_inv img ctx s" "\<not> ctx_is_write ctx" "\<forall>v\<in>set vs. SECTOR_SIZE dvd length v"
  shows "\<exists>res ctx' s'. image_segments P ia i pos vs ctx s = Ok (res, ctx', s') \<and> cow_inv img ctx' s' \<and>
    step_keeps s s' \<and> sizes s' = sizes s \<and> \<not> ctx_is_write ctx' \<and>
    (\<forall>vs'. res = Returned (True, vs') \<longrightarrow> \<not> corrupt_flag (area s') \<longrightarrow>
       (\<forall>j<length (concat vs). image_valid s (pos * SECTOR_SIZE + j)) \<longrightarrow>
       concat vs' = map (\<lambda>j. img (pos * SECTOR_SIZE + j)) [0..<length (concat vs)])"
  using assms(2-)
proof (induction vs arbitrary: i pos ctx s)
  case (Cons v vs)
  let ?s = "ia_meanwhile ia i s" and ?ii = "\<lparr>ii_ok = True, ii_pos = pos, ii_data = [], ii_out = []\<rparr>"
  note m = meanwhile_inv [OF mw Cons.prems(1), of i]
  have dv: "SECTOR_SIZE dvd length v" "\<forall>v\<in>set vs. SECTOR_SIZE dvd length v" using Cons.prems(3) by simp_all
  have ok: "ii_ok ?ii" by simp
  from image_io_read [OF m(1) Cons.prems(2) dv(1) order_refl ok, of P "ia_io ia i" "ia_killed ia i"]
  obtain res ctx1 s1 where io: "image_io_loop P (ia_io ia i) (ia_killed ia i) (length v) (length v) ?ii ctx ?s = Ok (res, ctx1, s1)"
    "cow_inv img ctx1 s1" "step_keeps ?s s1" "sizes s1 = sizes ?s"
    "\<forall>ii'. res = Returned ii' \<longrightarrow> ii_ok ii' \<longrightarrow> \<not> corrupt_flag (area s1) \<longrightarrow>
       (\<forall>i<length v. image_valid ?s (ii_pos ?ii * SECTOR_SIZE + i)) \<longrightarrow>
       ii_out ii' = ii_out ?ii @ map (\<lambda>i. img (ii_pos ?ii * SECTOR_SIZE + i)) [0..<length v]"
    by (elim exE conjE) (rule that)
  have k1: "step_keeps s s1" "sizes s1 = sizes s" using step_keeps_trans [OF m(2) io(3)] io(4) m(3) by simp_all
  have w1: "\<not> ctx_is_write ctx1" and pos: "\<forall>ii'. res = Returned ii' \<longrightarrow> ii_ok ii' \<longrightarrow>
      ii_pos ii' * SECTOR_SIZE = pos * SECTOR_SIZE + length v"
    using image_io_position [OF m(1) dv(1) _ io(1)] Cons.prems(2) by simp_all
  show ?case
  proof (cases "\<exists>ii. res = Returned ii \<and> ii_ok ii")
    case False
    with io(1,2) k1 w1 Cons.prems(2) show ?thesis by (cases res) (auto simp: diff_area_image_io_def Let_def)
  next
    case True
    then obtain ii where ii: "res = Returned ii" "ii_ok ii" by blast
    from Cons.IH [OF io(2) w1 dv(2), of "Suc i" "ii_pos ii"] obtain res2 ctx2 s2 where IH:
      "image_segments P ia (Suc i) (ii_pos ii) vs ctx1 s1 = Ok (res2, ctx2, s2)" "cow_inv img ctx2 s2" "step_keeps s1 s2"
      "sizes s2 = sizes s1" "\<not> ctx_is_write ctx2"
      "\<forall>vs'. res2 = Returned (True, vs') \<longrightarrow> \<not> corrupt_flag (area s2) \<longrightarrow>
         (\<forall>j<length (concat vs). image_valid s1 (ii_pos ii * SECTOR_SIZE + j)) \<longrightarrow>
         concat vs' = map (\<lambda>j. img (ii_pos ii * SECTOR_SIZE + j)) [0..<length (concat vs)]"
      by (elim exE conjE) (rule that)
    have p: "ii_pos ii * SECTOR_SIZE = pos * SECTOR_SIZE + length v" using pos ii by blast
    let ?v = "segment_after False (ii_out ii) v"
    let ?res = "case res2 of Blocked n \<Rightarrow> Blocked n | Returned (ok, vs') \<Rightarrow> Returned (ok, ?v # vs')"
    have run: "image_segments P ia i pos (v # vs) ctx s = Ok (?res, ctx2, s2)"
      using io(1) ii IH(1) Cons.prems(2) by (simp add: diff_area_image_io_def Let_def)
    have "concat ws = map (\<lambda>j. img (pos * SECTOR_SIZE + j)) [0..<length (concat (v # vs))]"
      if h: "?res = Returned (True, ws)" "\<not> corrupt_flag (area s2)"
        "\<forall>j<length (concat (v # vs)). image_valid s (pos * SECTOR_SIZE + j)" for ws
    proof -
      from h(1) obtain vs' where vs': "res2 = Returned (True, vs')" "ws = ?v # vs'"
        by (cases res2) auto
      have "image_valid s1 (ii_pos ii * SECTOR_SIZE + j)" if "j < length (concat vs)" for j
        using h(3) [rule_format, of "length v + j"] that image_valid_cong [OF k1] by (simp add: p add.assoc)
      with IH(6) vs'(1) h(2) have r: "concat vs' = map (\<lambda>j. img (ii_pos ii * SECTOR_SIZE + j)) [0..<length (concat vs)]" by blast
      have "\<not> corrupt_flag (area s1)" using h(2) IH(3) by (auto simp: step_keeps_def)
      moreover have "image_valid ?s (pos * SECTOR_SIZE + j)" if "j < length v" for j
        using h(3) that image_valid_cong [OF m(2,3)] by simp
      ultimately have "ii_out ii = map (\<lambda>j. img (pos * SECTOR_SIZE + j)) [0..<length v]" using io(5) ii by simp
      then have "?v = map (\<lambda>j. img (pos * SECTOR_SIZE + j)) [0..<length v]" by (simp add: segment_after_def)
      with r vs'(2) show ?thesis
        using map_upt_split [of "length v" "length v + length (concat vs)" "\<lambda>j. img (pos * SECTOR_SIZE + j)"]
        by (simp add: p add.assoc)
    qed
    with run IH(2-5) step_keeps_trans [OF k1(1) IH(3)] k1(2) show ?thesis by (simp only: simp_thms) auto
  qed
qed simp

lemma image_segments_write:
  assumes mw: "others_run P ia" and "cow_inv img ctx s" "ctx_is_write ctx" "\<forall>v\<in>set vs. SECTOR_SIZE dvd length v"
  shows "\<exists>res ctx' s' k. image_segments P ia i pos vs ctx s = Ok (res, ctx', s') \<and> k \<le> length (concat vs) \<and>
    cow_inv (image_write (pos * SECTOR_SIZE) (take k (concat vs)) img) ctx' s' \<and>
    step_keeps s s' \<and> sizes s' = sizes s \<and> ctx_is_write ctx' \<and>
    (\<forall>ok vs'. res = Returned (ok, vs') \<longrightarrow> vs' = vs \<and> (ok \<longrightarrow> k = length (concat vs)))"
  using assms(2-)
proof (induction vs arbitrary: i pos ctx s img)
  case (Cons v vs)
  let ?s = "ia_meanwhile ia i s" and ?ii = "\<lparr>ii_ok = True, ii_pos = pos, ii_data = v, ii_out = []\<rparr>"
  note m = meanwhile_inv [OF mw Cons.prems(1), of i]
  have dv: "SECTOR_SIZE dvd length v" "\<forall>v\<in>set vs. SECTOR_SIZE dvd length v" "length v \<le> length (ii_data ?ii)"
    using Cons.prems(3) by simp_all
  from image_io_write [OF m(1) Cons.prems(2) dv(1) order_refl dv(3), of P "ia_io ia i" "ia_killed ia i"]
  obtain res ctx1 s1 k where io: "image_io_loop P (ia_io ia i) (ia_killed ia i) (length v) (length v) ?ii ctx ?s = Ok (res, ctx1, s1)"
    "k \<le> length v" "cow_inv (image_write (ii_pos ?ii * SECTOR_SIZE) (take k (ii_data ?ii)) img) ctx1 s1"
    "step_keeps ?s s1" "sizes s1 = sizes ?s" "\<forall>ii'. res = Returned ii' \<longrightarrow> ii_ok ii' \<longrightarrow> k = length v"
    by (elim exE conjE) (rule that)
  have k1: "step_keeps s s1" "sizes s1 = sizes s" using step_keeps_trans [OF m(2) io(4)] io(5) m(3) by simp_all
  have w1: "ctx_is_write ctx1" and pos: "\<forall>ii'. res = Returned ii' \<longrightarrow> ii_ok ii' \<longrightarrow>
      ii_pos ii' * SECTOR_SIZE = pos * SECTOR_SIZE + length v"
    using image_io_position [OF m(1) dv(1) _ io(1)] Cons.prems(2) by simp_all
  show ?case
  proof (cases "\<exists>ii. res = Returned ii \<and> ii_ok ii")
    case False
    have e: "take k (concat (v # vs)) = take k v" using io(2) by simp
    have i: "cow_inv (image_write (pos * SECTOR_SIZE) (take k (concat (v # vs))) img) ctx1 s1" unfolding e using io(3) by simp
    have "k \<le> length (concat (v # vs))" using io(2) by simp
    moreover have "\<exists>r. image_segments P ia i pos (v # vs) ctx s = Ok (r, ctx1, s1) \<and> (\<forall>ok ws. r = Returned (ok, ws) \<longrightarrow> ws = v # vs \<and> \<not> ok)"
      using io(1) Cons.prems(2) False by (cases res) (auto simp: diff_area_image_io_def Let_def segment_after_def)
    ultimately show ?thesis using i k1 w1 by blast
  next
    case True
    then obtain ii where ii: "res = Returned ii" "ii_ok ii" by blast
    with io(6) have kv: "k = length v" by blast
    have p: "ii_pos ii * SECTOR_SIZE = pos * SECTOR_SIZE + length v" using pos ii by blast
    from io(3) kv have i1: "cow_inv (image_write (pos * SECTOR_SIZE) v img) ctx1 s1" by simp
    from Cons.IH [OF i1 w1 dv(2), of "Suc i" "ii_pos ii"] obtain res2 ctx2 s2 k2 where IH:
      "image_segments P ia (Suc i) (ii_pos ii) vs ctx1 s1 = Ok (res2, ctx2, s2)" "k2 \<le> length (concat vs)"
      "cow_inv (image_write (ii_pos ii * SECTOR_SIZE) (take k2 (concat vs)) (image_write (pos * SECTOR_SIZE) v img)) ctx2 s2"
      "step_keeps s1 s2" "sizes s2 = sizes s1" "ctx_is_write ctx2"
      "\<forall>ok vs'. res2 = Returned (ok, vs') \<longrightarrow> vs' = vs \<and> (ok \<longrightarrow> k2 = length (concat vs))"
      by (elim exE conjE) (rule that)
    have "image_write (ii_pos ii * SECTOR_SIZE) (take k2 (concat vs)) (image_write (pos * SECTOR_SIZE) v img) =
        image_write (pos * SECTOR_SIZE) (take (length v + k2) (concat (v # vs))) img"
      unfolding p by (simp add: image_write_append)
    with IH(3) have i2: "cow_inv (image_write (pos * SECTOR_SIZE) (take (length v + k2) (concat (v # vs))) img) ctx2 s2" by simp
    let ?res = "case res2 of Blocked n \<Rightarrow> Blocked n | Returned (ok, vs') \<Rightarrow> Returned (ok, v # vs')"
    have run: "image_segments P ia i pos (v # vs) ctx s = Ok (?res, ctx2, s2)"
      using io(1) ii IH(1) Cons.prems(2) by (simp add: diff_area_image_io_def Let_def segment_after_def)
    have fin: "\<forall>ok ws. ?res = Returned (ok, ws) \<longrightarrow> ws = v # vs \<and> (ok \<longrightarrow> length v + k2 = length (concat (v # vs)))"
      using IH(7) by (cases res2) auto
    have "length v + k2 \<le> length (concat (v # vs))" "step_keeps s s2" "sizes s2 = sizes s"
      using IH(2,5) step_keeps_trans [OF k1(1) IH(4)] k1(2) by simp_all
    with run i2 IH(6) fin show ?thesis by blast
  qed
qed simp

section \<open>The image is a disk\<close>

text \<open>What a disk with content \<open>img\<close> may do with a sequence of bios, one after the other: a write stores its
  bytes, or a part of them if a segment fails; a read delivers the bytes stored, or something else if a
  segment fails.  Each entry has the bio submitted, whether its segments succeeded, and the bio ended.\<close>

inductive disk_serves :: "(nat \<Rightarrow> u8) \<Rightarrow> (image_bio \<times> bool \<times> image_bio) list \<Rightarrow> (nat \<Rightarrow> u8) \<Rightarrow> bool" where
  idle: "disk_serves img [] img"
| stores: "ib_write b \<Longrightarrow> k \<le> length (concat (ib_vecs b)) \<Longrightarrow> (st \<longrightarrow> k = length (concat (ib_vecs b))) \<Longrightarrow>
    disk_serves (image_write (unat (ib_sector b) * SECTOR_SIZE) (take k (concat (ib_vecs b))) img) rest img' \<Longrightarrow>
    disk_serves img ((b, st, b) # rest) img'"
| delivers: "\<not> ib_write b \<Longrightarrow>
    (st \<longrightarrow> concat vecs = map (\<lambda>j. img (unat (ib_sector b) * SECTOR_SIZE + j)) [0..<length (concat (ib_vecs b))]) \<Longrightarrow>
    disk_serves img rest img' \<Longrightarrow> disk_serves img ((b, st, b\<lparr>ib_vecs := vecs\<rparr>) # rest) img'"

definition bio_on_device :: "nat \<Rightarrow> image_bio \<Rightarrow> bool" where
  "bio_on_device sectors b \<longleftrightarrow> (\<forall>v\<in>set (ib_vecs b). SECTOR_SIZE dvd length v) \<and>
     unat (ib_sector b) * SECTOR_SIZE + length (concat (ib_vecs b)) \<le> sectors * SECTOR_SIZE"

text \<open>One bio.\<close>

lemma process_bio_serves:
  assumes mw: "others_run P ia" and inv: "cow_inv img ctx s" "ctx_chunk ctx = None"
    and dv: "\<forall>v\<in>set (ib_vecs b). SECTOR_SIZE dvd length v"
    and valid: "\<forall>j<length (concat (ib_vecs b)). image_valid s (unat (ib_sector b) * SECTOR_SIZE + j)"
  shows "\<exists>res s'. snapimage_process_bio P ia b s = Ok (res, s') \<and>
    (case res of
       Blocked n \<Rightarrow> True
     | Returned (st, b') \<Rightarrow> \<exists>img' ctx'. cow_inv img' ctx' s' \<and> ctx_chunk ctx' = None \<and> step_keeps s s' \<and> sizes s' = sizes s \<and>
         (\<not> corrupt_flag (area s') \<longrightarrow> disk_serves img [(b, st, b')] img'))"
proof -
  let ?ctx = "diff_area_image_ctx_init (ib_write b)" and ?pos = "unat (ib_sector b)"
  have i: "cow_inv img ?ctx s" by (rule ctx_init_inv [OF inv])
  have w: "ctx_is_write ?ctx = ib_write b" by (simp add: diff_area_image_ctx_init_def)
  show ?thesis
  proof (cases "ib_write b")
    case True
    with w have "ctx_is_write ?ctx" by simp
    from image_segments_write [OF mw i this dv, of 0 ?pos] obtain res ctx1 s1 k where
      sg: "image_segments P ia 0 ?pos (ib_vecs b) ?ctx s = Ok (res, ctx1, s1)" "k \<le> length (concat (ib_vecs b))"
      "cow_inv (image_write (?pos * SECTOR_SIZE) (take k (concat (ib_vecs b))) img) ctx1 s1" "step_keeps s s1" "sizes s1 = sizes s"
      "\<forall>ok vs'. res = Returned (ok, vs') \<longrightarrow> vs' = ib_vecs b \<and> (ok \<longrightarrow> k = length (concat (ib_vecs b)))"
      by (elim exE conjE) (rule that)
    show ?thesis
    proof (cases res)
      case (Blocked n)
      with sg(1) show ?thesis by (simp add: snapimage_process_bio_def)
    next
      case (Returned r)
      obtain st where r: "r = (st, ib_vecs b)" "st \<longrightarrow> k = length (concat (ib_vecs b))"
        using sg(6) Returned by (cases r) auto
      from ctx_done_inv [OF sg(3), of P "ia_done ia"] obtain s2 where
        d: "diff_area_image_ctx_done P (ia_done ia) ctx1 s1 = Ok s2"
        "cow_inv (image_write (?pos * SECTOR_SIZE) (take k (concat (ib_vecs b))) img) (ctx1\<lparr>ctx_chunk := None\<rparr>) s2"
        "step_keeps s1 s2" "sizes s2 = sizes s1" by blast
      have "disk_serves img [(b, st, b)] (image_write (?pos * SECTOR_SIZE) (take k (concat (ib_vecs b))) img)"
        by (rule disk_serves.stores [OF True sg(2) r(2) disk_serves.idle])
      moreover have "snapimage_process_bio P ia b s = Ok (Returned (st, b), s2)"
        using sg(1) Returned r(1) d(1) by (simp add: snapimage_process_bio_def)
      moreover have "ctx_chunk (ctx1\<lparr>ctx_chunk := None\<rparr>) = None" by simp
      ultimately have "\<exists>img' ctx'. cow_inv img' ctx' s2 \<and> ctx_chunk ctx' = None \<and> step_keeps s s2 \<and> sizes s2 = sizes s \<and>
          (\<not> corrupt_flag (area s2) \<longrightarrow> disk_serves img [(b, st, b)] img')"
        "snapimage_process_bio P ia b s = Ok (Returned (st, b), s2)"
        using d(2) step_keeps_trans [OF sg(4) d(3)] sg(5) d(4) by metis+
      then show ?thesis by simp
    qed
  next
    case False
    with w have "\<not> ctx_is_write ?ctx" by simp
    from image_segments_read [OF mw i this dv, of 0 ?pos] obtain res ctx1 s1 where
      sg: "image_segments P ia 0 ?pos (ib_vecs b) ?ctx s = Ok (res, ctx1, s1)" "cow_inv img ctx1 s1" "step_keeps s s1" "sizes s1 = sizes s"
      "\<forall>vs'. res = Returned (True, vs') \<longrightarrow> \<not> corrupt_flag (area s1) \<longrightarrow>
         (\<forall>j<length (concat (ib_vecs b)). image_valid s (?pos * SECTOR_SIZE + j)) \<longrightarrow>
         concat vs' = map (\<lambda>j. img (?pos * SECTOR_SIZE + j)) [0..<length (concat (ib_vecs b))]"
      by (elim exE conjE) (rule that)
    show ?thesis
    proof (cases res)
      case (Blocked n)
      with sg(1) show ?thesis by (simp add: snapimage_process_bio_def)
    next
      case (Returned r)
      obtain st vecs where r: "r = (st, vecs)" by (cases r)
      from ctx_done_inv [OF sg(2), of P "ia_done ia"] obtain s2 where
        d: "diff_area_image_ctx_done P (ia_done ia) ctx1 s1 = Ok s2" "cow_inv img (ctx1\<lparr>ctx_chunk := None\<rparr>) s2"
        "step_keeps s1 s2" "sizes s2 = sizes s1" by blast
      have "disk_serves img [(b, st, b\<lparr>ib_vecs := vecs\<rparr>)] img" if "\<not> corrupt_flag (area s2)"
      proof (rule disk_serves.delivers [OF False _ disk_serves.idle], rule impI)
        assume st
        have "\<not> corrupt_flag (area s1)" using that d(3) by (auto simp: step_keeps_def)
        with sg(5) Returned r \<open>st\<close> valid
        show "concat vecs = map (\<lambda>j. img (?pos * SECTOR_SIZE + j)) [0..<length (concat (ib_vecs b))]" by simp
      qed
      moreover have "snapimage_process_bio P ia b s = Ok (Returned (st, b\<lparr>ib_vecs := vecs\<rparr>), s2)"
        using sg(1) Returned r(1) d(1) by (simp add: snapimage_process_bio_def)
      moreover have "ctx_chunk (ctx1\<lparr>ctx_chunk := None\<rparr>) = None" by simp
      ultimately have "\<exists>img' ctx'. cow_inv img' ctx' s2 \<and> ctx_chunk ctx' = None \<and> step_keeps s s2 \<and> sizes s2 = sizes s \<and>
          (\<not> corrupt_flag (area s2) \<longrightarrow> disk_serves img [(b, st, b\<lparr>ib_vecs := vecs\<rparr>)] img')"
        "snapimage_process_bio P ia b s = Ok (Returned (st, b\<lparr>ib_vecs := vecs\<rparr>), s2)"
        using d(2) step_keeps_trans [OF sg(3) d(3)] sg(4) d(4) by metis+
      then show ?thesis by simp
    qed
  qed
qed

lemma disk_serves_append:
  "disk_serves img xs img1 \<Longrightarrow> disk_serves img1 ys img2 \<Longrightarrow> disk_serves img (xs @ ys) img2"
proof (induction rule: disk_serves.induct)
  case (stores b k st img rest img')
  from disk_serves.stores [OF stores(1-3) stores.IH [OF stores.prems]] show ?case by simp
next
  case (delivers b st vecs img rest img')
  from disk_serves.delivers [OF delivers(1,2) delivers.IH [OF delivers.prems]] show ?case by simp
qed simp

text \<open>The whole queue.\<close>

lemma worker_loop_serves:
  assumes "\<And>i. others_run P (ia i)" "cow_inv img ctx s" "ctx_chunk ctx = None"
    and "\<And>b. b \<in> set (si_queue si) \<Longrightarrow> (\<forall>v\<in>set (ib_vecs b). SECTOR_SIZE dvd length v) \<and>
      (\<forall>j<length (concat (ib_vecs b)). image_valid s (unat (ib_sector b) * SECTOR_SIZE + j))"
  shows "\<exists>es slept si' s'. worker_loop P ia i si s = Ok (es, slept, si', s') \<and>
    (slept = None \<longrightarrow> length es = length (si_queue si) \<and> si' = si\<lparr>si_queue := []\<rparr> \<and>
       (\<exists>img' ctx'. cow_inv img' ctx' s' \<and> ctx_chunk ctx' = None \<and> step_keeps s s' \<and> sizes s' = sizes s \<and>
          (\<not> corrupt_flag (area s') \<longrightarrow> disk_serves img (zip (si_queue si) es) img')))"
  using assms(2-)
proof (induction "si_queue si" arbitrary: i si s img ctx)
  case Nil
  have "si = si\<lparr>si_queue := []\<rparr>" using Nil(1) by (cases si) simp
  moreover have "worker_loop P ia i si s = Ok ([], None, si, s)"
    using Nil(1) by (simp add: worker_loop.simps [of _ _ _ si] get_bio_from_queue_def split: list.splits)
  ultimately show ?case using Nil by (auto intro: disk_serves.idle)
next
  case (Cons b bs)
  let ?si = "si\<lparr>si_queue := bs\<rparr>"
  have q: "si_queue si = b # bs" using Cons(2) by simp
  have b: "\<forall>v\<in>set (ib_vecs b). SECTOR_SIZE dvd length v"
    "\<forall>j<length (concat (ib_vecs b)). image_valid s (unat (ib_sector b) * SECTOR_SIZE + j)"
    using Cons.prems(3) [of b] q by simp_all
  from process_bio_serves [OF assms(1) Cons.prems(1,2) b] obtain res s1 where
    p: "snapimage_process_bio P (ia i) b s = Ok (res, s1)"
    "case res of Blocked n \<Rightarrow> True
     | Returned (st, b') \<Rightarrow> \<exists>img' ctx'. cow_inv img' ctx' s1 \<and> ctx_chunk ctx' = None \<and> step_keeps s s1 \<and> sizes s1 = sizes s \<and>
         (\<not> corrupt_flag (area s1) \<longrightarrow> disk_serves img [(b, st, b')] img')" by blast
  note unf = worker_loop.simps [of P ia i si s] and get = get_bio_from_queue_def [of si]
  show ?case
  proof (cases res)
    case (Blocked n)
    with p(1) q show ?thesis by (simp add: unf get)
  next
    case (Returned r)
    obtain st b' where r: "r = (st, b')" by (cases r)
    with p(2) Returned obtain img1 ctx1 where one: "cow_inv img1 ctx1 s1" "ctx_chunk ctx1 = None" "step_keeps s s1" "sizes s1 = sizes s"
      "\<not> corrupt_flag (area s1) \<longrightarrow> disk_serves img [(b, st, b')] img1" by auto
    have eq: "bs = si_queue ?si" by simp
    have bios: "(\<forall>v\<in>set (ib_vecs c). SECTOR_SIZE dvd length v) \<and>
        (\<forall>j<length (concat (ib_vecs c)). image_valid s1 (unat (ib_sector c) * SECTOR_SIZE + j))" if "c \<in> set (si_queue ?si)" for c
      using Cons.prems(3) [of c] that q image_valid_cong [OF one(3,4)] by simp
    from Cons.hyps(1) [OF eq one(1,2) bios, of "Suc i"] obtain es slept si' s' where
      IH: "worker_loop P ia (Suc i) ?si s1 = Ok (es, slept, si', s')"
      "slept = None \<longrightarrow> length es = length (si_queue ?si) \<and> si' = ?si\<lparr>si_queue := []\<rparr> \<and>
       (\<exists>img' ctx'. cow_inv img' ctx' s' \<and> ctx_chunk ctx' = None \<and> step_keeps s1 s' \<and> sizes s' = sizes s1 \<and>
          (\<not> corrupt_flag (area s') \<longrightarrow> disk_serves img1 (zip (si_queue ?si) es) img'))" by blast
    have run: "worker_loop P ia i si s = Ok ((st, b') # es, slept, si', s')"
      using p(1) q Returned r IH(1) by (simp add: unf get)
    show ?thesis
    proof (cases slept)
      case None
      with IH(2) obtain img' ctx' where IH': "length es = length bs" "si' = si\<lparr>si_queue := []\<rparr>"
        "cow_inv img' ctx' s'" "ctx_chunk ctx' = None" "step_keeps s1 s'" "sizes s' = sizes s1"
        "\<not> corrupt_flag (area s') \<longrightarrow> disk_serves img1 (zip bs es) img'" by auto
      have "disk_serves img (zip (si_queue si) ((st, b') # es)) img'" if "\<not> corrupt_flag (area s')"
      proof -
        have "\<not> corrupt_flag (area s1)" using that IH'(5) by (auto simp: step_keeps_def)
        with one(5) IH'(7) that disk_serves_append [of img "[(b, st, b')]" img1 "zip bs es" img'] q show ?thesis by simp
      qed
      with run None q IH'(1-4,6) one(4) step_keeps_trans [OF one(3) IH'(5)] show ?thesis by auto
    qed (use run in auto)
  qed
qed

text \<open>The thread, with bios that arrive between two runs of the inner loop.\<close>

definition bio_valid :: "cow \<Rightarrow> image_bio \<Rightarrow> bool" where
  "bio_valid s b \<longleftrightarrow> (\<forall>v\<in>set (ib_vecs b). SECTOR_SIZE dvd length v) \<and>
     (\<forall>j<length (concat (ib_vecs b)). image_valid s (unat (ib_sector b) * SECTOR_SIZE + j))"

lemma bio_valid_cong: "step_keeps s s' \<Longrightarrow> sizes s' = sizes s \<Longrightarrow> bio_valid s' b = bio_valid s b"
  by (simp add: bio_valid_def image_valid_cong)

lemma submit_all_queue:
  "submit_all bs s si =
     (if corrupt_flag (area s) then (si, map (\<lambda>b. b\<lparr>ib_status := Some EIO\<rparr>) bs)
      else (si\<lparr>si_queue := si_queue si @ bs\<rparr>, []))"
  by (induction bs arbitrary: si) (auto simp: snapimage_submit_bio_def bio_list_add_def diff_area_is_corrupted_def)

lemma worker_fn_serves:
  assumes "\<And>i. others_run P (ia i)" "cow_inv img ctx s" "ctx_chunk ctx = None"
    and "\<And>b. b \<in> set (si_queue si @ concat bss) \<Longrightarrow> bio_valid s b"
  shows "\<exists>es slept si' s'. snapimage_kthread_worker_fn P ia i bss si s = Ok (es, slept, si', s') \<and>
    (slept = None \<longrightarrow> si' = si\<lparr>si_queue := []\<rparr> \<and>
       (\<exists>img' ctx'. cow_inv img' ctx' s' \<and> ctx_chunk ctx' = None \<and> step_keeps s s' \<and> sizes s' = sizes s \<and>
          (\<not> corrupt_flag (area s') \<longrightarrow> length es = length (si_queue si @ concat bss) \<and>
             disk_serves img (zip (si_queue si @ concat bss) es) img')))"
  using assms(2-)
proof (induction bss arbitrary: i si s img ctx)
  case Nil
  have q: "(\<forall>v\<in>set (ib_vecs b). SECTOR_SIZE dvd length v) \<and>
      (\<forall>j<length (concat (ib_vecs b)). image_valid s (unat (ib_sector b) * SECTOR_SIZE + j))" if "b \<in> set (si_queue si)" for b
    using Nil(3) [of b] that by (simp add: bio_valid_def)
  from worker_loop_serves [where i = i and si = si and ia = ia, OF assms(1) Nil(1,2) q] show ?case
    by simp metis
next
  case (Cons bs bss)
  have q: "(\<forall>v\<in>set (ib_vecs b). SECTOR_SIZE dvd length v) \<and>
      (\<forall>j<length (concat (ib_vecs b)). image_valid s (unat (ib_sector b) * SECTOR_SIZE + j))" if "b \<in> set (si_queue si)" for b
    using Cons.prems(3) [of b] that by (simp add: bio_valid_def)
  from worker_loop_serves [where i = i and si = si and ia = ia, OF assms(1) Cons.prems(1,2) q] obtain es slept si1 s1 where
    w: "worker_loop P ia i si s = Ok (es, slept, si1, s1)"
    "slept = None \<longrightarrow> length es = length (si_queue si) \<and> si1 = si\<lparr>si_queue := []\<rparr> \<and>
       (\<exists>img' ctx'. cow_inv img' ctx' s1 \<and> ctx_chunk ctx' = None \<and> step_keeps s s1 \<and> sizes s1 = sizes s \<and>
          (\<not> corrupt_flag (area s1) \<longrightarrow> disk_serves img (zip (si_queue si) es) img'))" by blast
  show ?case
  proof (cases slept)
    case (Some n)
    with w(1) show ?thesis by simp
  next
    case None
    with w(2) obtain img1 ctx1 where one: "length es = length (si_queue si)" "si1 = si\<lparr>si_queue := []\<rparr>" "cow_inv img1 ctx1 s1"
      "ctx_chunk ctx1 = None" "step_keeps s s1" "sizes s1 = sizes s" "\<not> corrupt_flag (area s1) \<longrightarrow> disk_serves img (zip (si_queue si) es) img1"
      by auto
    obtain si2 errs where sub: "submit_all bs s1 si1 = (si2, errs)" by (cases "submit_all bs s1 si1")
    have si2: "si2 = (if corrupt_flag (area s1) then si1 else si1\<lparr>si_queue := bs\<rparr>)" "\<not> corrupt_flag (area s1) \<longrightarrow> errs = []"
      using sub one(2) by (auto simp: submit_all_queue split: if_splits)
    have val: "bio_valid s1 b" if "b \<in> set (si_queue si2 @ concat bss)" for b
      using that Cons.prems(3) [of b] bio_valid_cong [OF one(5,6)] si2(1) one(2) by (auto split: if_splits)
    from Cons.IH [where i = "i + length es", OF one(3,4) val] obtain es' slept' si' s' where
      IH: "snapimage_kthread_worker_fn P ia (i + length es) bss si2 s1 = Ok (es', slept', si', s')"
      "slept' = None \<longrightarrow> si' = si2\<lparr>si_queue := []\<rparr> \<and>
       (\<exists>img' ctx'. cow_inv img' ctx' s' \<and> ctx_chunk ctx' = None \<and> step_keeps s1 s' \<and> sizes s' = sizes s1 \<and>
          (\<not> corrupt_flag (area s') \<longrightarrow> length es' = length (si_queue si2 @ concat bss) \<and>
             disk_serves img1 (zip (si_queue si2 @ concat bss) es') img'))" by blast
    have run: "snapimage_kthread_worker_fn P ia i (bs # bss) si s = Ok (es @ map (Pair True) errs @ es', slept', si', s')"
      using w(1) None sub IH(1) by simp
    show ?thesis
    proof (cases slept')
      case (Some n)
      with run show ?thesis by simp
    next
      case None
      with IH(2) obtain img' ctx' where IH': "si' = si2\<lparr>si_queue := []\<rparr>" "cow_inv img' ctx' s'" "ctx_chunk ctx' = None" "step_keeps s1 s'"
        "sizes s' = sizes s1" "\<not> corrupt_flag (area s') \<longrightarrow> length es' = length (si_queue si2 @ concat bss) \<and>
             disk_serves img1 (zip (si_queue si2 @ concat bss) es') img'" by auto
      have "length (es @ map (Pair True) errs @ es') = length (si_queue si @ concat (bs # bss)) \<and>
          disk_serves img (zip (si_queue si @ concat (bs # bss)) (es @ map (Pair True) errs @ es')) img'" if "\<not> corrupt_flag (area s')"
      proof -
        have "\<not> corrupt_flag (area s1)" using that IH'(4) by (auto simp: step_keeps_def)
        then have e: "errs = []" "si_queue si2 = bs" "disk_serves img (zip (si_queue si) es) img1" using si2 one(2,7) by simp_all
        have "disk_serves img (zip (si_queue si) es @ zip (bs @ concat bss) es') img'"
          by (rule disk_serves_append [OF e(3)]) (use IH'(6) that e(2) in simp)
        with IH'(6) that e(1,2) one(1) show ?thesis by (simp add: zip_append)
      qed
      moreover have "si' = si\<lparr>si_queue := []\<rparr>" using IH'(1) si2(1) one(2) by simp
      moreover have "step_keeps s s'" "sizes s' = sizes s" using step_keeps_trans [OF one(5) IH'(4)] IH'(5) one(6) by simp_all
      ultimately show ?thesis unfolding run using IH'(2,3) None by simp metis
    qed
  qed
qed


section \<open>Errors\<close>

text \<open>C36: an image request that fails is reported as successful.  If the first chunk of a read cannot be
  brought into memory, the bio is ended with the status of success and its pages as they were.\<close>

theorem image_read_error_lost:
  assumes "\<not> ib_write b" "ib_vecs b = v # vs" "v \<noteq> []" "ib_status b = None" "ia_meanwhile ia 0 s = s"
    and "n = chunk_number (area s) (unat (ib_sector b))" "n < nchunks s" "\<not> ck_locked (chunk_of s n)"
    and "get_locked_chunk (ia_io ia 0 n) n (down n s) = Ok (Some e, s')"
  shows "snapimage_process_bio P ia b s = Ok (Returned (False, b), s') \<and> ib_status b = None"
proof -
  let ?ctx = "diff_area_image_ctx_init False"
  have "diff_area_image_context_get_chunk P (ia_io ia 0 n) (ia_killed ia 0 n) ?ctx (unat (ib_sector b)) s =
      Ok (Returned (Inl e), ?ctx, s')"
    using assms(6-9)
    by (simp add: diff_area_image_context_get_chunk_def Let_def take_lock_def diff_area_image_ctx_init_def)
  then have "diff_area_image_io P (ia_io ia 0) (ia_killed ia 0) ?ctx (length v) [] (unat (ib_sector b)) s =
      Ok (Returned \<lparr>ii_ok = False, ii_pos = unat (ib_sector b), ii_data = [], ii_out = []\<rparr>, ?ctx, s')"
    using assms(3,6) by (cases v) (simp_all add: diff_area_image_io_def image_io_loop.simps [of _ _ _ "Suc _"])
  then show ?thesis
    using assms(1,2,4,5)
    by (simp add: snapimage_process_bio_def segment_after_def Let_def diff_area_image_ctx_done_def diff_area_image_ctx_init_def)
qed

section \<open>Examples\<close>

definition example_image_answers :: "answers \<Rightarrow> image_answers" where
  "example_image_answers ans = \<lparr>ia_io = (\<lambda>_ _. ans), ia_killed = (\<lambda>_ _. False), ia_done = ans, ia_meanwhile = (\<lambda>_ s. s)\<rparr>"

definition example_read :: image_bio where
  "example_read = \<lparr>ib_write = False, ib_sector = 3, ib_vecs = [replicate 512 0], ib_status = None\<rparr>"

definition example_image :: snapimage where
  "example_image = \<lparr>si_capacity = 8, si_worker = True, si_queue = [example_read], si_disk = (252, 0), si_diff_area = 0, si_cbt_map = 0\<rparr>"

lemma example_others: "others_run P (example_image_answers ans)"
  by (simp add: others_run_def example_image_answers_def)

lemma example_read_runs:
  "\<exists>vecs s. worker_loop example_params (\<lambda>_. example_image_answers example_answers) 0 example_image
     (cow_start example_area example_storage example_disks) = Ok ([(True, example_read\<lparr>ib_vecs := vecs\<rparr>)], None, example_image\<lparr>si_queue := []\<rparr>, s) \<and>
   \<not> diff_area_is_corrupted (area s)"
proof -
  let ?s = "cow_start example_area example_storage example_disks" and ?ctx = "diff_area_image_ctx_init False"
  let ?ii = "\<lparr>ii_ok = True, ii_pos = 3, ii_data = [], ii_out = []\<rparr>"
  have inv: "cow_inv (example_disks 1) ?ctx ?s" using start_inv [OF example_started] by (simp add: example_info_def)
  have r: "readable ?s n" if "n * chunk_bytes (area ?s) < 3 * SECTOR_SIZE + 512" for n
    using that example_readable by (cases n) (simp_all add: cow_start_def example_geometry)
  have "\<exists>ii' ctx' s'. image_io_loop example_params (\<lambda>_. example_answers) (\<lambda>_. False) 512 512 ?ii ?ctx ?s = Ok (Returned ii', ctx', s') \<and> ii_ok ii'"
    by (rule image_io_good [OF inv]) (use r example_good in \<open>simp_all add: diff_area_image_ctx_init_def\<close>)
  then obtain ii ctx1 s1 where io: "image_io_loop example_params (\<lambda>_. example_answers) (\<lambda>_. False) 512 512 ?ii ?ctx ?s = Ok (Returned ii, ctx1, s1)" "ii_ok ii"
    by blast
  have "cow_inv (example_disks 1) ctx1 s1"
    using image_io_read [OF inv, of 512 512 ?ii example_params "\<lambda>_. example_answers" "\<lambda>_. False"] io by (auto simp: diff_area_image_ctx_init_def)
  from ctx_done_inv [OF this, of example_params example_answers] obtain s2 where
    d: "diff_area_image_ctx_done example_params example_answers ctx1 s1 = Ok s2" by blast
  have "silent ?s s2" using silent_ctx_done [OF d] silent_image_io [OF io(1), of ?s] by simp
  then have nc: "\<not> diff_area_is_corrupted (area s2)" using example_quiet(1) by (simp add: silent_def quiet_def diff_area_is_corrupted_def)
  have "snapimage_process_bio example_params (example_image_answers example_answers) example_read ?s =
      Ok (Returned (True, example_read\<lparr>ib_vecs := [segment_after False (ii_out ii) (replicate 512 0)]\<rparr>), s2)"
    using io d by (simp add: snapimage_process_bio_def example_read_def example_image_answers_def diff_area_image_io_def Let_def
        diff_area_image_ctx_init_def)
  moreover have "get_bio_from_queue example_image = (Some example_read, example_image\<lparr>si_queue := []\<rparr>)"
    "get_bio_from_queue (example_image\<lparr>si_queue := []\<rparr>) = (None, example_image\<lparr>si_queue := []\<rparr>)"
    by (simp_all add: get_bio_from_queue_def example_image_def)
  ultimately show ?thesis using nc
    by (auto simp: worker_loop.simps [of _ _ _ example_image] worker_loop.simps [of _ _ _ "example_image\<lparr>si_queue := []\<rparr>"])
qed


theorem image_read_error_lost_witness:
  "\<exists>s'. snapimage_process_bio example_params (example_image_answers (example_answers\<lparr>ans_buffer := False\<rparr>)) example_read
     (cow_start example_area example_storage example_disks) = Ok (Returned (False, example_read), s') \<and> ib_status example_read = None"
proof -
  let ?s = "cow_start example_area example_storage example_disks" and ?ans = "example_answers\<lparr>ans_buffer := False\<rparr>"
  have pool: "free_diff_buffers example_area = []"
  proof (rule area_startedD [OF example_started], goal_cases)
    case (1 t r)
    from arg_cong [OF 1(7), of free_diff_buffers] show ?case by (simp add: diff_area_zero_def)
  qed
  have "\<exists>e s'. get_locked_chunk ?ans 0 (down 0 ?s) = Ok (Some e, s')"
    by (simp add: get_locked_chunk_def diff_area_load_chunk_from_storage_def diff_buffer_take_def pool_pop_def diff_buffer_new_def
        cow_start_def example_chunk fresh_chunk_def example_answers_def pool down_def)
  then obtain e s' where g: "get_locked_chunk ?ans 0 (down 0 ?s) = Ok (Some e, s')" by blast
  show ?thesis
    by (rule exI [of _ s'], rule image_read_error_lost [where n = 0 and v = "replicate 512 0" and vs = "[]" and e = e])
      (use g in \<open>simp_all add: example_read_def example_image_answers_def cow_start_def example_geometry example_chunk fresh_chunk_def\<close>)
qed

end
