(* ===== verification/Snapshot.thy ===== *)
theory Snapshot
  imports Snapimage
begin

text \<open>
  Snapshots, \<^verbatim>\<open>module/snapshot.c\<close> and \<^verbatim>\<open>module/snapshot.h\<close>: a snapshot holds trackers for its devices, a
  difference storage, and after it was taken an image for each device.  The model is that of the build
  configuration, in which the devices are frozen one after the other.

  The list of snapshots is the linked list of the kernel with its pointers, since the code adds to it with
  the arguments exchanged.  Operations that end the worker of an image may fall asleep with it.
\<close>

section \<open>Linked lists\<close>

text \<open>\<^verbatim>\<open>list.h\<close>: \<open>Head\<close> is the variable \<^verbatim>\<open>snapshots\<close>, \<open>Link i\<close> the link inside snapshot \<open>i\<close>; a pointer that
  \<^verbatim>\<open>list_del\<close> has poisoned is \<open>None\<close>.\<close>

datatype list_node = Head | Link nat

record list_ring =
  lnext :: "list_node \<Rightarrow> list_node option"
  lprev :: "list_node \<Rightarrow> list_node option"

definition INIT_LIST_HEAD :: "list_node \<Rightarrow> list_ring \<Rightarrow> list_ring" where
  "INIT_LIST_HEAD n r = r\<lparr>lnext := (lnext r)(n \<mapsto> n), lprev := (lprev r)(n \<mapsto> n)\<rparr>"

definition list_add_between :: "list_node \<Rightarrow> list_node \<Rightarrow> list_node \<Rightarrow> list_ring \<Rightarrow> list_ring" where
  "list_add_between new prev nxt r =
     (let r1 = r\<lparr>lprev := (lprev r)(nxt \<mapsto> new)\<rparr>;
          r2 = r1\<lparr>lnext := (lnext r1)(new \<mapsto> nxt)\<rparr>;
          r3 = r2\<lparr>lprev := (lprev r2)(new \<mapsto> prev)\<rparr>
      in r3\<lparr>lnext := (lnext r3)(prev \<mapsto> new)\<rparr>)"

definition list_add_tail :: "list_node \<Rightarrow> list_node \<Rightarrow> list_ring \<Rightarrow> list_ring outcome" where
  "list_add_tail new head r =
     (case lprev r head of None \<Rightarrow> Fault | Some prev \<Rightarrow> Ok (list_add_between new prev head r))"

definition list_del :: "list_node \<Rightarrow> list_ring \<Rightarrow> list_ring outcome" where
  "list_del entry r =
     (case (lprev r entry, lnext r entry) of
        (Some prev, Some nxt) \<Rightarrow>
          (let r1 = r\<lparr>lprev := (lprev r)(nxt \<mapsto> prev)\<rparr>;
               r2 = r1\<lparr>lnext := (lnext r1)(prev \<mapsto> nxt)\<rparr>
           in Ok (r2\<lparr>lnext := (lnext r2)(entry := None), lprev := (lprev r2)(entry := None)\<rparr>))
      | _ \<Rightarrow> Fault)"

definition list_empty :: "list_ring \<Rightarrow> bool" where
  "list_empty r \<longleftrightarrow> lnext r Head = Some Head"

text \<open>The entries that \<^verbatim>\<open>list_for_each_entry\<close> visits.  The fuel bounds the turns of a loop that would not come
  back to the head.\<close>

fun list_entries :: "nat \<Rightarrow> list_node \<Rightarrow> list_ring \<Rightarrow> nat list outcome" where
  "list_entries fuel n r =
     (case lnext r n of
        None \<Rightarrow> Fault
      | Some Head \<Rightarrow> Ok []
      | Some (Link i) \<Rightarrow>
          (case fuel of
             0 \<Rightarrow> Fault
           | Suc fuel' \<Rightarrow> bind_outcome (list_entries fuel' (Link i) r) (\<lambda>is. Ok (i # is))))"

declare list_entries.simps [simp del]

section \<open>State\<close>

record snapshot =
  sn_kref :: nat
  sn_id :: uuid
  sn_is_taken :: bool
  sn_storage :: nat
  sn_count :: nat
  sn_trackers :: "nat option list"
  sn_images :: "nat option list"

record snap_state = image_state +
  snapshot_objs :: "nat \<Rightarrow> snapshot option"
  snapshots :: list_ring
  next_snapshot :: nat

text \<open>What the kernel answers: for the device with a given index what concerns its tracker, its difference
  area and its image, and the allocations of the snapshot itself.\<close>

record snapshot_env =
  ve_tracker :: "nat \<Rightarrow> tracker_env"
  ve_snapshot :: bool
  ve_tracker_array :: bool
  ve_image_array :: bool
  ve_storage :: bool
  ve_event :: event_answers
  ve_uuid :: uuid
  ve_area :: "nat \<Rightarrow> bool"
  ve_chunk :: "nat \<Rightarrow> nat \<Rightarrow> bool"
  ve_insert :: "nat \<Rightarrow> nat \<Rightarrow> ret"
  ve_image :: "nat \<Rightarrow> image_env"
  ve_worker :: "nat \<Rightarrow> nat \<Rightarrow> image_answers"

record snapshot_params =
  sp_cow :: cow_params
  sp_area :: area_params
  sp_cbt :: cbt_params

section \<open>Release\<close>

text \<open>\<^verbatim>\<open>snapshot_release_trackers\<close>, on the entries of the array up to the count.\<close>

fun snapshot_release_trackers ::
  "(nat \<Rightarrow> tracker_env) \<Rightarrow> nat \<Rightarrow> nat option list \<Rightarrow> kern \<Rightarrow> kern outcome" where
  "snapshot_release_trackers env inx [] k = Ok k"
| "snapshot_release_trackers env inx (None # ts) k = snapshot_release_trackers env (Suc inx) ts k"
| "snapshot_release_trackers env inx (Some t # ts) k =
     (case filters k t of
        None \<Rightarrow> Fault
      | Some tr \<Rightarrow>
          (case trk_diff_area tr of
             None \<Rightarrow> snapshot_release_trackers env (Suc inx) ts k
           | Some a \<Rightarrow>
               (case areas k a of
                  None \<Rightarrow> Fault
                | Some ao \<Rightarrow>
                    let bdev = orig_bdev (ao_area ao)
                    in case freeze_bdev (env inx) bdev k of (frozen, k1) \<Rightarrow>
                       bind_outcome (tracker_release_snapshot t k1) (\<lambda>k2.
                         snapshot_release_trackers env (Suc inx) ts
                           (if frozen then thaw_bdev (env inx) bdev k2 else k2)))))"

fun free_images ::
  "cow_params \<Rightarrow> (nat \<Rightarrow> nat \<Rightarrow> image_answers) \<Rightarrow> nat \<Rightarrow> nat option list \<Rightarrow> 'm image_state_scheme \<Rightarrow>
     (unit lock_result \<times> 'm image_state_scheme) outcome" where
  "free_images P ia inx [] st = Ok (Returned (), st)"
| "free_images P ia inx (None # is) st = free_images P ia (Suc inx) is st"
| "free_images P ia inx (Some i # is) st =
     bind_lock (snapimage_free P (ia inx) i st) (\<lambda>_ st1. free_images P ia (Suc inx) is st1)"

fun put_trackers :: "cow_params \<Rightarrow> nat option list \<Rightarrow> kern \<Rightarrow> kern outcome" where
  "put_trackers P [] k = Ok k"
| "put_trackers P (None # ts) k = put_trackers P ts k"
| "put_trackers P (Some t # ts) k =
     (case filters k t of
        None \<Rightarrow> Fault
      | Some tr \<Rightarrow>
          bind_outcome (put_area P (trk_diff_area tr) k) (\<lambda>k1.
          bind_outcome (upd_tracker t (\<lambda>tr. tr\<lparr>trk_diff_area := None\<rparr>) k1) (\<lambda>k2.
          bind_outcome (tracker_put t k2) (\<lambda>k3.
            put_trackers P ts k3))))"

definition snapshot_release ::
  "cow_params \<Rightarrow> snapshot_env \<Rightarrow> snapshot \<Rightarrow> 'm image_state_scheme \<Rightarrow> (unit lock_result \<times> 'm image_state_scheme) outcome" where
  "snapshot_release P env sn st =
     bind_lock (free_images P (ve_worker env) 0 (take (sn_count sn) (sn_images sn)) st) (\<lambda>_ st1.
       let ts = take (sn_count sn) (sn_trackers sn)
       in bind_outcome (snapshot_release_trackers (ve_tracker env) 0 ts (ms_kern st1)) (\<lambda>k1.
          bind_outcome (put_trackers P ts k1) (\<lambda>k2. Ok (Returned (), st1\<lparr>ms_kern := k2\<rparr>))))"

definition snapshot_free ::
  "cow_params \<Rightarrow> snapshot_env \<Rightarrow> nat \<Rightarrow> snap_state \<Rightarrow> (unit lock_result \<times> snap_state) outcome" where
  "snapshot_free P env i st =
     (case snapshot_objs st i of
        None \<Rightarrow> Fault
      | Some sn \<Rightarrow>
          bind_lock (snapshot_release P env sn st) (\<lambda>_ st1.
            Ok (Returned (),
                st1\<lparr>ms_kern := (ms_kern st1)\<lparr>storages := (storages (ms_kern st1))
                       (sn_storage sn := diff_storage_put (storages (ms_kern st1) (sn_storage sn)))\<rparr>,
                    snapshot_objs := (snapshot_objs st1)(i := None)\<rparr>)))"

definition snapshot_get :: "nat \<Rightarrow> snap_state \<Rightarrow> snap_state outcome" where
  "snapshot_get i st =
     (case snapshot_objs st i of
        None \<Rightarrow> Fault
      | Some sn \<Rightarrow> Ok (st\<lparr>snapshot_objs := (snapshot_objs st)(i \<mapsto> sn\<lparr>sn_kref := kref_get (sn_kref sn)\<rparr>)\<rparr>))"

definition snapshot_put ::
  "cow_params \<Rightarrow> snapshot_env \<Rightarrow> nat \<Rightarrow> snap_state \<Rightarrow> (unit lock_result \<times> snap_state) outcome" where
  "snapshot_put P env i st =
     (case snapshot_objs st i of
        None \<Rightarrow> Fault
      | Some sn \<Rightarrow>
          (case kref_put (sn_kref sn) of (n, released) \<Rightarrow>
             let st1 = st\<lparr>snapshot_objs := (snapshot_objs st)(i \<mapsto> sn\<lparr>sn_kref := n\<rparr>)\<rparr>
             in if released then snapshot_free P env i st1 else Ok (Returned (), st1)))"

section \<open>Creation\<close>

definition snapshot_new :: "cow_params \<Rightarrow> snapshot_env \<Rightarrow> nat \<Rightarrow> snap_state \<Rightarrow> (nat result \<times> snap_state) outcome" where
  "snapshot_new P env cnt st =
     (if \<not> ve_snapshot env \<or> \<not> ve_tracker_array env \<or> \<not> ve_image_array env then Ok (Inl ENOMEM, st)
      else bind_outcome (diff_storage_new (diff_storage_minimum P) (ve_storage env) (ve_event env)) (\<lambda>p.
        case p of
          None \<Rightarrow> Ok (Inl ENOMEM, st)
        | Some ds \<Rightarrow>
            let i = next_snapshot st
            in Ok (Inr i,
                 st\<lparr>ms_kern := (ms_kern st)\<lparr>storages := (storages (ms_kern st))(i \<mapsto> ds)\<rparr>,
                    snapshot_objs := (snapshot_objs st)(i \<mapsto>
                      \<lparr>sn_kref = 1, sn_id = ve_uuid env, sn_is_taken = False, sn_storage = i, sn_count = 0,
                       sn_trackers = replicate cnt None, sn_images = replicate cnt None\<rparr>),
                    snapshots := INIT_LIST_HEAD (Link i) (snapshots st),
                    next_snapshot := Suc i\<rparr>)))"

definition blk_snap_dev_is_equal :: "u32 \<times> u32 \<Rightarrow> u32 \<times> u32 \<Rightarrow> bool" where
  "blk_snap_dev_is_equal a b \<longleftrightarrow> fst a = fst b \<and> snd a = snd b"

fun check_same_devices :: "(u32 \<times> u32) list \<Rightarrow> ret" where
  "check_same_devices [] = None"
| "check_same_devices (d # ds) =
     (if list_ex (blk_snap_dev_is_equal d) ds then Some EINVAL else check_same_devices ds)"

text \<open>The loop over the devices.  It returns the error that ended it.\<close>

fun create_loop ::
  "cbt_params \<Rightarrow> (nat \<Rightarrow> tracker_env) \<Rightarrow> nat \<Rightarrow> (u32 \<times> u32) list \<Rightarrow> snapshot \<Rightarrow> kern \<Rightarrow> (ret \<times> snapshot \<times> kern) outcome" where
  "create_loop p env inx [] sn k = Ok (None, sn, k)"
| "create_loop p env inx (d # ds) sn k =
     bind_outcome (tracker_create_or_get p (env inx) (MKDEV (fst d) (snd d)) k) (\<lambda>(res, k1).
       case res of
         Inl e \<Rightarrow> Ok (Some e, sn, k1)
       | Inr t \<Rightarrow>
           create_loop p env (Suc inx) ds
             (sn\<lparr>sn_trackers := (sn_trackers sn)[inx := Some t], sn_count := Suc (sn_count sn)\<rparr>) k1)"

definition snapshot_create ::
  "snapshot_params \<Rightarrow> snapshot_env \<Rightarrow> (u32 \<times> u32) list \<Rightarrow> snap_state \<Rightarrow> (uuid result lock_result \<times> snap_state) outcome" where
  "snapshot_create p env devs st =
     (case check_same_devices devs of
        Some e \<Rightarrow> Ok (Returned (Inl e), st)
      | None \<Rightarrow>
          bind_outcome (snapshot_new (sp_cow p) env (length devs) st) (\<lambda>(res, st1).
          case res of
            Inl e \<Rightarrow> Ok (Returned (Inl e), st1)
          | Inr i \<Rightarrow>
              (case snapshot_objs st1 i of
                 None \<Rightarrow> Fault
               | Some sn \<Rightarrow>
                   bind_outcome (create_loop (sp_cbt p) (ve_tracker env) 0 devs sn (ms_kern st1)) (\<lambda>(ret, sn', k).
                     let st2 = st1\<lparr>ms_kern := k, snapshot_objs := (snapshot_objs st1)(i \<mapsto> sn')\<rparr>
                     in case ret of
                          Some e \<Rightarrow>
                            bind_lock (snapshot_put (sp_cow p) env i st2) (\<lambda>_ st3. Ok (Returned (Inl e), st3))
                        | None \<Rightarrow>
                            bind_outcome (list_add_tail Head (Link i) (snapshots st2)) (\<lambda>r.
                              Ok (Returned (Inr (sn_id sn')), st2\<lparr>snapshots := r\<rparr>))))))"

section \<open>Lookup\<close>

fun find_snapshot :: "nat \<Rightarrow> uuid \<Rightarrow> list_node \<Rightarrow> snap_state \<Rightarrow> nat option outcome" where
  "find_snapshot fuel uid n st =
     (case lnext (snapshots st) n of
        None \<Rightarrow> Fault
      | Some Head \<Rightarrow> Ok None
      | Some (Link i) \<Rightarrow>
          (case (fuel, snapshot_objs st i) of
             (Suc fuel', Some sn) \<Rightarrow> if sn_id sn = uid then Ok (Some i) else find_snapshot fuel' uid (Link i) st
           | _ \<Rightarrow> Fault))"

declare find_snapshot.simps [simp del]

definition snapshot_get_by_id :: "uuid \<Rightarrow> snap_state \<Rightarrow> (nat option \<times> snap_state) outcome" where
  "snapshot_get_by_id uid st =
     (if list_empty (snapshots st) then Ok (None, st)
      else bind_outcome (find_snapshot (next_snapshot st) uid Head st) (\<lambda>found.
        case found of
          None \<Rightarrow> Ok (None, st)
        | Some i \<Rightarrow> bind_outcome (snapshot_get i st) (\<lambda>st1. Ok (Some i, st1))))"

definition snapshot_destroy ::
  "cow_params \<Rightarrow> snapshot_env \<Rightarrow> uuid \<Rightarrow> snap_state \<Rightarrow> (ret lock_result \<times> snap_state) outcome" where
  "snapshot_destroy P env uid st =
     bind_outcome
       (if list_empty (snapshots st) then Ok None else find_snapshot (next_snapshot st) uid Head st) (\<lambda>found.
     case found of
       None \<Rightarrow> Ok (Returned (Some ENODEV), st)
     | Some i \<Rightarrow>
         bind_outcome (list_del (Link i) (snapshots st)) (\<lambda>r.
           bind_lock (snapshot_put P env i (st\<lparr>snapshots := r\<rparr>)) (\<lambda>_ st1. Ok (Returned None, st1))))"

text \<open>The loop of \<^verbatim>\<open>snapshot_done\<close> takes one snapshot from the list in each turn.\<close>

fun snapshot_done :: "cow_params \<Rightarrow> snapshot_env \<Rightarrow> nat \<Rightarrow> snap_state \<Rightarrow> (unit lock_result \<times> snap_state) outcome" where
  "snapshot_done P env fuel st =
     (case lnext (snapshots st) Head of
        None \<Rightarrow> Fault
      | Some Head \<Rightarrow> Ok (Returned (), st)
      | Some (Link i) \<Rightarrow>
          (case fuel of
             0 \<Rightarrow> Fault
           | Suc fuel' \<Rightarrow>
               bind_outcome (list_del (Link i) (snapshots st)) (\<lambda>r.
                 bind_lock (snapshot_put P env i (st\<lparr>snapshots := r\<rparr>)) (\<lambda>_ st1. snapshot_done P env fuel' st1))))"

declare snapshot_done.simps [simp del]

definition snapshot_append_storage ::
  "cow_params \<Rightarrow> snapshot_env \<Rightarrow> uuid \<Rightarrow> u32 \<times> u32 \<Rightarrow> bdev result \<Rightarrow> bool \<Rightarrow>
     ((sector_t \<times> sector_t) option \<times> bool) list \<Rightarrow> snap_state \<Rightarrow> (ret lock_result \<times> snap_state) outcome" where
  "snapshot_append_storage P env uid dev opened kzalloc_ok ranges st =
     bind_outcome (snapshot_get_by_id uid st) (\<lambda>(found, st1).
     case found of
       None \<Rightarrow> Ok (Returned (Some ESRCH), st1)
     | Some i \<Rightarrow>
         (case snapshot_objs st1 i of
            None \<Rightarrow> Fault
          | Some sn \<Rightarrow>
              (case storages (ms_kern st1) (sn_storage sn) of
                 None \<Rightarrow> Fault
               | Some ds \<Rightarrow>
                   (case diff_storage_append_block ds (MKDEV (fst dev) (snd dev)) opened kzalloc_ok ranges of (ret, ds') \<Rightarrow>
                      bind_lock
                        (snapshot_put P env i
                           (st1\<lparr>ms_kern := (ms_kern st1)\<lparr>storages := (storages (ms_kern st1))(sn_storage sn \<mapsto> ds')\<rparr>\<rparr>))
                        (\<lambda>_ st2. Ok (Returned ret, st2))))))"

section \<open>Taking\<close>

text \<open>The difference areas; a pointer that the tracker may already have is overwritten.\<close>

fun alloc_areas ::
  "area_params \<Rightarrow> snapshot_env \<Rightarrow> nat \<Rightarrow> nat \<Rightarrow> nat option list \<Rightarrow> kern \<Rightarrow> (ret \<times> kern) outcome" where
  "alloc_areas p env sid inx [] k = Ok (None, k)"
| "alloc_areas p env sid inx (None # ts) k = alloc_areas p env sid (Suc inx) ts k"
| "alloc_areas p env sid inx (Some t # ts) k =
     (case (filters k t, storages k sid) of
        (Some tr, Some ds) \<Rightarrow>
          bind_outcome
            (diff_area_new p (te_open (ve_tracker env inx) (trk_dev_id tr)) (ve_area env inx) (ve_chunk env inx)
               (ve_insert env inx) ds) (\<lambda>na.
            case na_result na of
              Inl e \<Rightarrow> Ok (Some e, k)
            | Inr a \<Rightarrow>
                let x = next_object k
                in bind_outcome
                     (upd_tracker t (\<lambda>tr. tr\<lparr>trk_diff_area := Some x\<rparr>)
                        (k\<lparr>areas := (areas k)(x \<mapsto> \<lparr>ao_area = a, ao_storage = sid, ao_inflight = [], ao_notify = []\<rparr>),
                           next_object := Suc x\<rparr>))
                     (alloc_areas p env sid (Suc inx) ts))
      | _ \<Rightarrow> Fault)"

text \<open>The device that a tracker's area copies.\<close>

definition tracker_bdev :: "nat \<Rightarrow> kern \<Rightarrow> bdev outcome" where
  "tracker_bdev t k =
     (case filters k t of
        None \<Rightarrow> Fault
      | Some tr \<Rightarrow>
          (case trk_diff_area tr of
             None \<Rightarrow> Fault
           | Some a \<Rightarrow> (case areas k a of None \<Rightarrow> Fault | Some ao \<Rightarrow> Ok (orig_bdev (ao_area ao)))))"

text \<open>The first loop of \<^verbatim>\<open>snapshot_take_trackers\<close>: freezing, taking, thawing.  When a tracker fails, the loop
  is left with the index of that tracker, before its file system is thawed.\<close>

fun take_trackers_loop ::
  "cbt_params \<Rightarrow> (nat \<Rightarrow> tracker_env) \<Rightarrow> nat \<Rightarrow> nat option list \<Rightarrow> kern \<Rightarrow> (ret \<times> nat \<times> kern) outcome" where
  "take_trackers_loop p env inx [] k = Ok (None, inx, k)"
| "take_trackers_loop p env inx (None # ts) k = take_trackers_loop p env (Suc inx) ts k"
| "take_trackers_loop p env inx (Some t # ts) k =
     bind_outcome (tracker_bdev t k) (\<lambda>bdev.
     case freeze_bdev (env inx) bdev k of (frozen, k1) \<Rightarrow>
     bind_outcome (tracker_take_snapshot p (env inx) t k1) (\<lambda>(ret, k2).
       if ret \<noteq> None then Ok (ret, inx, k2)
       else take_trackers_loop p env (Suc inx) ts (if frozen then thaw_bdev (env inx) bdev k2 else k2)))"

text \<open>The second loop, with the index counting down.\<close>

fun untake_loop :: "(nat \<Rightarrow> tracker_env) \<Rightarrow> nat option list \<Rightarrow> nat \<Rightarrow> kern \<Rightarrow> kern outcome" where
  "untake_loop env ts 0 k = Ok k"
| "untake_loop env ts (Suc inx) k =
     (case ts ! inx of
        None \<Rightarrow> untake_loop env ts inx k
      | Some t \<Rightarrow>
          bind_outcome (tracker_bdev t k) (\<lambda>bdev.
          bind_outcome (tracker_release_snapshot t (snd (freeze_bdev (env inx) bdev k))) (\<lambda>k1.
            untake_loop env ts inx (thaw_bdev (env inx) bdev k1))))"

definition snapshot_take_trackers ::
  "cbt_params \<Rightarrow> (nat \<Rightarrow> tracker_env) \<Rightarrow> snapshot \<Rightarrow> kern \<Rightarrow> (ret \<times> snapshot \<times> kern) outcome" where
  "snapshot_take_trackers p env sn k =
     (let ts = take (sn_count sn) (sn_trackers sn)
      in bind_outcome (take_trackers_loop p env 0 ts k) (\<lambda>(ret, inx, k1).
           if ret = None then Ok (None, sn\<lparr>sn_is_taken := True\<rparr>, k1)
           else bind_outcome (untake_loop env ts inx k1) (\<lambda>k2. Ok (ret, sn, k2))))"

text \<open>Whether an area is corrupted right after the snapshot was taken.\<close>

fun any_corrupted :: "nat option list \<Rightarrow> kern \<Rightarrow> bool outcome" where
  "any_corrupted [] k = Ok False"
| "any_corrupted (None # ts) k = any_corrupted ts k"
| "any_corrupted (Some t # ts) k =
     (case filters k t of
        None \<Rightarrow> Fault
      | Some tr \<Rightarrow>
          (case trk_diff_area tr of
             None \<Rightarrow> Fault
           | Some a \<Rightarrow>
               (case areas k a of
                  None \<Rightarrow> Fault
                | Some ao \<Rightarrow> if diff_area_is_corrupted (ao_area ao) then Ok True else any_corrupted ts k)))"

fun create_images ::
  "cow_params \<Rightarrow> (nat \<Rightarrow> image_env) \<Rightarrow> nat \<Rightarrow> nat option list \<Rightarrow> nat option list \<Rightarrow> 'm image_state_scheme \<Rightarrow>
     (ret \<times> nat option list \<times> 'm image_state_scheme) outcome" where
  "create_images P env inx [] imgs st = Ok (None, imgs, st)"
| "create_images P env inx (p # ts) imgs st =
     (case p of
        None \<Rightarrow> Fault
      | Some t \<Rightarrow>
          (case filters (ms_kern st) t of
             None \<Rightarrow> Fault
           | Some tr \<Rightarrow>
               (case (trk_diff_area tr, trk_cbt_map tr) of
                  (Some a, Some c) \<Rightarrow>
                    bind_outcome (snapimage_create P (env inx) a c st) (\<lambda>(res, st1).
                      case res of
                        Inl e \<Rightarrow> Ok (Some e, imgs, st1)
                      | Inr i \<Rightarrow> create_images P env (Suc inx) ts (imgs[inx := Some i]) st1)
                | _ \<Rightarrow> Fault)))"

definition take_steps ::
  "snapshot_params \<Rightarrow> snapshot_env \<Rightarrow> snapshot \<Rightarrow> kern \<Rightarrow> (ret \<times> snapshot \<times> kern) outcome" where
  "take_steps p env sn k =
     (let ts = take (sn_count sn) (sn_trackers sn)
      in bind_outcome (alloc_areas (sp_area p) env (sn_storage sn) 0 ts k) (\<lambda>(ret, k1).
         if ret \<noteq> None then Ok (ret, sn, k1)
         else bind_outcome (snapshot_take_trackers (sp_cbt p) (ve_tracker env) sn k1) (\<lambda>(ret, sn2, k2).
         if ret \<noteq> None then Ok (ret, sn2, k2)
         else bind_outcome (any_corrupted ts k2) (\<lambda>bad. Ok (if bad then Some EFAULT else None, sn2, k2)))))"

definition snapshot_take ::
  "snapshot_params \<Rightarrow> snapshot_env \<Rightarrow> uuid \<Rightarrow> snap_state \<Rightarrow> (ret lock_result \<times> snap_state) outcome" where
  "snapshot_take p env uid st =
     bind_outcome (snapshot_get_by_id uid st) (\<lambda>(found, st1).
     case found of
       None \<Rightarrow> Ok (Returned (Some ESRCH), st1)
     | Some i \<Rightarrow>
         let P = sp_cow p;
             exit = (\<lambda>ret st'. bind_lock (snapshot_put P env i st') (\<lambda>_ st''. Ok (Returned ret, st'')))
         in case snapshot_objs st1 i of
              None \<Rightarrow> Fault
            | Some sn \<Rightarrow>
                if sn_is_taken sn then exit (Some EALREADY) st1
                else if sn_count sn = 0 then exit (Some ENODEV) st1
                else bind_outcome (take_steps p env sn (ms_kern st1)) (\<lambda>(ret, sn2, k2).
                  let st2 = st1\<lparr>ms_kern := k2, snapshot_objs := (snapshot_objs st1)(i \<mapsto> sn2)\<rparr>
                  in if ret \<noteq> None
                     then bind_outcome (list_del (Link i) (snapshots st2)) (\<lambda>r.
                          bind_lock (snapshot_put P env i (st2\<lparr>snapshots := r\<rparr>)) (\<lambda>_ st3. exit ret st3))
                     else bind_outcome
                            (create_images P (ve_image env) 0 (take (sn_count sn2) (sn_trackers sn2)) (sn_images sn2) st2)
                            (\<lambda>(ret', imgs, st3).
                               exit ret' (st3\<lparr>snapshot_objs := (snapshot_objs st3)(i \<mapsto> sn2\<lparr>sn_images := imgs\<rparr>)\<rparr>))))"

section \<open>Queries\<close>

definition snapshot_wait_event ::
  "cow_params \<Rightarrow> snapshot_env \<Rightarrow> uuid \<Rightarrow> int \<Rightarrow> snap_state \<Rightarrow> ((errno + event) lock_result \<times> snap_state) outcome" where
  "snapshot_wait_event P env uid waited st =
     bind_outcome (snapshot_get_by_id uid st) (\<lambda>(found, st1).
     case found of
       None \<Rightarrow> Ok (Returned (Inl ESRCH), st1)
     | Some i \<Rightarrow>
         (case snapshot_objs st1 i of
            None \<Rightarrow> Fault
          | Some sn \<Rightarrow>
              (case storages (ms_kern st1) (sn_storage sn) of
                 None \<Rightarrow> Fault
               | Some ds \<Rightarrow>
                   bind_outcome (event_wait (ds_event_queue ds) waited) (\<lambda>(res, q).
                     bind_lock
                       (snapshot_put P env i
                          (st1\<lparr>ms_kern := (ms_kern st1)\<lparr>storages := (storages (ms_kern st1))
                             (sn_storage sn \<mapsto> ds\<lparr>ds_event_queue := q\<rparr>)\<rparr>\<rparr>))
                       (\<lambda>_ st2. Ok (Returned res, st2))))))"

text \<open>\<^verbatim>\<open>snapshot_collect\<close>: the error, the count and the identifiers written.  A failed copy ends the loop without
  an error.\<close>

fun collect_ids :: "(nat \<Rightarrow> bool) \<Rightarrow> nat \<Rightarrow> nat \<Rightarrow> uuid list \<Rightarrow> ret \<times> uuid list" where
  "collect_ids copied pcount inx [] = (None, [])"
| "collect_ids copied pcount inx (u # us) =
     (if pcount \<le> inx then (Some ENODATA, [])
      else if \<not> copied inx then (None, [])
      else case collect_ids copied pcount (Suc inx) us of (ret, vs) \<Rightarrow> (ret, u # vs))"

fun ids_of :: "nat list \<Rightarrow> snap_state \<Rightarrow> uuid list outcome" where
  "ids_of [] st = Ok []"
| "ids_of (i # is) st =
     (case snapshot_objs st i of
        None \<Rightarrow> Fault
      | Some sn \<Rightarrow> bind_outcome (ids_of is st) (\<lambda>us. Ok (sn_id sn # us)))"

definition snapshot_collect ::
  "(nat \<Rightarrow> bool) \<Rightarrow> bool \<Rightarrow> nat \<Rightarrow> snap_state \<Rightarrow> (ret \<times> nat \<times> uuid list) outcome" where
  "snapshot_collect copied has_array pcount st =
     bind_outcome (list_entries (next_snapshot st) Head (snapshots st)) (\<lambda>is.
     bind_outcome (ids_of is st) (\<lambda>us.
       if \<not> has_array then Ok (None, length us, [])
       else case collect_ids copied pcount 0 us of (ret, vs) \<Rightarrow> Ok (ret, length vs, vs)))"

record blk_snap_image_info =
  orig_dev_id_of :: "nat \<times> nat"
  image_dev_id_of :: "u32 \<times> u32"

fun image_infos :: "(nat option \<times> nat option) list \<Rightarrow> snap_state \<Rightarrow> blk_snap_image_info list outcome" where
  "image_infos [] st = Ok []"
| "image_infos ((t, i) # ps) st =
     (let orig = (case t of
                    None \<Rightarrow> Ok (0, 0)
                  | Some t' \<Rightarrow> (case filters (ms_kern st) t' of
                                 None \<Rightarrow> Fault
                               | Some tr \<Rightarrow> Ok (MAJOR (trk_dev_id tr), MINOR (trk_dev_id tr))));
          img = (case i of
                   None \<Rightarrow> Ok (0, 0)
                 | Some i' \<Rightarrow> (case snapimages st i' of None \<Rightarrow> Fault | Some si \<Rightarrow> Ok (si_disk si)))
      in bind_outcome orig (\<lambda>od. bind_outcome img (\<lambda>d. bind_outcome (image_infos ps st) (\<lambda>infos.
           Ok (\<lparr>orig_dev_id_of = od, image_dev_id_of = d\<rparr> # infos)))))"

definition snapshot_collect_images ::
  "cow_params \<Rightarrow> snapshot_env \<Rightarrow> uuid \<Rightarrow> bool \<Rightarrow> nat \<Rightarrow> bool \<Rightarrow> bool \<Rightarrow> snap_state \<Rightarrow>
     ((ret \<times> nat option \<times> blk_snap_image_info list) lock_result \<times> snap_state) outcome" where
  "snapshot_collect_images P env uid has_array pcount kcalloc_ok copied st =
     bind_outcome (snapshot_get_by_id uid st) (\<lambda>(found, st1).
     case found of
       None \<Rightarrow> Ok (Returned (Some ESRCH, None, []), st1)
     | Some i \<Rightarrow>
         (case snapshot_objs st1 i of
            None \<Rightarrow> Fault
          | Some sn \<Rightarrow>
              let exit = (\<lambda>ret infos. bind_lock (snapshot_put P env i st1)
                            (\<lambda>_ st2. Ok (Returned (ret, Some (sn_count sn), infos), st2)))
              in if \<not> sn_is_taken sn then exit (Some ENODEV) []
                 else if \<not> has_array then exit None []
                 else if pcount < sn_count sn then exit (Some ENODATA) []
                 else if \<not> kcalloc_ok then exit (Some ENOMEM) []
                 else bind_outcome
                        (image_infos (zip (take (sn_count sn) (sn_trackers sn)) (take (sn_count sn) (sn_images sn))) st1)
                        (\<lambda>infos. if copied then exit None infos else exit (Some ENODATA) [])))"

text \<open>The loops of \<^verbatim>\<open>snapshot_mark_dirty_blocks\<close>: the map of the last image found with the number of the device.
  An image that was not created is a null pointer.\<close>

fun find_image :: "dev_t \<Rightarrow> nat option list \<Rightarrow> snap_state \<Rightarrow> nat option outcome" where
  "find_image dev [] st = Ok None"
| "find_image dev (None # is) st = Fault"
| "find_image dev (Some i # is) st =
     (case snapimages st i of
        None \<Rightarrow> Fault
      | Some si \<Rightarrow>
          if MKDEV (fst (si_disk si)) (snd (si_disk si)) = dev then Ok (Some (si_cbt_map si)) else find_image dev is st)"

fun find_image_map :: "dev_t \<Rightarrow> nat list \<Rightarrow> nat option \<Rightarrow> snap_state \<Rightarrow> nat option outcome" where
  "find_image_map dev [] c st = Ok c"
| "find_image_map dev (i # is) c st =
     (case snapshot_objs st i of
        None \<Rightarrow> Fault
      | Some sn \<Rightarrow>
          bind_outcome (find_image dev (take (sn_count sn) (sn_images sn)) st) (\<lambda>found.
            find_image_map dev is (if found \<noteq> None then found else c) st))"

definition snapshot_mark_dirty_blocks ::
  "dev_t \<Rightarrow> (u64 \<times> u64) list \<Rightarrow> snap_state \<Rightarrow> (ret \<times> snap_state) outcome" where
  "snapshot_mark_dirty_blocks dev ranges st =
     (if list_empty (snapshots st) then Ok (None, st)
      else bind_outcome (list_entries (next_snapshot st) Head (snapshots st)) (\<lambda>is.
           bind_outcome (find_image_map dev is None st) (\<lambda>found.
           case found of
             None \<Rightarrow> Ok (Some ENODEV, st)
           | Some c \<Rightarrow>
               (case cbt_maps (ms_kern st) c of
                  None \<Rightarrow> Fault
                | Some m \<Rightarrow>
                    bind_outcome (cbt_map_mark_dirty_blocks m ranges) (\<lambda>(ret, m').
                      Ok (ret, st\<lparr>ms_kern := (ms_kern st)\<lparr>cbt_maps := (cbt_maps (ms_kern st))(c \<mapsto> m')\<rparr>\<rparr>))))))"

end
