(* ===== verification/Snapshot_List.thy ===== *)
theory Snapshot_List
  imports Snapshot
begin

text \<open>
  The list of snapshots: what the operations on a snapshot leave alone in the module, what
  \<^verbatim>\<open>snapshot_create\<close> does to the list, and which snapshots the other operations find in it afterwards.
\<close>

section \<open>The list of snapshots\<close>

lemma bind_lock_eq_OkD:
  assumes "bind_lock m f = Ok (r, s')"
  shows "(\<exists>n. m = Ok (Blocked n, s') \<and> r = Blocked n) \<or> (\<exists>x s. m = Ok (Returned x, s) \<and> f x s = Ok (r, s'))"
  using assms by (auto simp: bind_lock_def split: lock_result.splits dest!: bind_outcome_eq_OkD)

text \<open>What the release of images leaves alone.\<close>

definition snapshot_part :: "snap_state \<Rightarrow> (nat \<Rightarrow> snapshot option) \<times> list_ring \<times> nat" where
  "snapshot_part st = (snapshot_objs st, snapshots st, next_snapshot st)"

lemma snapshot_part_simps [simp]:
  "snapshot_part (st\<lparr>ms_kern := k\<rparr>) = snapshot_part st" "snapshot_part (st\<lparr>snapimages := x\<rparr>) = snapshot_part st"
  "snapshot_part (st\<lparr>next_image := n\<rparr>) = snapshot_part st"
  by (simp_all add: snapshot_part_def)

lemma image_free_disk_part: "snapimage_free_disk P i st = Ok st' \<Longrightarrow> snapshot_part st' = snapshot_part st"
  by (auto simp: snapimage_free_disk_def split: option.splits dest!: bind_outcome_eq_OkD)

lemma image_free_part: "snapimage_free P ia i st = Ok (r, st') \<Longrightarrow> snapshot_part st' = snapshot_part st"
  by (auto simp: snapimage_free_def Let_def split: option.splits dest!: bind_outcome_eq_OkD image_free_disk_part)

lemma free_images_part: "free_images P ia inx is st = Ok (r, st') \<Longrightarrow> snapshot_part st' = snapshot_part st"
proof (induction P ia inx "is" st rule: free_images.induct)
  case (3 P ia inx i "is" st)
  from bind_lock_eq_OkD [OF 3(2) [unfolded free_images.simps]] show ?case
  proof (elim disjE exE conjE)
    fix n assume "snapimage_free P (ia inx) i st = Ok (Blocked n, st')"
    then show ?thesis by (rule image_free_part)
  next
    fix x s assume "snapimage_free P (ia inx) i st = Ok (Returned x, s)" "free_images P ia (Suc inx) is s = Ok (r, st')"
    with 3(1) [of s] image_free_part [of P "ia inx" i st "Returned x" s] show ?thesis by simp
  qed
qed simp_all

lemma release_part: "snapshot_release P env sn st = Ok (r, st') \<Longrightarrow> snapshot_part st' = snapshot_part st"
  by (auto simp: snapshot_release_def Let_def dest!: bind_lock_eq_OkD free_images_part bind_outcome_eq_OkD)

text \<open>Dropping a reference to a snapshot leaves the others and the list alone.\<close>

lemma put_part:
  assumes "snapshot_put P env i st = Ok (r, st')"
  shows "\<forall>j. j \<noteq> i \<longrightarrow> snapshot_objs st' j = snapshot_objs st j" "snapshots st' = snapshots st" "next_snapshot st' = next_snapshot st"
  using assms
  by (auto simp: snapshot_put_def snapshot_free_def snapshot_part_def Let_def split: option.splits prod.splits if_splits
      dest!: bind_lock_eq_OkD release_part)

lemma list_add_tail_exchanged:
  assumes "lprev r (Link i) = Some (Link i)"
  shows "\<exists>r'. list_add_tail Head (Link i) r = Ok r' \<and> lnext r' Head = Some (Link i) \<and> lprev r' Head = Some (Link i) \<and>
    lnext r' (Link i) = Some Head \<and> lprev r' (Link i) = Some Head"
  using assms by (simp add: list_add_tail_def list_add_between_def Let_def)

lemma create_loop_fields:
  assumes "create_loop p env inx ds sn k = Ok (ret, sn', k')"
  shows "sn_kref sn' = sn_kref sn" "sn_id sn' = sn_id sn" "sn_is_taken sn' = sn_is_taken sn" "sn_storage sn' = sn_storage sn"
    "sn_images sn' = sn_images sn" "length (sn_trackers sn') = length (sn_trackers sn)"
  using assms
  by (induction p env inx ds sn k rule: create_loop.induct) (auto split: sum.splits dest!: bind_outcome_eq_OkD)

text \<open>A list that has exactly one entry.\<close>

definition lists_only :: "nat \<Rightarrow> snap_state \<Rightarrow> bool" where
  "lists_only i st \<longleftrightarrow>
     lnext (snapshots st) Head = Some (Link i) \<and> lprev (snapshots st) Head = Some (Link i) \<and>
     lnext (snapshots st) (Link i) = Some Head \<and> lprev (snapshots st) (Link i) = Some Head \<and> i < next_snapshot st"

lemma lists_onlyD:
  assumes "lists_only i st" "snapshot_objs st i = Some sn"
  shows "list_entries (next_snapshot st) Head (snapshots st) = Ok [i]" "\<not> list_empty (snapshots st)"
    "find_snapshot (next_snapshot st) u Head st = Ok (if u = sn_id sn then Some i else None)"
    "\<exists>r. list_del (Link i) (snapshots st) = Ok r \<and> lnext r Head = Some Head \<and> lprev r Head = Some Head"
proof -
  obtain m where m: "next_snapshot st = Suc m" using assms(1) by (cases "next_snapshot st") (auto simp: lists_only_def)
  show "list_entries (next_snapshot st) Head (snapshots st) = Ok [i]"
    using assms(1) by (simp add: lists_only_def m list_entries.simps [of _ Head] list_entries.simps [of _ "Link i"])
  show "\<not> list_empty (snapshots st)" using assms(1) by (simp add: lists_only_def list_empty_def)
  show "find_snapshot (next_snapshot st) u Head st = Ok (if u = sn_id sn then Some i else None)"
    using assms by (auto simp: lists_only_def m find_snapshot.simps [of _ _ Head] find_snapshot.simps [of _ _ "Link i"])
  show "\<exists>r. list_del (Link i) (snapshots st) = Ok r \<and> lnext r Head = Some Head \<and> lprev r Head = Some Head"
    using assms(1) by (simp add: lists_only_def list_del_def Let_def)
qed

lemma snapshot_create_success:
  assumes "snapshot_create p env devs st = Ok (Returned (Inr uid), st')"
  shows "\<exists>sn k st1 sn'. snapshot_new (sp_cow p) env (length devs) st = Ok (Inr (next_snapshot st), st1) \<and>
    snapshot_objs st1 (next_snapshot st) = Some sn \<and>
    create_loop (sp_cbt p) (ve_tracker env) 0 devs sn (ms_kern st1) = Ok (None, sn', k) \<and>
    ms_kern st' = k \<and> snapshot_objs st' = (snapshot_objs st)(next_snapshot st \<mapsto> sn') \<and> snapimages st' = snapimages st \<and>
    lists_only (next_snapshot st) st' \<and> sn_id sn' = uid \<and> check_same_devices devs = None"
proof -
  have e: "check_same_devices devs = None" using assms by (auto simp: snapshot_create_def split: option.splits)
  obtain st1 where new: "snapshot_new (sp_cow p) env (length devs) st = Ok (Inr (next_snapshot st), st1)"
    using assms e
    by (auto simp: snapshot_create_def snapshot_new_def Let_def split: sum.splits option.splits if_splits dest!: bind_outcome_eq_OkD)
  then obtain ds where st1: "st1 = st\<lparr>ms_kern := (ms_kern st)\<lparr>storages := (storages (ms_kern st))(next_snapshot st \<mapsto> ds)\<rparr>,
      snapshot_objs := (snapshot_objs st)(next_snapshot st \<mapsto>
        \<lparr>sn_kref = 1, sn_id = ve_uuid env, sn_is_taken = False, sn_storage = next_snapshot st, sn_count = 0,
         sn_trackers = replicate (length devs) None, sn_images = replicate (length devs) None\<rparr>),
      snapshots := INIT_LIST_HEAD (Link (next_snapshot st)) (snapshots st), next_snapshot := Suc (next_snapshot st)\<rparr>"
    by (auto simp: snapshot_new_def Let_def split: option.splits if_splits dest!: bind_outcome_eq_OkD)
  obtain sn where sn: "snapshot_objs st1 (next_snapshot st) = Some sn" by (simp add: st1)
  obtain sn' k r where l: "create_loop (sp_cbt p) (ve_tracker env) 0 devs sn (ms_kern st1) = Ok (None, sn', k)"
    "list_add_tail Head (Link (next_snapshot st)) (snapshots st1) = Ok r" "sn_id sn' = uid"
    "st' = st1\<lparr>ms_kern := k, snapshot_objs := (snapshot_objs st1)(next_snapshot st \<mapsto> sn'), snapshots := r\<rparr>"
    using assms e new sn
    by (auto simp: snapshot_create_def Let_def split: option.splits dest!: bind_outcome_eq_OkD bind_lock_eq_OkD)
  have "lprev (snapshots st1) (Link (next_snapshot st)) = Some (Link (next_snapshot st))"
    by (simp add: st1 INIT_LIST_HEAD_def)
  from list_add_tail_exchanged [OF this] l(2) have "lists_only (next_snapshot st) st'"
    by (auto simp: lists_only_def l(4) st1)
  moreover have "snapshot_objs st' = (snapshot_objs st)(next_snapshot st \<mapsto> sn')" "ms_kern st' = k" "snapimages st' = snapimages st"
    by (simp_all add: l(4) st1)
  ultimately show ?thesis using new sn l(1,3) e by blast
qed

lemma snapshot_done_one:
  assumes "lists_only i st" "snapshot_done P env fuel st = Ok (r, st')" "j \<noteq> i"
  shows "snapshot_objs st' j = snapshot_objs st j"
proof -
  have nx: "lnext (snapshots st) Head = Some (Link i)" using assms(1) by (simp add: lists_only_def)
  obtain rr where d: "list_del (Link i) (snapshots st) = Ok rr" "lnext rr Head = Some Head"
    using assms(1) by (auto simp: lists_only_def list_del_def Let_def)
  obtain f where f: "fuel = Suc f" using assms(2) nx by (cases fuel) (simp_all add: snapshot_done.simps [of _ _ 0])
  have "bind_lock (snapshot_put P env i (st\<lparr>snapshots := rr\<rparr>)) (\<lambda>_ st1. snapshot_done P env f st1) = Ok (r, st')"
    using assms(2) nx d(1) by (simp add: f snapshot_done.simps [of _ _ "Suc f"])
  from bind_lock_eq_OkD [OF this] show ?thesis
  proof (elim disjE exE conjE)
    fix n assume "snapshot_put P env i (st\<lparr>snapshots := rr\<rparr>) = Ok (Blocked n, st')"
    from put_part(1) [OF this] assms(3) show ?thesis by simp
  next
    fix x s assume p: "snapshot_put P env i (st\<lparr>snapshots := rr\<rparr>) = Ok (Returned x, s)" "snapshot_done P env f s = Ok (r, st')"
    have "snapshots s = rr" using put_part(2) [OF p(1)] by simp
    with p(2) d(2) have "st' = s" by (simp add: snapshot_done.simps [of _ _ f])
    with put_part(1) [OF p(1)] assms(3) show ?thesis by simp
  qed
qed

text \<open>C34: a new snapshot hides the others.  The list is extended with its arguments exchanged, so after a
  snapshot was created it is the only one in the list, whatever was there before.  The earlier snapshots
  are as they were, their devices still in copy-on-write, but no identifier but the new one is found: they
  cannot be taken, asked for events or destroyed, and unloading the module does not release them.\<close>

theorem created_snapshot_hides_others:
  assumes "snapshot_create p env devs st = Ok (Returned (Inr uid), st')"
  shows "\<exists>i. list_entries (next_snapshot st') Head (snapshots st') = Ok [i] \<and>
    (\<forall>j. j \<noteq> i \<longrightarrow> snapshot_objs st' j = snapshot_objs st j) \<and>
    (\<forall>u P p' env'. u \<noteq> uid \<longrightarrow> snapshot_get_by_id u st' = Ok (None, st') \<and>
       snapshot_take p' env' u st' = Ok (Returned (Some ESRCH), st') \<and>
       snapshot_destroy P env' u st' = Ok (Returned (Some ENODEV), st')) \<and>
    (\<forall>P env' fuel r st''. snapshot_done P env' fuel st' = Ok (r, st'') \<longrightarrow>
       (\<forall>j. j \<noteq> i \<longrightarrow> snapshot_objs st'' j = snapshot_objs st j))"
proof -
  let ?i = "next_snapshot st"
  from snapshot_create_success [OF assms] obtain sn' where
    c: "snapshot_objs st' = (snapshot_objs st)(?i \<mapsto> sn')" "lists_only ?i st'" "sn_id sn' = uid" by blast
  have o: "snapshot_objs st' ?i = Some sn'" "\<forall>j. j \<noteq> ?i \<longrightarrow> snapshot_objs st' j = snapshot_objs st j" by (simp_all add: c(1))
  note l = lists_onlyD [OF c(2) o(1)]
  have g: "snapshot_get_by_id u st' = Ok (None, st')" "snapshot_destroy P env' u st' = Ok (Returned (Some ENODEV), st')"
    if "u \<noteq> uid" for u P env'
    using l(2,3) that c(3) by (simp_all add: snapshot_get_by_id_def snapshot_destroy_def)
  then have "snapshot_take p' env' u st' = Ok (Returned (Some ESRCH), st')" if "u \<noteq> uid" for u p' env'
    using that by (simp add: snapshot_take_def)
  moreover have "snapshot_objs st'' j = snapshot_objs st j" if "snapshot_done P env' fuel st' = Ok (r, st'')" "j \<noteq> ?i" for P env' fuel r st'' j
    using snapshot_done_one [OF c(2) that] o(2) that(2) by simp
  ultimately show ?thesis using l(1) o(2) g by blast
qed

section \<open>Examples\<close>

definition example_snapshot_env :: "tracker_env \<Rightarrow> uuid \<Rightarrow> snapshot_env" where
  "example_snapshot_env te uid =
     \<lparr>ve_tracker = (\<lambda>_. te), ve_snapshot = True, ve_tracker_array = True, ve_image_array = True, ve_storage = True,
      ve_event = (True, 0), ve_uuid = uid, ve_area = (\<lambda>_. True), ve_chunk = (\<lambda>_ _. True), ve_insert = (\<lambda>_ _. None),
      ve_image = (\<lambda>_. \<lparr>ie_kzalloc = True, ie_kthread = None, ie_alloc_disk = True, ie_name_ok = True, ie_add_disk = None,
         ie_disk = (252, 0), ie_put_frees = True\<rparr>),
      ve_worker = (\<lambda>_ _. example_image_answers example_answers)\<rparr>"

definition example_snapshot_params :: snapshot_params where
  "example_snapshot_params = \<lparr>sp_cow = example_params, sp_area = area_default_params, sp_cbt = cbt_default_params\<rparr>"

text \<open>The module after it was loaded.\<close>

definition snap_init :: "(bdev \<Rightarrow> nat \<Rightarrow> u8) \<Rightarrow> snap_state" where
  "snap_init dk =
     \<lparr>ms_kern = kern_init dk, snapimages = (\<lambda>_. None), next_image = 0, snapshot_objs = (\<lambda>_. None),
      snapshots = \<lparr>lnext = [Head \<mapsto> Head], lprev = [Head \<mapsto> Head]\<rparr>, next_snapshot = 0\<rparr>"

lemma example_create_empty:
  "\<exists>st'. snapshot_create example_snapshot_params (example_snapshot_env te uid) [] st = Ok (Returned (Inr uid), st') \<and>
     next_snapshot st' = Suc (next_snapshot st) \<and>
     (\<exists>sn. snapshot_objs st' = (snapshot_objs st)(next_snapshot st \<mapsto> sn) \<and> sn_id sn = uid)"
proof -
  obtain ds where ds: "diff_storage_new (diff_storage_minimum example_params) True (True, 0) = Ok (Some ds)"
    by (simp add: diff_storage_new_def diff_storage_event_low_eq)
  let ?st = "INIT_LIST_HEAD (Link (next_snapshot st)) (snapshots st)"
  have "lprev ?st (Link (next_snapshot st)) = Some (Link (next_snapshot st))" by (simp add: INIT_LIST_HEAD_def)
  from list_add_tail_exchanged [OF this] obtain r where "list_add_tail Head (Link (next_snapshot st)) ?st = Ok r" by blast
  with ds show ?thesis
    by (simp add: snapshot_create_def snapshot_new_def Let_def example_snapshot_env_def example_snapshot_params_def)
      (rule exI, rule conjI, rule refl, simp)
qed

theorem created_snapshot_hides_others_witness:
  "\<exists>st1 st2 sn. snapshot_create example_snapshot_params (example_snapshot_env tracker_example_env 5) [] (snap_init example_disks) = Ok (Returned (Inr 5), st1) \<and>
     snapshot_create example_snapshot_params (example_snapshot_env tracker_example_env 6) [] st1 = Ok (Returned (Inr 6), st2) \<and>
     snapshot_objs st2 0 = Some sn \<and> sn_id sn = 5 \<and>
     snapshot_destroy example_params (example_snapshot_env tracker_example_env 0) 5 st2 = Ok (Returned (Some ENODEV), st2)"
proof -
  let ?te = tracker_example_env and ?p = example_snapshot_params
  from example_create_empty [of ?te 5 "snap_init example_disks"] obtain st1 sn where
    1: "snapshot_create ?p (example_snapshot_env ?te 5) [] (snap_init example_disks) = Ok (Returned (Inr 5), st1)"
    "next_snapshot st1 = 1" "snapshot_objs st1 0 = Some sn" "sn_id sn = 5" by (auto simp: snap_init_def)
  from example_create_empty [of ?te 6 st1] 1(2,3) obtain st2 where
    2: "snapshot_create ?p (example_snapshot_env ?te 6) [] st1 = Ok (Returned (Inr 6), st2)" "snapshot_objs st2 0 = Some sn" by auto
  have "snapshot_destroy example_params (example_snapshot_env ?te 0) 5 st2 = Ok (Returned (Some ENODEV), st2)"
    using created_snapshot_hides_others [OF 2(1)] by auto
  with 1 2 show ?thesis by blast
qed

end
