(* ===== verification/Snapshot_References.thy ===== *)
theory Snapshot_References
  imports Snapshot_List
begin

text \<open>
  The references a snapshot holds to its trackers: \<^verbatim>\<open>snapshot_create\<close> takes one for each device and
  \<^verbatim>\<open>snapshot_destroy\<close> gives them back, on every path.  The invariant is \<open>trackers_ok\<close>, counted with the
  references that clients hold, together with \<open>queues_open\<close>: no queue of writes is left frozen.
\<close>

section \<open>References of a snapshot\<close>

text \<open>No tracker is left with its queue frozen.\<close>

definition queues_open :: "kern \<Rightarrow> bool" where
  "queues_open k \<longleftrightarrow> (\<forall>t tr. filters k t = Some tr \<longrightarrow> \<not> submit_frozen tr)"

lemma queues_open_simps [simp]:
  "queues_open (k\<lparr>fs_freezes := x\<rparr>) = queues_open k" "queues_open (k\<lparr>tracked_device_list := d\<rparr>) = queues_open k"
  "queues_open (k\<lparr>storages := ss\<rparr>) = queues_open k" "queues_open (k\<lparr>areas := as\<rparr>) = queues_open k"
  "queues_open (k\<lparr>cbt_maps := ms\<rparr>) = queues_open k" "queues_open (thaw_bdev env b k) = queues_open k"
  "queues_open (snd (freeze_bdev env b k)) = queues_open k"
  by (simp_all add: queues_open_def thaw_bdev_def freeze_bdev_def)

lemma queues_open_same: "same_objects k k' \<Longrightarrow> queues_open k \<Longrightarrow> queues_open k'"
  using same_objects_tracker strip_refs_eqD(6) unfolding queues_open_def by metis

lemma queues_upd:
  assumes "upd_tracker t g k = Ok k'" "queues_open k" "\<And>tr. submit_frozen (g tr) = submit_frozen tr"
  shows "queues_open k'"
  using assms by (auto simp: upd_tracker_def upd_filter_def queues_open_def split: option.splits if_splits)

lemma queues_freeze: "freeze_bdev env b k = (fz, k') \<Longrightarrow> queues_open k' = queues_open k"
  using queues_open_simps(7) [of env b k] by simp

lemma queues_attach:
  assumes "tracker_filter_attach env info t k = Ok (ret, k')" "queues_open k"
  shows "queues_open k'"
proof -
  obtain fz k1 where f: "freeze_bdev env (bi_bdev info) k = (fz, k1)" by (cases "freeze_bdev env (bi_bdev info) k")
  have 1: "queues_open k1" using queues_freeze [OF f] assms(2) by simp
  from assms(1) f obtain k2 a k3 and tr :: tracker where k2: "(if fz then upd_tracker t (\<lambda>tr. tr\<lparr>is_frozen := True\<rparr>) k1 else Ok k1) = Ok k2"
    and k3: "bdev_filter_attach tracker_release (te_alloc_ext env) (bi_bdev info) (bi_dev_id info) t k2 = Ok (a, k3)"
    and fin: "(if is_frozen tr then bind_outcome (upd_tracker t (\<lambda>tr. tr\<lparr>is_frozen := False\<rparr>) k3)
                 (\<lambda>k4. Ok (a, thaw_bdev env (bi_bdev info) k4)) else Ok (a, k3)) = Ok (ret, k')"
    by (auto simp: tracker_filter_attach_def split: option.splits dest!: bind_outcome_eq_OkD)
  have 2: "queues_open k2" using k2 1 queues_upd [of t "\<lambda>tr. tr\<lparr>is_frozen := True\<rparr>" k1 k2] by (simp split: if_splits)
  have 3: "queues_open k3" using queues_open_same [OF trk.attach_same [OF k3] 2] .
  show ?thesis
  proof (cases "is_frozen tr")
    case True
    with fin obtain k4 where "upd_tracker t (\<lambda>tr. tr\<lparr>is_frozen := False\<rparr>) k3 = Ok k4" "k' = thaw_bdev env (bi_bdev info) k4"
      by (auto dest!: bind_outcome_eq_OkD)
    with queues_upd [OF _ 3, of t "\<lambda>tr. tr\<lparr>is_frozen := False\<rparr>" k4] show ?thesis by simp
  next
    case False
    with fin 3 show ?thesis by simp
  qed
qed

lemma queues_put: "tracker_put t k = Ok k' \<Longrightarrow> queues_open k \<Longrightarrow> queues_open k'"
  unfolding tracker_put_def using queues_open_same trk.put_same by blast

lemma queues_get: "bdev_filter_get t k = Ok k' \<Longrightarrow> queues_open k \<Longrightarrow> queues_open k'"
  using queues_open_same trk.get_same by blast

lemma queues_get_by_dev: "tracker_get_by_dev info k = Ok (res, k') \<Longrightarrow> queues_open k \<Longrightarrow> queues_open k'"
  unfolding tracker_get_by_dev_def using queues_open_same trk.get_by_bdev_same by blast

lemma queues_new:
  assumes "tracker_new p env info k = Ok (res, k')" "queues_open k"
  shows "queues_open k'"
proof (cases "te_alloc_tracker env")
  case False
  with assms show ?thesis by (simp add: tracker_new_def)
next
  case True
  let ?t = "next_object k"
  let ?k1 = "k\<lparr>filters := (filters k)(?t \<mapsto> (bdev_filter_init tracker_zero)\<lparr>trk_dev_id := bi_dev_id info\<rparr>),
      trackers_counter := Suc (trackers_counter k), next_object := Suc ?t\<rparr>"
  have 1: "queues_open ?k1" using assms(2) by (simp add: queues_open_def bdev_filter_init_def)
  have up: "queues_open x" if "upd_tracker ?t (\<lambda>tr. tr\<lparr>trk_cbt_map := Some ?t, is_frozen := False\<rparr>) (?k1\<lparr>cbt_maps := ms\<rparr>) = Ok x" for x ms
    by (rule queues_upd [OF that]) (use 1 in simp_all)
  from assms(1) True obtain mp where mp: "cbt_map_create p (te_cbt env ?t) (te_alloc_map env) (bi_nr_sectors info) = Ok mp"
    by (auto simp: tracker_new_def Let_def dest!: bind_outcome_eq_OkD)
  show ?thesis
  proof (cases mp)
    case None
    with assms(1) True mp have "tracker_put ?t ?k1 = Ok k'"
      by (auto simp: tracker_new_def Let_def dest!: bind_outcome_eq_OkD)
    from queues_put [OF this 1] show ?thesis .
  next
    case (Some m)
    with assms(1) True mp obtain k2 ret k3 where
      k2: "upd_tracker ?t (\<lambda>tr. tr\<lparr>trk_cbt_map := Some ?t, is_frozen := False\<rparr>) (?k1\<lparr>cbt_maps := (cbt_maps ?k1)(?t \<mapsto> m)\<rparr>) = Ok k2"
      and k3: "tracker_filter_attach env info ?t k2 = Ok (ret, k3)"
      and fin: "(case ret of Some e \<Rightarrow> bind_outcome (tracker_put ?t k3) (\<lambda>k''. Ok (Inl e, k'')) | None \<Rightarrow> Ok (Inr ?t, k3)) = Ok (res, k')"
      by (auto simp: tracker_new_def Let_def dest!: bind_outcome_eq_OkD)
    have 3: "queues_open k3" using queues_attach [OF k3] up [OF k2] by simp
    from fin show ?thesis using 3 queues_put by (auto split: option.splits dest!: bind_outcome_eq_OkD)
  qed
qed

lemma queues_create_or_get:
  assumes "tracker_create_or_get p env dev k = Ok (res, k')" "queues_open k"
  shows "queues_open k'"
proof (cases "te_open env dev")
  case (Inl e)
  with assms show ?thesis by (simp add: tracker_create_or_get_def)
next
  case (Inr info)
  with assms(1) obtain found k1 where g: "tracker_get_by_dev info k = Ok (found, k1)"
    and rest: "(case found of
            Some t \<Rightarrow> Ok (Inr t, k1)
          | None \<Rightarrow>
              if \<not> te_alloc_dev env then Ok (Inl ENOMEM, k1)
              else bind_outcome (tracker_new p env info k1) (\<lambda>(res, k2).
                   case res of
                     Inl e \<Rightarrow> Ok (Inl e, k2)
                   | Inr t \<Rightarrow>
                       bind_outcome (bdev_filter_get t k2) (\<lambda>k3.
                         Ok (Inr t, k3\<lparr>tracked_device_list := tracked_device_list k3 @ [dev]\<rparr>)))) = Ok (res, k')"
    by (auto simp: tracker_create_or_get_def dest!: bind_outcome_eq_OkD)
  have 1: "queues_open k1" using queues_get_by_dev [OF g assms(2)] .
  from rest 1 show ?thesis
    by (auto split: option.splits if_splits sum.splits dest!: bind_outcome_eq_OkD queues_new)
      (blast intro: queues_get)
qed

text \<open>The operations on one tracker that a client holds.\<close>

lemma release_snapshot_ok:
  assumes ok: "trackers_ok held k" "queues_open k" and h: "0 < held t"
  shows "\<exists>k' tr. tracker_release_snapshot t k = Ok k' \<and> trackers_ok held k' \<and> queues_open k' \<and> filters k t = Some tr \<and>
    k' = k\<lparr>filters := (filters k)(t \<mapsto> tr\<lparr>snapshot_is_taken := False\<rparr>)\<rparr>"
proof -
  from trackers_ok_live [OF ok(1) h] obtain tr where tr: "filters k t = Some tr" by blast
  have nf: "\<not> submit_frozen tr" using ok(2) tr by (simp add: queues_open_def)
  let ?tr = "tr\<lparr>snapshot_is_taken := False\<rparr>" and ?k = "k\<lparr>filters := (filters k)(t \<mapsto> tr\<lparr>snapshot_is_taken := False\<rparr>)\<rparr>"
  have e: "tr\<lparr>snapshot_is_taken := False, submit_frozen := False\<rparr> = ?tr" using nf by (cases tr) simp
  have "tracker_release_snapshot t k = Ok (k\<lparr>filters := (filters k)(t \<mapsto> tr\<lparr>snapshot_is_taken := False, submit_frozen := False\<rparr>)\<rparr>)"
    using tr nf by (simp add: tracker_release_snapshot_def bdevfilter_freeze_queue_def upd_tracker_def upd_filter_def bdevfilter_unfreeze_queue_def)
  then have "tracker_release_snapshot t k = Ok ?k" unfolding e .
  moreover have "trackers_ok held ?k" by (rule trackers_ok_flags [OF ok(1) tr]) simp_all
  moreover have "queues_open ?k" using ok(2) nf by (simp add: queues_open_def)
  ultimately show ?thesis using tr by blast
qed

text \<open>Dropping the area of a tracker.\<close>

lemma drop_area_ok:
  assumes ok: "trackers_ok held k" and f: "filters k t = Some tr"
  shows "\<exists>k1 k2. put_area P (trk_diff_area tr) k = Ok k1 \<and> upd_tracker t (\<lambda>tr. tr\<lparr>trk_diff_area := None\<rparr>) k1 = Ok k2 \<and>
    trackers_ok held k2 \<and> (queues_open k \<longrightarrow> queues_open k2) \<and> storages k2 = storages k \<and>
    filters k2 = (filters k)(t \<mapsto> tr\<lparr>trk_diff_area := None\<rparr>)"
proof -
  have r: "filter_refs_ok (set (release_list k)) held k" "distinct (release_list k)" "objects_ok k"
    using ok by (simp_all add: trackers_ok_def)
  have "\<And>a. trk_diff_area tr = Some a \<Longrightarrow> areas k a \<noteq> None" using objects_okD [OF r(3) f] by (simp add: tracker_obj_ok_def)
  from put_area_ok [where P = P, OF this] obtain as where
    p: "put_area P (trk_diff_area tr) k = Ok (k\<lparr>areas := as\<rparr>)" "\<forall>a. trk_diff_area tr \<noteq> Some a \<longrightarrow> as a = areas k a" by blast
  let ?tr = "tr\<lparr>trk_diff_area := None\<rparr>"
  let ?k = "k\<lparr>areas := as, filters := (filters k)(t \<mapsto> ?tr)\<rparr>"
  have u: "upd_tracker t (\<lambda>tr. tr\<lparr>trk_diff_area := None\<rparr>) (k\<lparr>areas := as\<rparr>) = Ok ?k" using f by (simp add: upd_tracker_def upd_filter_def)
  have "ref_ok (filters ?k g) (ext_refs (bdev_extension_list ?k) g) (held g) (g \<in> set (release_list ?k))" for g
    using filter_refs_ok_ref [OF r(1), of g] f by (cases "g = t") simp_all
  then have refs: "filter_refs_ok (set (release_list ?k)) held ?k"
    using filter_refs_okD(1) [OF r(1)] by (intro filter_refs_okI) simp_all
  have d: "dom (filters ?k) = dom (filters k)" using f by auto
  have "objects_ok ?k"
  proof (rule objects_okI)
    show "finite (dom (filters ?k))" "trackers_counter ?k = Suc (card (dom (filters ?k)))"
      unfolding d using objects_ok_count [OF r(3)] by simp_all
    show "tracker_obj_ok ?k u x" if "filters ?k u = Some x" for u x
    proof (cases "u = t")
      case True
      with that objects_okD [OF r(3) f] show ?thesis by (auto simp: tracker_obj_ok_def)
    next
      case False
      with that have x: "filters k u = Some x" by simp
      have "trk_diff_area tr \<noteq> Some a" if "trk_diff_area x = Some a" for a
        using objects_ok_inj [OF r(3) x f that] False by blast
      then have "as a = areas k a" if "trk_diff_area x = Some a" for a using p(2) that by blast
      with objects_okD [OF r(3) x] show ?thesis by (auto simp: tracker_obj_ok_def)
    qed
    show "u = u'" if "filters ?k u = Some x" "filters ?k u' = Some x'" "trk_diff_area x = Some a" "trk_diff_area x' = Some a"
      for u u' x x' a
      using that objects_ok_inj [OF r(3), of u x u' x' a] by (auto split: if_splits)
  qed
  with refs r(2) have "trackers_ok held ?k" by (simp add: trackers_ok_def)
  moreover have "queues_open k \<longrightarrow> queues_open ?k" using f by (simp add: queues_open_def)
  ultimately show ?thesis using p(1) u by auto
qed

lemma put_queues_ok:
  assumes "trackers_ok held k" "queues_open k" "0 < held t"
  shows "\<exists>k'. tracker_put t k = Ok k' \<and> trackers_ok (held(t := held t - 1)) k' \<and> queues_open k' \<and> same_objects k k'"
  using tracker_put_ok [OF assms(1,3)] queues_put assms(2) by blast

text \<open>The loops over the trackers of a snapshot.\<close>

abbreviation uses :: "nat option list \<Rightarrow> nat \<Rightarrow> nat" where
  "uses ts t \<equiv> count_list ts (Some t)"

lemma release_trackers_ok:
  assumes "trackers_ok held k" "queues_open k" "\<And>t. uses ts t \<le> held t"
  shows "\<exists>k'. snapshot_release_trackers env inx ts k = Ok k' \<and> trackers_ok held k' \<and> queues_open k' \<and> storages k' = storages k"
  using assms
proof (induction env inx ts k rule: snapshot_release_trackers.induct)
  case (2 env inx ts k)
  then show ?case by (simp split: if_splits)
next
  case (3 env inx t ts k)
  have h: "0 < held t" using 3(5) [of t] by simp
  have u: "\<And>t. uses ts t \<le> held t" using 3(5) by (metis count_list.simps(2) le_add1 order_trans)
  from trackers_ok_live [OF 3(3) h] obtain tr where tr: "filters k t = Some tr" "tracker_obj_ok k t tr" by blast
  show ?case
  proof (cases "trk_diff_area tr")
    case None
    with 3(1) [OF tr(1) None 3(3,4) u] tr(1) show ?thesis by simp
  next
    case (Some a)
    then obtain ao where ao: "areas k a = Some ao" using tr(2) by (auto simp: tracker_obj_ok_def)
    let ?b = "orig_bdev (ao_area ao)"
    obtain fz k1 where f: "freeze_bdev (env inx) ?b k = (fz, k1)" by (cases "freeze_bdev (env inx) ?b k")
    have 1: "trackers_ok held k1" "queues_open k1" using trackers_ok_freeze [OF f] queues_freeze [OF f] 3(3,4) by simp_all
    from release_snapshot_ok [OF 1 h] obtain k2 tr1 where
      r: "tracker_release_snapshot t k1 = Ok k2" "trackers_ok held k2" "queues_open k2"
      "k2 = k1\<lparr>filters := (filters k1)(t \<mapsto> tr1\<lparr>snapshot_is_taken := False\<rparr>)\<rparr>" by blast
    let ?k3 = "if fz then thaw_bdev (env inx) ?b k2 else k2"
    have k3: "trackers_ok held ?k3" "queues_open ?k3" using r(2,3) by simp_all
    have s: "storages ?k3 = storages k" using f r(4) by (auto simp: freeze_bdev_def thaw_bdev_def split: if_splits)
    from 3(2) [OF tr(1) Some ao refl f [symmetric] k3 u] obtain k' where
      "snapshot_release_trackers env (Suc inx) ts ?k3 = Ok k'" "trackers_ok held k'" "queues_open k'" "storages k' = storages ?k3" by blast
    with tr(1) Some ao f r(1) s show ?thesis by (simp add: Let_def)
  qed
qed simp

lemma put_trackers_ok:
  assumes "trackers_ok held k" "queues_open k" "\<And>t. uses ts t \<le> held t"
  shows "\<exists>k'. put_trackers P ts k = Ok k' \<and> trackers_ok (\<lambda>t. held t - uses ts t) k' \<and> queues_open k' \<and> storages k' = storages k"
  using assms
proof (induction P ts k arbitrary: held rule: put_trackers.induct)
  case (2 P ts k)
  then show ?case by (simp split: if_splits)
next
  case (3 P t ts k)
  have h: "0 < held t" using 3(4) [of t] by simp
  from trackers_ok_live [OF 3(2) h] obtain tr where tr: "filters k t = Some tr" by blast
  from drop_area_ok [OF 3(2) tr, of P] 3(3) obtain k1 k2 where
    d: "put_area P (trk_diff_area tr) k = Ok k1" "upd_tracker t (\<lambda>tr. tr\<lparr>trk_diff_area := None\<rparr>) k1 = Ok k2"
    "trackers_ok held k2" "queues_open k2" "storages k2 = storages k" by blast
  from put_queues_ok [OF d(3,4) h] obtain k3 where
    p: "tracker_put t k2 = Ok k3" "trackers_ok (held(t := held t - 1)) k3" "queues_open k3" "same_objects k2 k3" by blast
  have u: "uses ts x \<le> (held(t := held t - 1)) x" for x using 3(4) [of x] by auto
  have e: "(\<lambda>x. (held(t := held t - 1)) x - uses ts x) = (\<lambda>x. held x - uses (Some t # ts) x)"
    by (rule ext) auto
  from 3(1) [OF tr p(2,3) u] obtain k' where "put_trackers P ts k3 = Ok k'"
    "trackers_ok (\<lambda>x. held x - uses (Some t # ts) x) k'" "queues_open k'" "storages k' = storages k3" unfolding e by blast
  moreover have "storages k3 = storages k" using p(4) d(5) by (simp add: same_objects_def)
  ultimately show ?case using tr d(1,2) p(1) by simp
qed simp

lemma create_loop_ok:
  assumes "\<And>i. env_ok (env i)" "sn_count sn = inx" "inx + length ds = length (sn_trackers sn)"
    and "trackers_ok (\<lambda>t. h0 t + uses (take inx (sn_trackers sn)) t) k" "queues_open k"
  shows "\<exists>ret sn' k'. create_loop cbt_default_params env inx ds sn k = Ok (ret, sn', k') \<and>
    trackers_ok (\<lambda>t. h0 t + uses (take (sn_count sn') (sn_trackers sn')) t) k' \<and> queues_open k' \<and>
    (ret = None \<longrightarrow> sn_count sn' = inx + length ds)"
  using assms(2-)
proof (induction ds arbitrary: inx sn k)
  case (Cons d ds)
  let ?held = "\<lambda>t. h0 t + uses (take inx (sn_trackers sn)) t" and ?dev = "MKDEV (fst d) (snd d)"
  from tracker_create_or_get_ok [OF Cons.prems(3) assms(1), of inx ?dev] obtain res k1 where
    g: "tracker_create_or_get cbt_default_params (env inx) ?dev k = Ok (res, k1)"
    "case res of Inl e \<Rightarrow> trackers_ok ?held k1 | Inr t \<Rightarrow> trackers_ok (?held(t := Suc (?held t))) k1" by blast
  have q: "queues_open k1" by (rule queues_create_or_get [OF g(1) Cons.prems(4)])
  show ?case
  proof (cases res)
    case (Inl e)
    with g Cons.prems(1) q show ?thesis by simp
  next
    case (Inr t)
    let ?sn = "sn\<lparr>sn_trackers := (sn_trackers sn)[inx := Some t], sn_count := Suc (sn_count sn)\<rparr>"
    have lt: "inx < length (sn_trackers sn)" using Cons.prems(2) by simp
    have tk: "take (Suc inx) ((sn_trackers sn)[inx := Some t]) = take inx (sn_trackers sn) @ [Some t]"
      using lt by (simp add: take_Suc_conv_app_nth)
    have "(\<lambda>x. h0 x + uses (take (Suc inx) (sn_trackers ?sn)) x) = ?held(t := Suc (?held t))"
      by (rule ext) (simp add: tk)
    then have ok: "trackers_ok (\<lambda>x. h0 x + uses (take (Suc inx) (sn_trackers ?sn)) x) k1" using g(2) Inr by simp
    have "sn_count ?sn = Suc inx" "Suc inx + length ds = length (sn_trackers ?sn)" using Cons.prems(1,2) by simp_all
    from Cons.IH [OF this ok q] g(1) Inr show ?thesis by (simp add: g(1))
  qed
qed simp

lemma free_images_none: "(\<And>x. x \<in> set is \<Longrightarrow> x = None) \<Longrightarrow> free_images P ia inx is st = Ok (Returned (), st)"
proof (induction "is" arbitrary: inx)
  case (Cons a "is")
  have "a = None" using Cons.prems by simp
  with Cons show ?case by simp
qed simp

lemma release_untaken_ok:
  assumes "\<And>x. x \<in> set (sn_images sn) \<Longrightarrow> x = None" "queues_open (ms_kern st)"
    and "trackers_ok (\<lambda>t. h0 t + uses (take (sn_count sn) (sn_trackers sn)) t) (ms_kern st)"
  shows "\<exists>k. snapshot_release P env sn st = Ok (Returned (), st\<lparr>ms_kern := k\<rparr>) \<and> trackers_ok h0 k \<and> queues_open k"
proof -
  let ?ts = "take (sn_count sn) (sn_trackers sn)"
  have u: "\<And>t. uses ?ts t \<le> h0 t + uses ?ts t" by simp
  from release_trackers_ok [OF assms(3,2) u, of "ve_tracker env" 0] obtain k1 where
    r: "snapshot_release_trackers (ve_tracker env) 0 ?ts (ms_kern st) = Ok k1"
    "trackers_ok (\<lambda>t. h0 t + uses ?ts t) k1" "queues_open k1" by blast
  from put_trackers_ok [OF r(2,3) u, of P] obtain k2 where
    p: "put_trackers P ?ts k1 = Ok k2" "trackers_ok (\<lambda>t. h0 t + uses ?ts t - uses ?ts t) k2" "queues_open k2" by blast
  have "free_images P (ve_worker env) 0 (take (sn_count sn) (sn_images sn)) st = Ok (Returned (), st)"
    by (rule free_images_none) (use assms(1) in \<open>auto dest: in_set_takeD\<close>)
  with r(1) p show ?thesis by (intro exI [of _ k2]) (simp add: snapshot_release_def Let_def)
qed

lemma put_untaken_ok:
  assumes "snapshot_objs st i = Some sn" "sn_kref sn = 1" "\<And>x. x \<in> set (sn_images sn) \<Longrightarrow> x = None" "queues_open (ms_kern st)"
    and "trackers_ok (\<lambda>t. h0 t + uses (take (sn_count sn) (sn_trackers sn)) t) (ms_kern st)"
  shows "\<exists>st'. snapshot_put P env i st = Ok (Returned (), st') \<and> trackers_ok h0 (ms_kern st') \<and> queues_open (ms_kern st') \<and>
    snapshot_objs st' = (snapshot_objs st)(i := None) \<and> snapimages st' = snapimages st"
proof -
  let ?sn = "sn\<lparr>sn_kref := 0\<rparr>"
  let ?st = "st\<lparr>snapshot_objs := (snapshot_objs st)(i \<mapsto> ?sn)\<rparr>"
  from release_untaken_ok [of ?sn ?st h0 P env] assms(3-5) obtain k where
    "snapshot_release P env ?sn ?st = Ok (Returned (), ?st\<lparr>ms_kern := k\<rparr>)" "trackers_ok h0 k" "queues_open k" by auto
  with assms(1,2) show ?thesis by (simp add: snapshot_put_def snapshot_free_def kref_put_def)
qed


text \<open>A snapshot of one device.\<close>

lemma example_create_one:
  "\<exists>m k. cbt_wf m \<and>
     tracker_create_or_get cbt_default_params tracker_example_env 7 ((kern_init dk)\<lparr>storages := ss\<rparr>) = Ok (Inr 0, k)"
proof -
  have "unat (200 :: u64) < 2 ^ 55" by simp
  from cbt_map_create_wf [OF this, of "te_cbt tracker_example_env 0"] obtain m where
    m: "cbt_map_create cbt_default_params (te_cbt tracker_example_env 0) True 200 = Ok (Some m)" "cbt_wf m"
    by (auto simp: tracker_example_env_def)
  then show ?thesis
    by (auto simp: tracker_create_or_get_def tracker_get_by_dev_def bdev_filter_get_by_bdev_def bdev_extension_find_bdev_def
        bdev_extension_find_def tracker_new_def Let_def bdev_filter_init_def tracker_filter_attach_def freeze_bdev_def
        thaw_bdev_def upd_tracker_def upd_filter_def bdev_filter_attach_def bdev_extension_append_def bdev_filter_get_def
        kref_get_def kern_init_def tracker_example_env_def tracker_zero_def)
qed


end
