(* ===== verification/Snapshot_Take.thy ===== *)
theory Snapshot_Take
  imports Snapshot_References
begin

text \<open>
  Taking a snapshot: the loops of \<^verbatim>\<open>snapshot_take\<close> when they succeed, and the state in which they leave
  the trackers, the difference areas and the images.
\<close>

section \<open>Taking a snapshot\<close>

text \<open>What \<^verbatim>\<open>tracker_take_snapshot\<close> does when it succeeds.\<close>

definition kern_disks :: "kern \<Rightarrow> (nat \<Rightarrow> area_object option) \<times> (nat \<Rightarrow> diff_storage option) \<times> disk" where
  "kern_disks k = (areas k, storages k, block_disks k)"

lemma kern_disks_simps [simp]:
  "kern_disks (k\<lparr>filters := f\<rparr>) = kern_disks k" "kern_disks (k\<lparr>cbt_maps := m\<rparr>) = kern_disks k"
  "kern_disks (k\<lparr>fs_freezes := x\<rparr>) = kern_disks k" "kern_disks (thaw_bdev env b k) = kern_disks k"
  "kern_disks (snd (freeze_bdev env b k)) = kern_disks k"
  by (simp_all add: kern_disks_def thaw_bdev_def freeze_bdev_def)

lemma take_tracker_success:
  assumes "tracker_take_snapshot p env t k = Ok (None, k')"
  shows "\<exists>tr. filters k t = Some tr \<and> \<not> submit_frozen tr \<and> filters k' = (filters k)(t \<mapsto> tr\<lparr>snapshot_is_taken := True\<rparr>) \<and>
    kern_disks k' = kern_disks k \<and> fs_freezes k' = fs_freezes k"
proof -
  from assms obtain tr a ao where tr: "filters k t = Some tr" "trk_diff_area tr = Some a" "areas k a = Some ao"
    by (auto simp: tracker_take_snapshot_def split: option.splits)
  with assms have nf: "\<not> submit_frozen tr" by (auto simp: tracker_take_snapshot_def bdevfilter_freeze_queue_def)
  let ?k1 = "k\<lparr>filters := (filters k)(t \<mapsto> tr\<lparr>submit_frozen := True\<rparr>)\<rparr>"
  have fz: "bdevfilter_freeze_queue t k = Ok ?k1" using tr(1) nf by (simp add: bdevfilter_freeze_queue_def)
  from assms tr fz obtain c m where c: "trk_cbt_map tr = Some c" "cbt_maps k c = Some m"
    by (auto simp: tracker_take_snapshot_def split: option.splits)
  let ?cap = "te_nr_sectors env (orig_bdev (ao_area ao))"
  from assms tr fz c obtain ret m1 where r:
    "(if is_corrupted m \<or> device_capacity m \<noteq> ?cap then cbt_map_reset p (te_cbt env t) m ?cap else Ok (None, m)) = Ok (ret, m1)"
    by (auto simp: tracker_take_snapshot_def Let_def dest!: bind_outcome_eq_OkD)
  with assms tr fz c have ret: "ret = None" by (auto simp: tracker_take_snapshot_def Let_def split: if_splits)
  let ?k2 = "?k1\<lparr>cbt_maps := (cbt_maps ?k1)(c \<mapsto> m1)\<rparr>"
  from assms tr fz c r ret obtain m2 where s: "cbt_map_switch (random_uuid (te_cbt env t)) m1 = Ok m2"
    by (auto simp: tracker_take_snapshot_def Let_def dest!: bind_outcome_eq_OkD)
  have e: "tr\<lparr>snapshot_is_taken := True, submit_frozen := False\<rparr> = tr\<lparr>snapshot_is_taken := True\<rparr>" using nf by (cases tr) simp
  have "k' = k\<lparr>cbt_maps := (cbt_maps k)(c \<mapsto> m2), filters := (filters k)(t \<mapsto> tr\<lparr>snapshot_is_taken := True, submit_frozen := False\<rparr>)\<rparr>"
    using assms tr fz c r ret s
    by (simp add: tracker_take_snapshot_def Let_def upd_tracker_def upd_filter_def bdevfilter_unfreeze_queue_def)
  then have "k' = k\<lparr>cbt_maps := (cbt_maps k)(c \<mapsto> m2), filters := (filters k)(t \<mapsto> tr\<lparr>snapshot_is_taken := True\<rparr>)\<rparr>"
    unfolding e .
  then show ?thesis using tr(1) nf by simp
qed

lemma freeze_thaw:
  assumes "freeze_bdev env b k = (fz, k1)" "te_thaw env b" "fs_freezes k2 = fs_freezes k1"
  shows "fs_freezes (if fz then thaw_bdev env b k2 else k2) = fs_freezes k"
  using assms by (auto simp: freeze_bdev_def thaw_bdev_def fun_eq_iff split: if_splits)

definition mark_taken :: "nat option list \<Rightarrow> (nat \<Rightarrow> tracker option) \<Rightarrow> nat \<Rightarrow> tracker option" where
  "mark_taken ts f t = (if Some t \<in> set ts then map_option (\<lambda>tr. tr\<lparr>snapshot_is_taken := True\<rparr>) (f t) else f t)"

lemma take_loop_success:
  assumes "take_trackers_loop p env inx ts k = Ok (None, n, k')" "\<And>i b. te_thaw (env i) b"
  shows "filters k' = mark_taken ts (filters k) \<and> kern_disks k' = kern_disks k \<and> fs_freezes k' = fs_freezes k \<and>
    (\<forall>t tr. Some t \<in> set ts \<longrightarrow> filters k' t = Some tr \<longrightarrow> \<not> submit_frozen tr)"
  using assms(1)
proof (induction ts arbitrary: inx k)
  case Nil
  then show ?case by (auto simp: mark_taken_def)
next
  case (Cons c ts)
  show ?case
  proof (cases c)
    case None
    with Cons show ?thesis by (simp add: mark_taken_def)
  next
    case (Some t)
    note c = Some
    from Cons.prems c obtain bdev where b: "tracker_bdev t k = Ok bdev" by (auto dest!: bind_outcome_eq_OkD)
    obtain fz k1 where f: "freeze_bdev (env inx) bdev k = (fz, k1)" by (cases "freeze_bdev (env inx) bdev k")
    have f': "filters k1 = filters k" "kern_disks k1 = kern_disks k"
      using f kern_disks_simps(5) [of "env inx" bdev k] by (auto simp: freeze_bdev_def split: if_splits)
    from Cons.prems c b f obtain k2 where t: "tracker_take_snapshot p (env inx) t k1 = Ok (None, k2)"
      and l: "take_trackers_loop p env (Suc inx) ts (if fz then thaw_bdev (env inx) bdev k2 else k2) = Ok (None, n, k')"
      by (auto split: if_splits dest!: bind_outcome_eq_OkD)
    from take_tracker_success [OF t] f' obtain tr where tr: "filters k t = Some tr" "\<not> submit_frozen tr"
      "filters k2 = (filters k)(t \<mapsto> tr\<lparr>snapshot_is_taken := True\<rparr>)" "kern_disks k2 = kern_disks k" "fs_freezes k2 = fs_freezes k1" by auto
    let ?k3 = "if fz then thaw_bdev (env inx) bdev k2 else k2"
    have k3: "filters ?k3 = filters k2" "kern_disks ?k3 = kern_disks k2" by (simp_all add: thaw_bdev_def kern_disks_def)
    have fr: "fs_freezes ?k3 = fs_freezes k" by (rule freeze_thaw [OF f assms(2) tr(5)])
    have IH: "filters k' = mark_taken ts (filters ?k3)" "kern_disks k' = kern_disks ?k3" "fs_freezes k' = fs_freezes ?k3"
      "\<forall>t tr. Some t \<in> set ts \<longrightarrow> filters k' t = Some tr \<longrightarrow> \<not> submit_frozen tr"
      using Cons.IH [OF l] by blast+
    have "mark_taken ts (filters ?k3) = mark_taken (Some t # ts) (filters k)"
      unfolding k3 tr(3) by (rule ext) (simp add: mark_taken_def tr(1))
    moreover have "\<not> submit_frozen x" if "filters k' t = Some x" for x
      using that tr(1,2) unfolding IH(1) k3 tr(3) by (auto simp: mark_taken_def split: if_splits)
    ultimately show ?thesis using IH k3(2) fr tr(4) c by auto
  qed
qed

text \<open>The areas of a taken snapshot: the one of the tracker with index \<open>j\<close> is new.\<close>

definition new_area_of :: "area_params \<Rightarrow> snapshot_env \<Rightarrow> nat \<Rightarrow> diff_storage \<Rightarrow> kern \<Rightarrow> nat \<Rightarrow> nat \<Rightarrow> nat \<Rightarrow> bool" where
  "new_area_of p env sid ds k j t x \<longleftrightarrow>
     (\<exists>tr info na a. filters k t = Some tr \<and> trk_diff_area tr = Some x \<and>
        te_open (ve_tracker env j) (trk_dev_id tr) = Inr info \<and>
        diff_area_new p (Inr info) (ve_area env j) (ve_chunk env j) (ve_insert env j) ds = Ok na \<and> na_result na = Inr a \<and>
        areas k x = Some \<lparr>ao_area = a, ao_storage = sid, ao_inflight = [], ao_notify = []\<rparr>)"

lemma alloc_areas_success:
  assumes "alloc_areas p env sid inx ts k = Ok (None, k')" "distinct ts" "None \<notin> set ts" "storages k sid = Some ds"
  shows "(\<forall>j<length ts. \<exists>t x. ts ! j = Some t \<and> new_area_of p env sid ds k' (inx + j) t x \<and> next_object k \<le> x \<and> x < next_object k') \<and>
    (\<forall>t. Some t \<notin> set ts \<longrightarrow> filters k' t = filters k t) \<and> (\<forall>x<next_object k. areas k' x = areas k x) \<and>
    next_object k \<le> next_object k' \<and> storages k' = storages k \<and> block_disks k' = block_disks k \<and> fs_freezes k' = fs_freezes k"
  using assms
proof (induction ts arbitrary: inx k)
  case (Cons c ts)
  obtain t where c: "c = Some t" using Cons.prems(3) by (cases c) auto
  note 3 = Cons.IH Cons.prems [unfolded c]
  from 3(2,5) obtain tr where tr: "filters k t = Some tr" by (auto split: option.splits)
  from 3(2,5) tr obtain na a k1 where n:
    "diff_area_new p (te_open (ve_tracker env inx) (trk_dev_id tr)) (ve_area env inx) (ve_chunk env inx) (ve_insert env inx) ds = Ok na"
    "na_result na = Inr a" "alloc_areas p env sid (Suc inx) ts k1 = Ok (None, k')"
    "k1 = k\<lparr>areas := (areas k)(next_object k \<mapsto> \<lparr>ao_area = a, ao_storage = sid, ao_inflight = [], ao_notify = []\<rparr>),
         next_object := Suc (next_object k), filters := (filters k)(t \<mapsto> tr\<lparr>trk_diff_area := Some (next_object k)\<rparr>)\<rparr>"
    by (auto simp: upd_tracker_def upd_filter_def Let_def split: sum.splits dest!: bind_outcome_eq_OkD)
  obtain info where info: "te_open (ve_tracker env inx) (trk_dev_id tr) = Inr info"
    using n(1,2) by (cases "te_open (ve_tracker env inx) (trk_dev_id tr)") (auto simp: diff_area_new_def)
  have ts: "distinct ts" "None \<notin> set ts" "Some t \<notin> set ts" using 3(3,4) by simp_all
  have "storages k1 sid = Some ds" using 3(5) by (simp add: n(4))
  from 3(1) [OF n(3) ts(1,2) this]
  have IH: "\<forall>j<length ts. \<exists>t x. ts ! j = Some t \<and> new_area_of p env sid ds k' (Suc inx + j) t x \<and> next_object k1 \<le> x \<and> x < next_object k'"
    "\<forall>t. Some t \<notin> set ts \<longrightarrow> filters k' t = filters k1 t" "\<forall>x<next_object k1. areas k' x = areas k1 x"
    "next_object k1 \<le> next_object k'" "storages k' = storages k1" "block_disks k' = block_disks k1" "fs_freezes k' = fs_freezes k1"
    by blast+
  have "filters k' t = Some (tr\<lparr>trk_diff_area := Some (next_object k)\<rparr>)" using IH(2) ts(3) by (simp add: n(4))
  moreover have "areas k' (next_object k) = Some \<lparr>ao_area = a, ao_storage = sid, ao_inflight = [], ao_notify = []\<rparr>"
    using IH(3) by (simp add: n(4))
  ultimately have first: "new_area_of p env sid ds k' inx t (next_object k)"
    using info n(1,2) by (simp add: new_area_of_def)
  have "\<exists>u x. (Some t # ts) ! j = Some u \<and> new_area_of p env sid ds k' (inx + j) u x \<and> next_object k \<le> x \<and> x < next_object k'"
    if "j < length (Some t # ts)" for j
  proof (cases j)
    case 0
    have "next_object k < next_object k'" using IH(4) by (simp add: n(4))
    with 0 first show ?thesis by auto
  next
    case (Suc i)
    with IH(1) that obtain u x where "ts ! i = Some u" "new_area_of p env sid ds k' (Suc inx + i) u x" "next_object k1 \<le> x" "x < next_object k'"
      by auto
    moreover have "next_object k1 = Suc (next_object k)" by (simp add: n(4))
    ultimately show ?thesis using Suc by (auto intro!: exI [of _ x])
  qed
  moreover have "\<forall>u. Some u \<notin> set (Some t # ts) \<longrightarrow> filters k' u = filters k u" using IH(2) by (simp add: n(4))
  moreover have "\<forall>x<next_object k. areas k' x = areas k x" using IH(3) by (simp add: n(4))
  moreover have "next_object k \<le> next_object k'" using IH(4) by (simp add: n(4))
  ultimately show ?case unfolding c using IH(5-7) by (simp add: n(4))
qed auto

text \<open>Creating the images only adds references to the areas.\<close>

definition same_area :: "area_object \<Rightarrow> area_object \<Rightarrow> bool" where
  "same_area ao ao' \<longleftrightarrow> (\<exists>r. ao' = ao\<lparr>ao_area := (ao_area ao)\<lparr>da_kref := r\<rparr>\<rparr>)"

lemma same_area_refl [simp]: "same_area ao ao"
  by (auto simp: same_area_def intro: exI [of _ "da_kref (ao_area ao)"])

lemma same_area_trans: "same_area x y \<Longrightarrow> same_area y z \<Longrightarrow> same_area x z"
  by (auto simp: same_area_def)

definition areas_same :: "kern \<Rightarrow> kern \<Rightarrow> bool" where
  "areas_same k k' \<longleftrightarrow> (\<forall>x ao. areas k x = Some ao \<longrightarrow> (\<exists>ao'. areas k' x = Some ao' \<and> same_area ao ao'))"

lemma areas_same_trans: "areas_same k k' \<Longrightarrow> areas_same k' k'' \<Longrightarrow> areas_same k k''"
  unfolding areas_same_def by (meson same_area_trans)

lemma image_create_success:
  assumes "snapimage_create P env a c st = Ok (Inr i, st')"
  shows "i = next_image st \<and> areas_same (ms_kern st) (ms_kern st') \<and> filters (ms_kern st') = filters (ms_kern st) \<and>
    storages (ms_kern st') = storages (ms_kern st) \<and> block_disks (ms_kern st') = block_disks (ms_kern st) \<and>
    fs_freezes (ms_kern st') = fs_freezes (ms_kern st) \<and> next_image st' = Suc i \<and> snapshot_part st' = snapshot_part st \<and>
    (\<exists>si. snapimages st' = (snapimages st)(i \<mapsto> si) \<and> si_diff_area si = a \<and> si_queue si = [])"
proof -
  obtain ao m where am: "areas (ms_kern st) a = Some ao" "cbt_maps (ms_kern st) c = Some m"
    using assms by (auto simp: snapimage_create_def split: option.splits)
  let ?k = "(ms_kern st)\<lparr>areas := (areas (ms_kern st))(a \<mapsto> ao\<lparr>ao_area := diff_area_get (ao_area ao)\<rparr>),
      cbt_maps := (cbt_maps (ms_kern st))(c \<mapsto> cbt_map_get m)\<rparr>"
  let ?si = "\<lparr>si_capacity = device_capacity m, si_worker = True, si_queue = [], si_disk = ie_disk env, si_diff_area = a, si_cbt_map = c\<rparr>"
  have "i = next_image st \<and> st' = st\<lparr>ms_kern := ?k, snapimages := (snapimages st)(i \<mapsto> ?si), next_image := Suc i\<rparr>"
    using assms am
    by (auto simp: snapimage_create_def get_area_def get_map_def Let_def split: if_splits option.splits dest!: bind_outcome_eq_OkD)
  moreover have "areas_same (ms_kern st) ?k"
  proof -
    have "same_area ao (ao\<lparr>ao_area := diff_area_get (ao_area ao)\<rparr>)" by (auto simp: diff_area_get_def same_area_def)
    with am(1) show ?thesis by (simp add: areas_same_def)
  qed
  ultimately show ?thesis by (intro conjI exI [of _ ?si]) simp_all
qed

lemma create_images_success:
  assumes "create_images P env inx ts imgs st = Ok (None, imgs', st')" "inx + length ts \<le> length imgs"
  shows "areas_same (ms_kern st) (ms_kern st') \<and> filters (ms_kern st') = filters (ms_kern st) \<and>
    storages (ms_kern st') = storages (ms_kern st) \<and> block_disks (ms_kern st') = block_disks (ms_kern st) \<and>
    fs_freezes (ms_kern st') = fs_freezes (ms_kern st) \<and> next_image st \<le> next_image st' \<and> snapshot_part st' = snapshot_part st \<and>
    (\<forall>i<next_image st. snapimages st' i = snapimages st i) \<and> length imgs' = length imgs \<and> (\<forall>j<inx. imgs' ! j = imgs ! j) \<and>
    (\<forall>j<length ts. \<exists>t tr x i si. ts ! j = Some t \<and> filters (ms_kern st) t = Some tr \<and> trk_diff_area tr = Some x \<and>
       imgs' ! (inx + j) = Some i \<and> snapimages st' i = Some si \<and> si_diff_area si = x \<and> si_queue si = [])"
  using assms
proof (induction ts arbitrary: inx imgs st)
  case Nil
  then show ?case by (auto simp: areas_same_def)
next
  case (Cons p ts)
  from Cons.prems(1) obtain t tr x c where t: "p = Some t" "filters (ms_kern st) t = Some tr" "trk_diff_area tr = Some x" "trk_cbt_map tr = Some c"
    by (auto split: option.splits)
  from Cons.prems(1) t obtain i st1 where
    i: "snapimage_create P (env inx) x c st = Ok (Inr i, st1)" "create_images P env (Suc inx) ts (imgs[inx := Some i]) st1 = Ok (None, imgs', st')"
    by (auto split: sum.splits dest!: bind_outcome_eq_OkD)
  from image_create_success [OF i(1)] obtain si where
    c: "i = next_image st" "areas_same (ms_kern st) (ms_kern st1)" "filters (ms_kern st1) = filters (ms_kern st)"
    "storages (ms_kern st1) = storages (ms_kern st)" "block_disks (ms_kern st1) = block_disks (ms_kern st)"
    "fs_freezes (ms_kern st1) = fs_freezes (ms_kern st)" "next_image st1 = Suc i" "snapshot_part st1 = snapshot_part st"
    "snapimages st1 = (snapimages st)(i \<mapsto> si)" "si_diff_area si = x" "si_queue si = []" by blast
  have "Suc inx + length ts \<le> length (imgs[inx := Some i])" using Cons.prems(2) by simp
  from Cons.IH [OF i(2) this] have IH: "areas_same (ms_kern st1) (ms_kern st')" "filters (ms_kern st') = filters (ms_kern st1)"
    "storages (ms_kern st') = storages (ms_kern st1)" "block_disks (ms_kern st') = block_disks (ms_kern st1)"
    "fs_freezes (ms_kern st') = fs_freezes (ms_kern st1)" "next_image st1 \<le> next_image st'" "snapshot_part st' = snapshot_part st1"
    "\<forall>i<next_image st1. snapimages st' i = snapimages st1 i" "length imgs' = length (imgs[inx := Some i])"
    "\<forall>j<Suc inx. imgs' ! j = imgs[inx := Some i] ! j"
    "\<forall>j<length ts. \<exists>t tr x i si. ts ! j = Some t \<and> filters (ms_kern st1) t = Some tr \<and> trk_diff_area tr = Some x \<and>
       imgs' ! (Suc inx + j) = Some i \<and> snapimages st' i = Some si \<and> si_diff_area si = x \<and> si_queue si = []" by blast+
  have here: "imgs' ! inx = Some i" "snapimages st' i = Some si" using IH(8,10) Cons.prems(2) c(7,9) by simp_all
  have "\<exists>t tr x i si. (p # ts) ! j = Some t \<and> filters (ms_kern st) t = Some tr \<and> trk_diff_area tr = Some x \<and>
       imgs' ! (inx + j) = Some i \<and> snapimages st' i = Some si \<and> si_diff_area si = x \<and> si_queue si = []"
    if "j < length (p # ts)" for j
  proof (cases j)
    case 0
    with t here c(10,11) show ?thesis by simp
  next
    case (Suc m)
    with IH(11) that c(3) show ?thesis by simp
  qed
  moreover have "\<forall>j<inx. imgs' ! j = imgs ! j" using IH(10) by simp
  moreover have "\<forall>i<next_image st. snapimages st' i = snapimages st i" using IH(8) c(1,7,9) by simp
  ultimately show ?case
    using IH(2-7,9) c(3-8) areas_same_trans [OF c(2) IH(1)] c(1) by simp
qed

lemma get_by_id_only:
  assumes "lists_only i st" "snapshot_objs st i = Some sn"
  shows "snapshot_get_by_id (sn_id sn) st = Ok (Some i, st\<lparr>snapshot_objs := (snapshot_objs st)(i \<mapsto> sn\<lparr>sn_kref := Suc (sn_kref sn)\<rparr>)\<rparr>)"
  using lists_onlyD [OF assms] assms(2) by (simp add: snapshot_get_by_id_def snapshot_get_def kref_get_def)

lemma take_steps_success:
  assumes "take_steps p env sn k = Ok (None, sn2, k2)" "\<And>i b. te_thaw (ve_tracker env i) b"
    and "distinct (take (sn_count sn) (sn_trackers sn))" "None \<notin> set (take (sn_count sn) (sn_trackers sn))"
    and "storages k (sn_storage sn) = Some ds"
  shows "\<exists>k1. (\<forall>j<length (take (sn_count sn) (sn_trackers sn)). \<exists>t x. take (sn_count sn) (sn_trackers sn) ! j = Some t \<and>
        new_area_of (sp_area p) env (sn_storage sn) ds k1 j t x) \<and> storages k1 = storages k \<and> block_disks k1 = block_disks k \<and>
      filters k2 = mark_taken (take (sn_count sn) (sn_trackers sn)) (filters k1) \<and> kern_disks k2 = kern_disks k1 \<and>
      fs_freezes k2 = fs_freezes k \<and> sn2 = sn\<lparr>sn_is_taken := True\<rparr> \<and>
      (\<forall>t tr. Some t \<in> set (take (sn_count sn) (sn_trackers sn)) \<longrightarrow> filters k2 t = Some tr \<longrightarrow> \<not> submit_frozen tr)"
proof -
  let ?ts = "take (sn_count sn) (sn_trackers sn)"
  from assms(1) obtain k1 where a: "alloc_areas (sp_area p) env (sn_storage sn) 0 ?ts k = Ok (None, k1)"
    by (auto simp: take_steps_def Let_def split: if_splits dest!: bind_outcome_eq_OkD)
  from assms(1) a obtain n where l: "take_trackers_loop (sp_cbt p) (ve_tracker env) 0 ?ts k1 = Ok (None, n, k2)"
    and sn2: "sn2 = sn\<lparr>sn_is_taken := True\<rparr>"
    by (auto simp: take_steps_def snapshot_take_trackers_def Let_def split: if_splits dest!: bind_outcome_eq_OkD)
  from alloc_areas_success [OF a assms(3-5)] have al: "\<forall>j<length ?ts. \<exists>t x. ?ts ! j = Some t \<and>
      new_area_of (sp_area p) env (sn_storage sn) ds k1 (0 + j) t x \<and> next_object k \<le> x \<and> x < next_object k1"
    "storages k1 = storages k" "block_disks k1 = block_disks k" "fs_freezes k1 = fs_freezes k" by blast+
  from take_loop_success [OF l assms(2)] have tl: "filters k2 = mark_taken ?ts (filters k1)" "kern_disks k2 = kern_disks k1"
    "fs_freezes k2 = fs_freezes k1" "\<forall>t tr. Some t \<in> set ?ts \<longrightarrow> filters k2 t = Some tr \<longrightarrow> \<not> submit_frozen tr" by blast+
  have "\<forall>j<length ?ts. \<exists>t x. ?ts ! j = Some t \<and> new_area_of (sp_area p) env (sn_storage sn) ds k1 j t x"
    using al(1) by (metis add_0)
  with al(2-4) tl sn2 show ?thesis by auto
qed

lemma take_steps_kref: "take_steps p env sn k = Ok (ret, sn2, k2) \<Longrightarrow> sn_kref sn2 = sn_kref sn"
  by (auto simp: take_steps_def snapshot_take_trackers_def Let_def split: if_splits dest!: bind_outcome_eq_OkD)

lemma snapshot_take_success:
  assumes "snapshot_take p env (sn_id sn) st = Ok (Returned None, st')" "lists_only i st" "snapshot_objs st i = Some sn" "sn_kref sn = 1"
    and "\<not> sn_is_taken sn"
  shows "\<exists>sn2 k2 imgs st3. take_steps p env (sn\<lparr>sn_kref := 2\<rparr>) (ms_kern st) = Ok (None, sn2, k2) \<and>
    create_images (sp_cow p) (ve_image env) 0 (take (sn_count sn2) (sn_trackers sn2)) (sn_images sn2)
      (st\<lparr>ms_kern := k2, snapshot_objs := (snapshot_objs st)(i \<mapsto> sn2)\<rparr>) = Ok (None, imgs, st3) \<and>
    st' = st3\<lparr>snapshot_objs := (snapshot_objs st3)(i \<mapsto> sn2\<lparr>sn_images := imgs, sn_kref := 1\<rparr>)\<rparr>"
proof -
  have e: "sn\<lparr>sn_kref := Suc (sn_kref sn)\<rparr> = sn\<lparr>sn_kref := 2\<rparr>" using assms(4) by simp
  note g = get_by_id_only [OF assms(2,3), unfolded e]
  let ?st1 = "st\<lparr>snapshot_objs := (snapshot_objs st)(i \<mapsto> sn\<lparr>sn_kref := 2\<rparr>)\<rparr>"
  have c: "sn_count sn \<noteq> 0"
    using assms(1,5) g by (auto simp: snapshot_take_def Let_def split: if_splits dest!: bind_lock_eq_OkD)
  from assms(1,5) g c obtain ret sn2 k2 where s: "take_steps p env (sn\<lparr>sn_kref := 2\<rparr>) (ms_kern st) = Ok (ret, sn2, k2)"
    by (auto simp: snapshot_take_def Let_def dest!: bind_outcome_eq_OkD)
  have r: "ret = None"
    using assms(1,5) g c s by (cases ret) (auto simp: snapshot_take_def Let_def dest!: bind_outcome_eq_OkD bind_lock_eq_OkD)
  let ?st2 = "st\<lparr>ms_kern := k2, snapshot_objs := (snapshot_objs st)(i \<mapsto> sn2)\<rparr>"
  from assms(1,5) g c s r obtain imgs st3 where
    ci: "create_images (sp_cow p) (ve_image env) 0 (take (sn_count sn2) (sn_trackers sn2)) (sn_images sn2) ?st2 = Ok (None, imgs, st3)"
    and pt: "snapshot_put (sp_cow p) env i (st3\<lparr>snapshot_objs := (snapshot_objs st3)(i \<mapsto> sn2\<lparr>sn_images := imgs\<rparr>)\<rparr>) = Ok (Returned (), st')"
    by (auto simp: snapshot_take_def Let_def dest!: bind_outcome_eq_OkD bind_lock_eq_OkD)
  let ?st4 = "st3\<lparr>snapshot_objs := (snapshot_objs st3)(i \<mapsto> sn2\<lparr>sn_images := imgs\<rparr>)\<rparr>"
  have o3: "snapshot_objs ?st4 i = Some (sn2\<lparr>sn_images := imgs\<rparr>)" by simp
  have "sn_kref sn2 = 2" using take_steps_kref [OF s] by simp
  with pt have "st' = ?st4\<lparr>snapshot_objs := (snapshot_objs ?st4)(i \<mapsto> sn2\<lparr>sn_images := imgs, sn_kref := 1\<rparr>)\<rparr>"
    by (simp add: snapshot_put_def kref_put_def)
  with s r ci show ?thesis by auto
qed


text \<open>A listed snapshot of the device of the examples, and the answers of the kernel when it is taken.\<close>

definition example_tracker_env :: tracker_env where
  "example_tracker_env = tracker_example_env\<lparr>te_open := (\<lambda>_. Inr example_info), te_nr_sectors := (\<lambda>_. 8)\<rparr>"

definition example_snapshot :: snapshot where
  "example_snapshot =
     \<lparr>sn_kref = 1, sn_id = 5, sn_is_taken = False, sn_storage = 0, sn_count = 1, sn_trackers = [Some 0], sn_images = [None]\<rparr>"

definition example_snap_state :: "cbt_map \<Rightarrow> snap_state" where
  "example_snap_state m =
     (snap_init example_disks)
       \<lparr>ms_kern := (kern_init example_disks)
          \<lparr>filters := [0 \<mapsto> tracker_zero\<lparr>flt_kref := 2, trk_dev_id := 8, trk_cbt_map := Some 0\<rparr>], cbt_maps := [0 \<mapsto> m],
           storages := [0 \<mapsto> example_storage], next_object := 1\<rparr>,
        snapshot_objs := [0 \<mapsto> example_snapshot], next_snapshot := 1,
        snapshots := \<lparr>lnext = [Head \<mapsto> Link 0, Link 0 \<mapsto> Head], lprev = [Head \<mapsto> Link 0, Link 0 \<mapsto> Head]\<rparr>\<rparr>"

lemma example_map: "\<exists>m. cbt_wf m \<and> \<not> is_corrupted m \<and> device_capacity m = 8"
proof -
  have "unat (8 :: u64) < 2 ^ 55" by simp
  from cbt_map_create_wf [OF this, of "te_cbt tracker_example_env 0"] show ?thesis by (auto simp: tracker_example_env_def)
qed

lemma example_area_new:
  "\<exists>na. diff_area_new area_default_params (Inr example_info) True (\<lambda>_. True) (\<lambda>_. None) example_storage = Ok na \<and>
     na_result na = Inr example_area"
  using example_new by (auto simp: example_area_def split: outcome.splits sum.splits)

lemma example_take:
  assumes "cbt_wf m" "\<not> is_corrupted m" "device_capacity m = 8"
  shows "\<exists>st'. snapshot_take example_snapshot_params (example_snapshot_env example_tracker_env 0) 5 (example_snap_state m) = Ok (Returned None, st')"
proof -
  let ?env = "example_snapshot_env example_tracker_env 0" and ?st = "example_snap_state m"
  from example_area_new obtain na where na: "diff_area_new area_default_params (Inr example_info) True (\<lambda>_. True) (\<lambda>_. None) example_storage = Ok na"
    "na_result na = Inr example_area" by blast
  have cr: "\<not> diff_area_is_corrupted example_area"
    using example_quiet(1) by (simp add: quiet_def cow_start_def diff_area_is_corrupted_def)
  from cbt_map_switch_wf [OF assms(1)] obtain m' where m': "cbt_map_switch 5 m = Ok m'" by blast
  have only: "lists_only 0 ?st" by (simp add: lists_only_def example_snap_state_def)
  have sn: "snapshot_objs ?st 0 = Some example_snapshot" by (simp add: example_snap_state_def)
  have g: "snapshot_get_by_id 5 ?st = Ok (Some 0, ?st\<lparr>snapshot_objs := (snapshot_objs ?st)(0 \<mapsto> example_snapshot\<lparr>sn_kref := 2\<rparr>)\<rparr>)"
    using get_by_id_only [OF only sn] by (simp add: example_snapshot_def numeral_2_eq_2)
  show ?thesis
    using na cr m' assms(2,3) g
    by (simp add: snapshot_take_def take_steps_def snapshot_take_trackers_def Let_def example_snapshot_env_def
        example_snapshot_params_def example_tracker_env_def tracker_example_env_def example_snapshot_def
        example_snap_state_def kern_init_def snap_init_def tracker_zero_def upd_tracker_def upd_filter_def tracker_bdev_def
        freeze_bdev_def thaw_bdev_def tracker_take_snapshot_def bdevfilter_freeze_queue_def bdevfilter_unfreeze_queue_def
        snapimage_create_def get_area_def get_map_def snapshot_put_def kref_put_def)
qed


end
