(* ===== verification/Snapshot_Release.thy ===== *)
theory Snapshot_Release
  imports Snapshot_Take
begin

text \<open>
  The ways a snapshot ends: \<^verbatim>\<open>snapshot_destroy\<close>, after which none of its devices is in copy-on-write, and
  the error path of \<^verbatim>\<open>snapshot_take\<close>.
\<close>

section \<open>Destroying a snapshot\<close>

text \<open>A tracker that is taken has an area: \<^verbatim>\<open>snapshot_take\<close> allocates the areas first.\<close>

definition taken_areas :: "kern \<Rightarrow> bool" where
  "taken_areas k \<longleftrightarrow> (\<forall>t tr. filters k t = Some tr \<longrightarrow> trk_diff_area tr = None \<longrightarrow> \<not> snapshot_is_taken tr)"

definition released :: "nat option set \<Rightarrow> kern \<Rightarrow> bool" where
  "released R k \<longleftrightarrow> (\<forall>t tr. Some t \<in> R \<longrightarrow> filters k t = Some tr \<longrightarrow> \<not> snapshot_is_taken tr)"

definition detached :: "nat option set \<Rightarrow> kern \<Rightarrow> bool" where
  "detached R k \<longleftrightarrow> (\<forall>t tr. Some t \<in> R \<longrightarrow> filters k t = Some tr \<longrightarrow> \<not> snapshot_is_taken tr \<and> trk_diff_area tr = None)"

lemma null_trackers [simp]:
  "released (insert None R) k = released R k" "detached (insert None R) k = detached R k"
  by (simp_all add: released_def detached_def)

lemma kern_filters [simp]:
  "filters (thaw_bdev env b k) = filters k" "filters (snd (freeze_bdev env b k)) = filters k"
  by (simp_all add: thaw_bdev_def freeze_bdev_def)

lemma put_area_filters: "put_area P a k = Ok k' \<Longrightarrow> filters k' = filters k"
  by (auto simp: put_area_def split: option.splits prod.splits)

lemma put_map_filters: "put_map c k = Ok k' \<Longrightarrow> filters k' = filters k"
  by (auto simp: put_map_def split: option.splits)

lemma with_area_filters: "with_area a f k = Ok (x, k') \<Longrightarrow> filters k' = filters k"
  by (auto simp: with_area_def put_cow_def split: option.splits dest!: bind_outcome_eq_OkD)

lemma image_free_filters:
  "snapimage_free P ia i st = Ok (r, st') \<Longrightarrow> filters (ms_kern st') = filters (ms_kern st)"
  by (auto simp: snapimage_free_def snapimage_free_disk_def Let_def split: option.splits
      dest!: bind_outcome_eq_OkD with_area_filters put_area_filters put_map_filters)

lemma free_images_filters:
  "free_images P ia inx is st = Ok (r, st') \<Longrightarrow> filters (ms_kern st') = filters (ms_kern st)"
proof (induction "is" arbitrary: inx st)
  case (Cons x "is")
  then show ?case by (cases x) (auto dest!: bind_lock_eq_OkD image_free_filters)
qed simp

lemma release_snapshot_filters:
  assumes "tracker_release_snapshot t k = Ok k'"
  shows "\<exists>tr. filters k t = Some tr \<and> \<not> submit_frozen tr \<and> k' = k\<lparr>filters := (filters k)(t \<mapsto> tr\<lparr>snapshot_is_taken := False, submit_frozen := False\<rparr>)\<rparr>"
  using assms
  by (auto simp: tracker_release_snapshot_def bdevfilter_freeze_queue_def upd_tracker_def upd_filter_def
      bdevfilter_unfreeze_queue_def split: option.splits if_splits)

lemma released_upd:
  assumes "filters k' = (filters k)(t \<mapsto> x)" "\<not> snapshot_is_taken x" "taken_areas k" "released R k"
  shows "taken_areas k'" "released (insert (Some t) R) k'"
  using assms by (auto simp: released_def taken_areas_def split: if_splits)

lemma detached_upd:
  assumes "filters k' = (filters k)(t \<mapsto> x)" "\<not> snapshot_is_taken x" "trk_diff_area x = None" "released S k" "detached R k"
  shows "released S k'" "detached (insert (Some t) R) k'"
  using assms by (auto simp: released_def detached_def split: if_splits)

lemma release_trackers_released:
  assumes "snapshot_release_trackers env inx ts k = Ok k'" "taken_areas k" "released R k"
  shows "taken_areas k' \<and> released (R \<union> set ts) k'"
  using assms
proof (induction ts arbitrary: inx k R)
  case (Cons c ts)
  show ?case
  proof (cases c)
    case None
    with Cons.IH [OF _ Cons.prems(2,3)] Cons.prems(1) show ?thesis by simp
  next
    case (Some t)
    then obtain tr where tr: "filters k t = Some tr" using Cons.prems(1) by (auto split: option.splits)
    show ?thesis
    proof (cases "trk_diff_area tr")
      case None
      then have "released (insert c R) k" using Cons.prems(2,3) tr Some by (auto simp: released_def taken_areas_def)
      with Cons.IH [of "Suc inx" k "insert c R"] Cons.prems(1,2) None Some tr show ?thesis by simp
    next
      case a: (Some a)
      with Cons.prems(1) Some tr obtain ao where ao: "areas k a = Some ao" by (auto split: option.splits)
      let ?b = "orig_bdev (ao_area ao)"
      obtain fz k1 where fz: "freeze_bdev (env inx) ?b k = (fz, k1)" by (cases "freeze_bdev (env inx) ?b k")
      from Cons.prems(1) Some tr a ao fz obtain k2 where
        k2: "tracker_release_snapshot t k1 = Ok k2"
        "snapshot_release_trackers env (Suc inx) ts (if fz then thaw_bdev (env inx) ?b k2 else k2) = Ok k'"
        by (auto simp: Let_def dest!: bind_outcome_eq_OkD)
      let ?k3 = "if fz then thaw_bdev (env inx) ?b k2 else k2"
      have k1: "filters k1 = filters k" using arg_cong [OF fz, of snd] kern_filters(2) [of "env inx" ?b k] by simp
      from release_snapshot_filters [OF k2(1)] obtain tr1 where
        r: "filters k1 t = Some tr1" "k2 = k1\<lparr>filters := (filters k1)(t \<mapsto> tr1\<lparr>snapshot_is_taken := False, submit_frozen := False\<rparr>)\<rparr>"
        by blast
      have f3: "filters ?k3 = (filters k)(t \<mapsto> tr\<lparr>snapshot_is_taken := False, submit_frozen := False\<rparr>)"
        using r k1 tr by simp
      have "taken_areas ?k3" "released (insert c R) ?k3"
        unfolding Some by (rule released_upd [OF f3 _ Cons.prems(2,3)], simp)+
      from Cons.IH [OF k2(2) this] show ?thesis by simp
    qed
  qed
qed simp

lemma tracker_put_filters:
  assumes "tracker_put t k = Ok k'" "filters k' u = Some tr'"
  shows "\<exists>tr n. filters k u = Some tr \<and> tr' = tr\<lparr>flt_kref := n\<rparr>"
proof -
  from assms(1) obtain tr where tr: "filters k t = Some tr" by (auto simp: tracker_put_def bdev_filter_put_def split: option.splits)
  with assms(1) have f: "filters k' = (filters k)(t \<mapsto> tr\<lparr>flt_kref := flt_kref tr - 1\<rparr>)"
    by (auto simp: tracker_put_def bdev_filter_put_def bdev_filter_free_def kref_put_def tracker_release_def Let_def split: if_splits option.splits)
  show ?thesis
  proof (cases "u = t")
    case True
    with assms(2) f tr show ?thesis by auto
  next
    case False
    with assms(2) f have "filters k u = Some (tr'\<lparr>flt_kref := flt_kref tr'\<rparr>)" by simp
    then show ?thesis by (intro exI [of _ tr'] exI [of _ "flt_kref tr'"]) simp
  qed
qed

lemma put_trackers_detached:
  assumes "put_trackers P ts k = Ok k'" "released (set ts) k" "detached R k"
  shows "detached (R \<union> set ts) k'"
  using assms
proof (induction ts arbitrary: k R)
  case (Cons c ts)
  show ?case
  proof (cases c)
    case None
    with Cons.IH [OF _ _ Cons.prems(3)] Cons.prems(1,2) show ?thesis by simp
  next
    case (Some t)
    then obtain tr where tr: "filters k t = Some tr" using Cons.prems(1) by (auto split: option.splits)
    with Cons.prems(1) Some obtain k1 k2 k3 where
      k: "put_area P (trk_diff_area tr) k = Ok k1" "upd_tracker t (\<lambda>tr. tr\<lparr>trk_diff_area := None\<rparr>) k1 = Ok k2"
      "tracker_put t k2 = Ok k3" "put_trackers P ts k3 = Ok k'" by (auto dest!: bind_outcome_eq_OkD)
    have f: "filters k2 = (filters k)(t \<mapsto> tr\<lparr>trk_diff_area := None\<rparr>)"
      using k(2) put_area_filters [OF k(1)] tr by (auto simp: upd_tracker_def upd_filter_def split: option.splits)
    have nt: "\<not> snapshot_is_taken (tr\<lparr>trk_diff_area := None\<rparr>)" "released (set ts) k"
      using Cons.prems(2) Some tr by (auto simp: released_def)
    have "released (set ts) k2" "detached (insert c R) k2"
      unfolding Some by (rule detached_upd [OF f nt(1) _ nt(2) Cons.prems(3)], simp)+
    then have "released (set ts) k3" "detached (insert c R) k3"
      by (auto simp: released_def detached_def dest!: tracker_put_filters [OF k(3)])
    from Cons.IH [OF k(4) this] show ?thesis by simp
  qed
qed simp

lemma release_detached:
  assumes "snapshot_release P env sn st = Ok (Returned (), st')" "taken_areas (ms_kern st)"
  shows "detached (set (take (sn_count sn) (sn_trackers sn))) (ms_kern st')"
proof -
  let ?ts = "take (sn_count sn) (sn_trackers sn)"
  from assms(1) obtain st1 k1 k2 where
    s: "free_images P (ve_worker env) 0 (take (sn_count sn) (sn_images sn)) st = Ok (Returned (), st1)"
    "snapshot_release_trackers (ve_tracker env) 0 ?ts (ms_kern st1) = Ok k1" "put_trackers P ?ts k1 = Ok k2"
    "ms_kern st' = k2"
    by (auto simp: snapshot_release_def Let_def dest!: bind_outcome_eq_OkD bind_lock_eq_OkD)
  have "taken_areas (ms_kern st1)" using assms(2) free_images_filters [OF s(1)] by (simp add: taken_areas_def)
  from release_trackers_released [OF s(2) this, of "{}"] have "released (set ?ts) k1" by (simp add: released_def)
  from put_trackers_detached [OF s(3) this, of "{}"] show ?thesis by (simp add: detached_def s(4))
qed

text \<open>C7: destroying a snapshot ends the copy-on-write of its devices.  When \<^verbatim>\<open>snapshot_destroy\<close> returns after
  dropping the last reference, the snapshot is gone, the list is empty, no tracker of the snapshot is taken or has a difference
  area, and a write to one of its devices is only entered into the change tracking map.  This holds
  whatever snapshot the area of the tracker belonged to: nothing prevents two snapshots from sharing a
  device, and then destroying one that was never taken ends the copy-on-write of the other.\<close>

theorem destroyed_snapshot_detaches_devices:
  assumes "snapshot_destroy P env (sn_id sn) st = Ok (Returned r, st')" "lists_only i st" "snapshot_objs st i = Some sn"
    and "sn_kref sn = 1" "taken_areas (ms_kern st)"
  shows "r = None \<and> snapshot_objs st' = (snapshot_objs st)(i := None) \<and> list_empty (snapshots st') \<and>
    (\<forall>t tr. Some t \<in> set (take (sn_count sn) (sn_trackers sn)) \<longrightarrow> filters (ms_kern st') t = Some tr \<longrightarrow>
       \<not> snapshot_is_taken tr \<and> trk_diff_area tr = None) \<and>
    (\<forall>Q sa b t v k. Some t \<in> set (take (sn_count sn) (sn_trackers sn)) \<longrightarrow>
       tracker_submit_verdict Q sa b t (ms_kern st') = Ok (v, k) \<longrightarrow>
       v \<in> {Returned NotFiltered, Returned NotCopied} \<and> areas k = areas (ms_kern st'))"
proof -
  from lists_onlyD [OF assms(2,3)] obtain rr where
    l: "find_snapshot (next_snapshot st) (sn_id sn) Head st = Ok (Some i)" "\<not> list_empty (snapshots st)"
    "list_del (Link i) (snapshots st) = Ok rr" "lnext rr Head = Some Head" by auto
  with assms(1) have r: "r = None" and p: "snapshot_put P env i (st\<lparr>snapshots := rr\<rparr>) = Ok (Returned (), st')"
    by (auto simp: snapshot_destroy_def dest!: bind_lock_eq_OkD)
  let ?st = "st\<lparr>snapshots := rr, snapshot_objs := (snapshot_objs st)(i \<mapsto> sn\<lparr>sn_kref := 0\<rparr>)\<rparr>"
  from p assms(3,4) have "snapshot_free P env i ?st = Ok (Returned (), st')"
    by (simp add: snapshot_put_def kref_put_def Let_def)
  then obtain st1 where s: "snapshot_release P env (sn\<lparr>sn_kref := 0\<rparr>) ?st = Ok (Returned (), st1)"
    and st': "st' = st1\<lparr>ms_kern := (ms_kern st1)\<lparr>storages := (storages (ms_kern st1))
                       (sn_storage sn := diff_storage_put (storages (ms_kern st1) (sn_storage sn)))\<rparr>,
                    snapshot_objs := (snapshot_objs st1)(i := None)\<rparr>"
    by (auto simp: snapshot_free_def dest!: bind_lock_eq_OkD)
  have "snapshot_part st1 = snapshot_part ?st" by (rule release_part [OF s])
  then have sp: "snapshot_objs st1 = (snapshot_objs st)(i \<mapsto> sn\<lparr>sn_kref := 0\<rparr>)" "snapshots st1 = rr"
    by (simp_all add: snapshot_part_def)
  have d: "detached (set (take (sn_count sn) (sn_trackers sn))) (ms_kern st')"
    using release_detached [OF s] assms(5) by (simp add: detached_def st')
  have "v \<in> {Returned NotFiltered, Returned NotCopied} \<and> areas k = areas (ms_kern st')"
    if "Some t \<in> set (take (sn_count sn) (sn_trackers sn))" "tracker_submit_verdict Q sa b t (ms_kern st') = Ok (v, k)" for Q sa b t v k
    using d that
    by (auto simp: detached_def tracker_submit_verdict_def Let_def split: if_splits option.splits dest!: bind_outcome_eq_OkD)
  with d r sp l(4) show ?thesis by (auto simp: st' detached_def list_empty_def)
qed

text \<open>Two snapshots of one device: the first is taken, the second only created.\<close>

definition shared_state :: snap_state where
  "shared_state =
     (snap_init example_disks)
       \<lparr>ms_kern := (kern_init example_disks)
          \<lparr>filters := [0 \<mapsto> tracker_zero\<lparr>flt_kref := 3, trk_dev_id := 8, snapshot_is_taken := True, trk_cbt_map := Some 0,
              trk_diff_area := Some 0\<rparr>],
           areas := [0 \<mapsto> \<lparr>ao_area = example_area\<lparr>da_kref := 2\<rparr>, ao_storage = 0, ao_inflight = [], ao_notify = []\<rparr>],
           storages := [0 \<mapsto> example_storage, 1 \<mapsto> example_storage], next_object := 1\<rparr>,
        snapshot_objs := [0 \<mapsto> example_snapshot\<lparr>sn_is_taken := True, sn_images := [Some 0]\<rparr>,
          1 \<mapsto> example_snapshot\<lparr>sn_id := 6, sn_storage := 1\<rparr>], next_snapshot := 2,
        snapshots := \<lparr>lnext = [Head \<mapsto> Link 1, Link 1 \<mapsto> Head], lprev = [Head \<mapsto> Link 1, Link 1 \<mapsto> Head]\<rparr>\<rparr>"

theorem destroyed_snapshot_detaches_devices_witness:
  "\<exists>st' sn tr tr'. snapshot_objs shared_state 0 = Some sn \<and> sn_is_taken sn \<and> sn_trackers sn = [Some 0] \<and>
     filters (ms_kern shared_state) 0 = Some tr \<and> snapshot_is_taken tr \<and>
     snapshot_destroy example_params (example_snapshot_env example_tracker_env 0) 6 shared_state = Ok (Returned None, st') \<and>
     snapshot_objs st' 0 = Some sn \<and> filters (ms_kern st') 0 = Some tr' \<and> \<not> snapshot_is_taken tr' \<and> trk_diff_area tr' = None"
proof -
  let ?sn = "example_snapshot\<lparr>sn_id := 6, sn_storage := 1\<rparr>" and ?env = "example_snapshot_env example_tracker_env 0"
  have h: "lists_only 1 shared_state" "snapshot_objs shared_state 1 = Some ?sn" "sn_kref ?sn = 1"
    by (simp_all add: lists_only_def shared_state_def example_snapshot_def)
  have o: "snapshot_objs shared_state 0 = Some (example_snapshot\<lparr>sn_is_taken := True, sn_images := [Some 0]\<rparr>)"
    "filters (ms_kern shared_state) 0 = Some (tracker_zero\<lparr>flt_kref := 3, trk_dev_id := 8, snapshot_is_taken := True,
       trk_cbt_map := Some 0, trk_diff_area := Some 0\<rparr>)"
    by (simp_all add: shared_state_def)
  have ta: "taken_areas (ms_kern shared_state)"
    by (simp add: taken_areas_def shared_state_def kern_init_def)
  from lists_onlyD [OF h(1,2)] obtain rr where
    l: "find_snapshot (next_snapshot shared_state) 6 Head shared_state = Ok (Some 1)" "\<not> list_empty (snapshots shared_state)"
    "list_del (Link 1) (snapshots shared_state) = Ok rr" by (auto simp: example_snapshot_def)
  have "\<exists>st' tr'. snapshot_destroy example_params ?env 6 shared_state = Ok (Returned None, st') \<and> filters (ms_kern st') 0 = Some tr'"
    using l
    by (simp add: snapshot_destroy_def snapshot_put_def snapshot_free_def snapshot_release_def kref_put_def Let_def shared_state_def
        example_snapshot_def kern_init_def snap_init_def freeze_bdev_def thaw_bdev_def tracker_release_snapshot_def
        bdevfilter_freeze_queue_def upd_tracker_def upd_filter_def bdevfilter_unfreeze_queue_def put_area_def diff_area_put_def
        cow_of_def tracker_put_def bdev_filter_put_def tracker_zero_def example_snapshot_env_def example_tracker_env_def
        tracker_example_env_def)
  then obtain st' tr' where r: "snapshot_destroy example_params ?env 6 shared_state = Ok (Returned None, st')" "filters (ms_kern st') 0 = Some tr'"
    by blast
  have id: "sn_id ?sn = 6" "Some 0 \<in> set (take (sn_count ?sn) (sn_trackers ?sn))" by (simp_all add: example_snapshot_def)
  from destroyed_snapshot_detaches_devices [OF _ h ta, of example_params ?env None st', unfolded id(1), OF r(1)]
  have d: "snapshot_objs st' 0 = snapshot_objs shared_state 0" "\<not> snapshot_is_taken tr'" "trk_diff_area tr' = None"
    using id(2) r(2) by auto
  show ?thesis
    by (intro exI [of _ st'] exI [of _ "example_snapshot\<lparr>sn_is_taken := True, sn_images := [Some 0]\<rparr>"] exI [of _ tr']
        exI [of _ "tracker_zero\<lparr>flt_kref := 3, trk_dev_id := 8, snapshot_is_taken := True, trk_cbt_map := Some 0, trk_diff_area := Some 0\<rparr>"])
      (use o r d in \<open>simp add: example_snapshot_def\<close>)
qed

section \<open>A tracker that cannot be taken\<close>

definition stuck :: "nat \<Rightarrow> kern \<Rightarrow> bool" where
  "stuck t k \<longleftrightarrow> (\<exists>tr. filters k t = Some tr \<and> submit_frozen tr \<and> trk_diff_area tr \<noteq> None)"

lemma take_tracker_stuck:
  assumes "tracker_take_snapshot p env t k = Ok (Some e, k')"
  shows "stuck t k'"
  using assms
  by (auto simp: tracker_take_snapshot_def bdevfilter_freeze_queue_def stuck_def upd_tracker_def upd_filter_def
      bdevfilter_unfreeze_queue_def Let_def split: option.splits if_splits dest!: bind_outcome_eq_OkD)

lemma take_loop_stuck:
  assumes "take_trackers_loop p env inx ts k = Ok (Some e, n, k')"
  shows "\<exists>t. Some t \<in> set ts \<and> stuck t k'"
  using assms
proof (induction ts arbitrary: inx k)
  case (Cons c ts)
  show ?case
  proof (cases c)
    case None
    with Cons show ?thesis by simp
  next
    case (Some t)
    obtain b where b: "tracker_bdev t k = Ok b" using Cons.prems Some by (auto dest!: bind_outcome_eq_OkD)
    obtain fz k1 where fz: "freeze_bdev (env inx) b k = (fz, k1)" by (cases "freeze_bdev (env inx) b k")
    from Cons.prems Some b fz obtain ret k2 where r: "tracker_take_snapshot p (env inx) t k1 = Ok (ret, k2)"
      by (auto dest!: bind_outcome_eq_OkD)
    show ?thesis
    proof (cases ret)
      case None
      with Cons.prems Some b fz r have "take_trackers_loop p env (Suc inx) ts (if fz then thaw_bdev (env inx) b k2 else k2) = Ok (Some e, n, k')"
        by simp
      from Cons.IH [OF this] show ?thesis by auto
    next
      case (Some e')
      with Cons.prems \<open>c = Some t\<close> b fz r have "k' = k2" by simp
      with take_tracker_stuck r Some \<open>c = Some t\<close> show ?thesis by auto
    qed
  qed
qed simp

lemma release_snapshot_stuck:
  assumes "stuck t k"
  shows "tracker_release_snapshot t k = Fault" "tracker_release_snapshot u k = Ok k' \<Longrightarrow> stuck t k'"
proof -
  show "tracker_release_snapshot t k = Fault"
    using assms by (auto simp: stuck_def tracker_release_snapshot_def bdevfilter_freeze_queue_def)
  assume "tracker_release_snapshot u k = Ok k'"
  from release_snapshot_filters [OF this] assms show "stuck t k'" by (auto simp: stuck_def)
qed

lemma stuck_frozen [simp]:
  "stuck t (thaw_bdev env b k) = stuck t k" "stuck t (snd (freeze_bdev env b k)) = stuck t k"
  by (simp_all add: stuck_def)

lemma untake_stuck: "untake_loop env ts n k = Ok k' \<Longrightarrow> stuck t k \<Longrightarrow> stuck t k'"
proof (induction n arbitrary: k)
  case (Suc n)
  show ?case
  proof (cases "ts ! n")
    case None
    with Suc show ?thesis by simp
  next
    case (Some u)
    with Suc.prems(1) obtain b k1 where
      k1: "tracker_release_snapshot u (snd (freeze_bdev (env n) b k)) = Ok k1" "untake_loop env ts n (thaw_bdev (env n) b k1) = Ok k'"
      by (auto dest!: bind_outcome_eq_OkD)
    have "stuck t (snd (freeze_bdev (env n) b k))" using Suc.prems(2) by simp
    from release_snapshot_stuck(2) [OF this k1(1)] Suc.IH [OF k1(2)] show ?thesis by simp
  qed
qed simp

lemma release_trackers_stuck:
  "stuck t k \<Longrightarrow> Some t \<in> set ts \<Longrightarrow> snapshot_release_trackers env inx ts k = Fault"
proof (induction ts arbitrary: inx k)
  case (Cons c ts)
  show ?case
  proof (cases c)
    case None
    with Cons show ?thesis by simp
  next
    case (Some u)
    show ?thesis
    proof (rule ccontr)
      assume "\<not> ?thesis"
      then obtain k' where r: "snapshot_release_trackers env inx (Some u # ts) k = Ok k'"
        using Some by (cases "snapshot_release_trackers env inx (c # ts) k") auto
      obtain tr where tr: "filters k u = Some tr" using r by (auto split: option.splits)
      show False
      proof (cases "trk_diff_area tr")
        case None
        then have "u \<noteq> t" using tr Cons.prems(1) by (auto simp: stuck_def)
        with Cons.prems Some Cons.IH [of k "Suc inx"] r tr None show False by simp
      next
        case (Some a)
        with r tr obtain ao where ao: "areas k a = Some ao" by (auto split: option.splits)
        let ?b = "orig_bdev (ao_area ao)"
        obtain fz k1 where fz: "freeze_bdev (env inx) ?b k = (fz, k1)" by (cases "freeze_bdev (env inx) ?b k")
        have s1: "stuck t k1" using Cons.prems(1) stuck_frozen(2) [of t "env inx" ?b k] by (simp add: fz)
        from r tr Some ao fz obtain k2 where k2: "tracker_release_snapshot u k1 = Ok k2"
          "snapshot_release_trackers env (Suc inx) ts (if fz then thaw_bdev (env inx) ?b k2 else k2) = Ok k'"
          by (auto simp: Let_def dest!: bind_outcome_eq_OkD)
        have "u \<noteq> t" using k2(1) release_snapshot_stuck(1) [OF s1] by auto
        moreover have "stuck t (if fz then thaw_bdev (env inx) ?b k2 else k2)" using release_snapshot_stuck(2) [OF s1 k2(1)] by simp
        ultimately show False using Cons.IH k2(2) Cons.prems(2) \<open>c = Some u\<close> by auto
      qed
    qed
  qed
qed simp

text \<open>C35: a device that cannot be taken blocks the module.  The only error of
  \<^verbatim>\<open>tracker_take_snapshot\<close> is a change tracking map that cannot be reset, and it then returns with the queue
  of writes still frozen.  The undo loop leaves that tracker out, and the error path of \<^verbatim>\<open>snapshot_take\<close> drops
  the last reference, so the release freezes the queue a second time: the call never returns.\<close>

theorem failed_take_never_returns:
  assumes "lists_only i st" "snapshot_objs st i = Some sn" "sn_kref sn = 1" "\<not> sn_is_taken sn" "0 < sn_count sn"
    and "set (take (sn_count sn) (sn_images sn)) \<subseteq> {None}"
    and "alloc_areas (sp_area p) env (sn_storage sn) 0 (take (sn_count sn) (sn_trackers sn)) (ms_kern st) = Ok (None, k1)"
    and "take_trackers_loop (sp_cbt p) (ve_tracker env) 0 (take (sn_count sn) (sn_trackers sn)) k1 = Ok (Some e, n, k2)"
  shows "snapshot_take p env (sn_id sn) st = Fault"
proof -
  let ?ts = "take (sn_count sn) (sn_trackers sn)" and ?sn = "sn\<lparr>sn_kref := 2\<rparr>"
  let ?st1 = "st\<lparr>snapshot_objs := (snapshot_objs st)(i \<mapsto> ?sn)\<rparr>"
  have e: "sn\<lparr>sn_kref := Suc (sn_kref sn)\<rparr> = ?sn" using assms(3) by simp
  note g = get_by_id_only [OF assms(1,2), unfolded e]
  from take_loop_stuck [OF assms(8)] obtain t where t: "Some t \<in> set ?ts" "stuck t k2" by blast
  show ?thesis
  proof (cases "untake_loop (ve_tracker env) ?ts n k2")
    case Fault
    then have "take_steps p env ?sn (ms_kern st) = Fault"
      using assms(7,8) by (simp add: take_steps_def snapshot_take_trackers_def)
    with g assms(4,5) show ?thesis by (simp add: snapshot_take_def)
  next
    case (Ok k3)
    then have s: "take_steps p env ?sn (ms_kern st) = Ok (Some e, ?sn, k3)"
      using assms(7,8) by (simp add: take_steps_def snapshot_take_trackers_def)
    have st: "stuck t k3" by (rule untake_stuck [OF Ok t(2)])
    let ?st2 = "st\<lparr>ms_kern := k3, snapshot_objs := (snapshot_objs st)(i \<mapsto> ?sn)\<rparr>"
    obtain r where r: "list_del (Link i) (snapshots st) = Ok r" using lists_onlyD(4) [OF assms(1,2)] by blast
    let ?st3 = "?st2\<lparr>snapshots := r, snapshot_objs := (snapshot_objs st)(i \<mapsto> sn\<lparr>sn_kref := 1\<rparr>)\<rparr>"
    have p1: "snapshot_put (sp_cow p) env i (?st2\<lparr>snapshots := r\<rparr>) = Ok (Returned (), ?st3)"
      by (simp add: snapshot_put_def kref_put_def)
    have "free_images (sp_cow p) (ve_worker env) 0 (take (sn_count sn) (sn_images sn)) s = Ok (Returned (), s)" for s :: snap_state
      by (rule free_images_none) (use assms(6) in blast)
    then have p2: "snapshot_put (sp_cow p) env i ?st3 = Fault"
      by (simp add: snapshot_put_def kref_put_def snapshot_free_def snapshot_release_def Let_def release_trackers_stuck [OF st t(1)])
    show ?thesis using g s r assms(4,5) p1 p2 by (simp add: snapshot_take_def Let_def)
  qed
qed

text \<open>A corrupted map for which there is no memory.\<close>

definition no_memory_env :: tracker_env where
  "no_memory_env = example_tracker_env\<lparr>te_cbt := (\<lambda>_. \<lparr>vmalloc_read = False, vmalloc_write = False, random_uuid = 5\<rparr>)\<rparr>"

lemma example_reset:
  "case cbt_map_reset cbt_default_params \<lparr>vmalloc_read = False, vmalloc_write = False, random_uuid = 5\<rparr>
     (cbt_map_zero\<lparr>is_corrupted := True\<rparr>) 8 of Fault \<Rightarrow> False | Ok (r, m) \<Rightarrow> r = Some ENOMEM"
  by code_simp

theorem failed_take_never_returns_witness:
  "snapshot_take example_snapshot_params (example_snapshot_env no_memory_env 0) 5
     (example_snap_state (cbt_map_zero\<lparr>is_corrupted := True\<rparr>)) = Fault"
proof -
  let ?m = "cbt_map_zero\<lparr>is_corrupted := True\<rparr>" and ?env = "example_snapshot_env no_memory_env 0"
  let ?p = example_snapshot_params and ?ts = "take (sn_count example_snapshot) (sn_trackers example_snapshot)"
  let ?st = "example_snap_state ?m"
  have h: "lists_only 0 ?st" "snapshot_objs ?st 0 = Some example_snapshot" "sn_kref example_snapshot = 1"
    "\<not> sn_is_taken example_snapshot" "0 < sn_count example_snapshot"
    "set (take (sn_count example_snapshot) (sn_images example_snapshot)) \<subseteq> {None}" "sn_id example_snapshot = 5"
    by (simp_all add: lists_only_def example_snap_state_def example_snapshot_def)
  from example_area_new obtain na where na: "diff_area_new area_default_params (Inr example_info) True (\<lambda>_. True) (\<lambda>_. None) example_storage = Ok na"
    "na_result na = Inr example_area" by blast
  obtain m' where m': "cbt_map_reset cbt_default_params \<lparr>vmalloc_read = False, vmalloc_write = False, random_uuid = 5\<rparr> ?m 8 = Ok (Some ENOMEM, m')"
    using example_reset by (auto split: outcome.splits)
  note defs = example_snapshot_def example_snapshot_env_def example_snapshot_params_def no_memory_env_def example_tracker_env_def
    tracker_example_env_def example_snap_state_def kern_init_def snap_init_def tracker_zero_def
  have "\<exists>k1. alloc_areas (sp_area ?p) ?env (sn_storage example_snapshot) 0 ?ts (ms_kern ?st) = Ok (None, k1) \<and>
      (\<exists>n k2. take_trackers_loop (sp_cbt ?p) (ve_tracker ?env) 0 ?ts k1 = Ok (Some ENOMEM, n, k2))"
    using na m'
    by (simp add: defs upd_tracker_def upd_filter_def tracker_bdev_def freeze_bdev_def thaw_bdev_def tracker_take_snapshot_def
        bdevfilter_freeze_queue_def Let_def)
  then obtain k1 n k2 where "alloc_areas (sp_area ?p) ?env (sn_storage example_snapshot) 0 ?ts (ms_kern ?st) = Ok (None, k1)"
    "take_trackers_loop (sp_cbt ?p) (ve_tracker ?env) 0 ?ts k1 = Ok (Some ENOMEM, n, k2)" by blast
  from failed_take_never_returns [OF h(1-6) this] h(7) show ?thesis by simp
qed

end
