(* ===== verification/Spec2Isabelle.thy ===== *)
theory Spec2Isabelle
  imports Snapshot_Release
begin

text \<open>
  A verification development of blksnap, a kernel module that takes snapshots of block devices and
  tracks changed blocks.
\<close>

end
